(* ===== verification/Prelude.thy ===== *)
theory Prelude
  imports Main "HOL-Library.Word" "HOL-Library.Monad_Syntax"
begin

text \<open>
  Shared vocabulary of the development.

  \<^item> The fixed-width integer types of the firmware (\<open>uint8_t\<close>, \<open>uint16_t\<close>, \<open>uint32_t\<close>) are words.
  \<^item> Undefined behaviour of C (an access outside an array, a dereference of \<open>NULL\<close>) is the value
    \<^const>\<open>None\<close> of an \<open>option\<close> result; the bind of the option monad propagates it.
    A theorem whose conclusion is \<open>f x = Some y\<close> therefore also says that the code stays
    inside its arrays.
  \<^item> \<open>arr_get\<close> and \<open>arr_set\<close> are the checked array accesses, \<open>shift_down\<close> is the loop
    \<open>for (i = lo; i < hi; i++) a[i] = a[i + 1];\<close> that several components use.
  \<^item> \<open>first_index\<close> is the loop that looks for the first element with a property.
\<close>

unbundle bit_operations_syntax

type_synonym u8 = "8 word"
type_synonym u16 = "16 word"
type_synonym u32 = "32 word"

named_theorems arr_simps "equations of the checked array accesses"

section \<open>Words\<close>

lemma unat_plus_one: "i < n \<Longrightarrow> unat (i + 1) = Suc (unat i)" for i n :: "'a::len word"
proof -
  assume "i < n"
  then have "Suc (unat i) \<le> unat n" by (simp add: word_less_nat_alt)
  also have "\<dots> < 2 ^ LENGTH('a)" by (rule unsigned_less)
  finally have "Suc (unat i) < 2 ^ LENGTH('a)" .
  then show ?thesis by (simp add: unat_word_ariths)
qed

lemma unat_ucast_up [simp]:
  "LENGTH('a) \<le> LENGTH('b) \<Longrightarrow> unat (ucast x :: 'b::len word) = unat x" for x :: "'a::len word"
proof -
  assume "LENGTH('a) \<le> LENGTH('b)"
  then have "(2 :: nat) ^ LENGTH('a) \<le> 2 ^ LENGTH('b)" by (simp add: power_increasing)
  then have "unat x < 2 ^ LENGTH('b)" by (rule less_le_trans [OF unsigned_less])
  then show ?thesis by (simp add: unsigned_ucast_eq take_bit_nat_eq_self)
qed

lemma unat_add_small: "unat x + unat y < 2 ^ LENGTH('a) \<Longrightarrow> unat (x + y) = unat x + unat y"
  for x y :: "'a::len word"
  by (simp add: unat_word_ariths)

lemma unat_mult_small: "unat x * unat y < 2 ^ LENGTH('a) \<Longrightarrow> unat (x * y) = unat x * unat y"
  for x y :: "'a::len word"
  by (simp add: unat_word_ariths)

lemma unat_u8_of_nat: "n < 256 \<Longrightarrow> unat (of_nat n :: u8) = n"
  by (simp add: unat_of_nat take_bit_nat_eq_self)

section \<open>Checked array accesses\<close>

definition arr_get :: "'a list \<Rightarrow> nat \<Rightarrow> 'a option" where
  "arr_get xs i = (if i < length xs then Some (xs ! i) else None)"

definition arr_set :: "'a list \<Rightarrow> nat \<Rightarrow> 'a \<Rightarrow> 'a list option" where
  "arr_set xs i v = (if i < length xs then Some (xs[i := v]) else None)"

lemma arr_get_in [arr_simps]: "i < length xs \<Longrightarrow> arr_get xs i = Some (xs ! i)"
  by (simp add: arr_get_def)

lemma arr_get_out [arr_simps]: "length xs \<le> i \<Longrightarrow> arr_get xs i = None"
  by (simp add: arr_get_def)

lemma arr_set_in [arr_simps]: "i < length xs \<Longrightarrow> arr_set xs i v = Some (xs[i := v])"
  by (simp add: arr_set_def)

lemma arr_set_out [arr_simps]: "length xs \<le> i \<Longrightarrow> arr_set xs i v = None"
  by (simp add: arr_set_def)

lemma arr_get_SomeD: "arr_get xs i = Some v \<Longrightarrow> i < length xs \<and> v = xs ! i"
  by (auto simp: arr_get_def split: if_splits)

lemma arr_set_SomeD: "arr_set xs i v = Some ys \<Longrightarrow> i < length xs \<and> ys = xs[i := v]"
  by (auto simp: arr_set_def split: if_splits)

section \<open>Moving the tail of an array one place down\<close>

function shift_down :: "nat \<Rightarrow> nat \<Rightarrow> 'a list \<Rightarrow> 'a list option" where
  "shift_down i n xs =
     (if i < n then do {
        v \<leftarrow> arr_get xs (Suc i);
        ys \<leftarrow> arr_set xs i v;
        shift_down (Suc i) n ys
      } else Some xs)"
  by pat_completeness auto
termination
  by (relation "measure (\<lambda>(i, n, xs). n - i)") auto

declare shift_down.simps [simp del]

lemma shift_down_eq:
  assumes "i \<le> n" "n < length xs"
  shows "shift_down i n xs = Some (take i xs @ take (n - i) (drop (Suc i) xs) @ drop n xs)"
  using assms
proof (induction i n xs rule: shift_down.induct)
  case (1 i n xs)
  show ?case
  proof (cases "i < n")
    case False
    then show ?thesis using "1.prems" by (subst shift_down.simps) simp
  next
    case True
    define ys where "ys = xs[i := xs ! Suc i]"
    have len: "Suc i < length xs" using True "1.prems" by simp
    have step: "shift_down i n xs = shift_down (Suc i) n ys"
      using True len by (simp add: shift_down.simps [of i n xs] arr_simps ys_def)
    have "shift_down (Suc i) n ys =
        Some (take (Suc i) ys @ take (n - Suc i) (drop (Suc (Suc i)) ys) @ drop n ys)"
      using "1.IH" [OF True, of "xs ! Suc i" ys] True len "1.prems"
      by (simp add: arr_simps ys_def)
    moreover have "take (Suc i) ys = take i xs @ [xs ! Suc i]"
      using len by (simp add: ys_def take_Suc_conv_app_nth)
    moreover have "drop (Suc (Suc i)) ys = drop (Suc (Suc i)) xs" "drop n ys = drop n xs"
      using True by (simp_all add: ys_def)
    moreover have "take (n - i) (drop (Suc i) xs) =
        xs ! Suc i # take (n - Suc i) (drop (Suc (Suc i)) xs)"
      using True len by (simp add: Cons_nth_drop_Suc [symmetric] take_Cons' Suc_diff_Suc)
    ultimately show ?thesis by (simp add: step)
  qed
qed

lemma shift_down_full: "lo < n \<Longrightarrow> n = length xs \<Longrightarrow> shift_down lo n xs = None"
proof (induction lo n xs rule: shift_down.induct)
  case (1 i n xs)
  show ?case
  proof (cases "Suc i < n")
    case True
    then have "shift_down (Suc i) n (xs[i := xs ! Suc i]) = None"
      using "1.IH" [of "xs ! Suc i" "xs[i := xs ! Suc i]"] "1.prems" by (simp add: arr_simps)
    then show ?thesis using True "1.prems" by (subst shift_down.simps) (simp add: arr_simps)
  next
    case False
    then show ?thesis using "1.prems" by (subst shift_down.simps) (simp add: arr_simps)
  qed
qed

text \<open>The first \<open>n - 1\<close> slots after the loop, and the first \<open>n\<close> with a new last entry.\<close>

lemma shifted_take:
  assumes "i < n" "n < length xs"
  shows "take (n - 1) (take i xs @ take (n - i) (drop (Suc i) xs) @ drop n xs)
       = take i xs @ drop (Suc i) (take n xs)"
proof -
  obtain m where n: "n = Suc m" "i \<le> m" using assms(1) by (cases n) auto
  have "take (n - 1) (take i xs @ take (n - i) (drop (Suc i) xs) @ drop n xs)
      = take i xs @ take (m - i) (take (Suc m - i) (drop (Suc i) xs) @ drop n xs)"
    using n assms by (simp add: min_def) (auto dest: le_antisym)
  also have "\<dots> = take i xs @ take (m - i) (drop (Suc i) xs)"
    using n assms by simp
  finally show ?thesis using n by (simp add: drop_take)
qed

lemma shifted_take_set:
  assumes "i < n" "n < length xs"
  shows "take n ((take i xs @ take (n - i) (drop (Suc i) xs) @ drop n xs)[n - 1 := x])
       = take i xs @ drop (Suc i) (take n xs) @ [x]"
proof -
  let ?ys = "take i xs @ take (n - i) (drop (Suc i) xs) @ drop n xs"
  have len: "length ?ys = length xs" using assms by simp
  have n: "n = Suc (n - 1)" using assms by simp
  have "take n (?ys[n - 1 := x]) = take (n - 1) (?ys[n - 1 := x]) @ [(?ys[n - 1 := x]) ! (n - 1)]"
    using assms len by (subst n) (rule take_Suc_conv_app_nth, simp)
  also have "\<dots> = take (n - 1) ?ys @ [x]"
    using assms len by (simp add: take_update_cancel del: take_append)
  finally show ?thesis using assms by (simp only: shifted_take append_assoc)
qed

section \<open>Looking for the first element with a property\<close>

fun first_index :: "('a \<Rightarrow> bool) \<Rightarrow> 'a list \<Rightarrow> nat option" where
  "first_index P [] = None"
| "first_index P (x # xs) = (if P x then Some 0 else map_option Suc (first_index P xs))"

lemma first_index_None: "first_index P xs = None \<longleftrightarrow> (\<forall>x \<in> set xs. \<not> P x)"
  by (induction xs) auto

lemma first_index_Some:
  "first_index P xs = Some i \<longleftrightarrow> i < length xs \<and> P (xs ! i) \<and> (\<forall>j < i. \<not> P (xs ! j))"
proof (induction xs arbitrary: i)
  case Nil
  then show ?case by simp
next
  case (Cons x xs)
  show ?case
  proof (cases i)
    case 0
    then show ?thesis by auto
  next
    case (Suc k)
    then show ?thesis using Cons.IH [of k] by (auto simp: All_less_Suc2)
  qed
qed

lemma first_index_less: "first_index P xs = Some i \<Longrightarrow> i < length xs"
  by (simp add: first_index_Some)

text \<open>
  The same loop over an array, \<open>for (i = lo; i < n; i++) if (P(a[i])) break;\<close>: its result is the
  value of \<open>i\<close> afterwards, \<open>n\<close> when there is no such element. \<open>arr_upto\<close> is a loop that visits
  every one of the first \<open>n\<close> elements.
\<close>

function arr_find :: "('a \<Rightarrow> bool) \<Rightarrow> nat \<Rightarrow> nat \<Rightarrow> 'a list \<Rightarrow> nat option" where
  "arr_find P i n xs =
     (if i < n then do {
        v \<leftarrow> arr_get xs i;
        if P v then Some i else arr_find P (Suc i) n xs
      } else Some i)"
  by pat_completeness auto
termination
  by (relation "measure (\<lambda>(P, i, n, xs). n - i)") auto

declare arr_find.simps [simp del]

definition arr_upto :: "nat \<Rightarrow> 'a list \<Rightarrow> 'a list option" where
  "arr_upto n xs = (if n \<le> length xs then Some (take n xs) else None)"

lemma arr_find_eq:
  assumes "n \<le> length xs" "i \<le> n"
  shows "arr_find P i n xs =
    Some (case first_index P (drop i (take n xs)) of None \<Rightarrow> n | Some k \<Rightarrow> i + k)"
  using assms
proof (induction P i n xs rule: arr_find.induct)
  case (1 P i n xs)
  show ?case
  proof (cases "i < n")
    case False
    then show ?thesis using "1.prems" by (subst arr_find.simps) simp
  next
    case True
    have dr: "drop i (take n xs) = xs ! i # drop (Suc i) (take n xs)"
      using True "1.prems" by (metis Cons_nth_drop_Suc length_take min.absorb2 nth_take)
    show ?thesis
      using "1.IH" [OF True, of "xs ! i"] True "1.prems"
      by (subst arr_find.simps) (auto simp: arr_simps dr split: option.splits)
  qed
qed

lemma arr_find_all:
  "arr_find P 0 (length xs) xs = Some (case first_index P xs of None \<Rightarrow> length xs | Some k \<Rightarrow> k)"
  by (simp add: arr_find_eq split: option.split)

section \<open>Lists without repetition\<close>

lemma remove1_split:
  assumes "distinct xs" "i < length xs"
  shows "remove1 (xs ! i) xs = take i xs @ drop (Suc i) xs"
proof -
  have xs: "xs = take i xs @ xs ! i # drop (Suc i) xs"
    using assms(2) by (simp add: id_take_nth_drop [symmetric])
  have "xs ! i \<notin> set (take i xs)"
    using assms by (metis in_set_conv_nth less_irrefl nth_eq_iff_index_eq
        length_take min_less_iff_conj nth_take)
  then show ?thesis
    by (subst xs) (simp add: remove1_append)
qed

lemma set_remove1_distinct: "distinct xs \<Longrightarrow> set (remove1 x xs) = set xs - {x}"
  by (rule set_remove1_eq)

lemma length_remove1_mem: "x \<in> set xs \<Longrightarrow> Suc (length (remove1 x xs)) = length xs"
  by (induction xs) auto

section \<open>Operations against a specification\<close>

text \<open>
  \<open>run_ops ex as s\<close> performs the operations \<open>as\<close> in turn and collects what they return; it is
  \<^const>\<open>None\<close> as soon as one of them is undefined. \<open>run_spec\<close> is the same for a specification that
  cannot fail. The locale \<open>refinement\<close> is the contract of a component with its clients: under
  the invariant every operation is defined, keeps the invariant, and returns and does to the
  abstract value what the specification says.
\<close>

fun run_ops :: "('o \<Rightarrow> 's \<Rightarrow> ('r \<times> 's) option) \<Rightarrow> 'o list \<Rightarrow> 's \<Rightarrow> ('r list \<times> 's) option" where
  "run_ops ex [] s = Some ([], s)"
| "run_ops ex (a # as) s = do {
     (r, s1) \<leftarrow> ex a s;
     (rs, s2) \<leftarrow> run_ops ex as s1;
     Some (r # rs, s2)
   }"

fun run_spec :: "('o \<Rightarrow> 'a \<Rightarrow> 'r \<times> 'a) \<Rightarrow> 'o list \<Rightarrow> 'a \<Rightarrow> 'r list \<times> 'a" where
  "run_spec sp [] x = ([], x)"
| "run_spec sp (a # as) x =
     (let (r, x1) = sp a x; (rs, x2) = run_spec sp as x1 in (r # rs, x2))"

locale refinement =
  fixes exec :: "'o \<Rightarrow> 's \<Rightarrow> ('r \<times> 's) option"
    and abst :: "'s \<Rightarrow> 'a"
    and inv :: "'s \<Rightarrow> bool"
    and spec :: "'o \<Rightarrow> 'a \<Rightarrow> 'r \<times> 'a"
  assumes step: "inv s \<Longrightarrow> \<exists>r s'. exec a s = Some (r, s') \<and> inv s' \<and> (r, abst s') = spec a (abst s)"
begin

lemma run_refines:
  "inv s \<Longrightarrow> \<exists>rs s'. run_ops exec as s = Some (rs, s') \<and> inv s' \<and> (rs, abst s') = run_spec spec as (abst s)"
proof (induction as arbitrary: s)
  case Nil
  then show ?case by simp
next
  case (Cons a as)
  obtain r s1 where s1: "exec a s = Some (r, s1)" "inv s1" "(r, abst s1) = spec a (abst s)"
    using step [OF Cons.prems, of a] by blast
  obtain rs s2 where s2: "run_ops exec as s1 = Some (rs, s2)" "inv s2"
      "(rs, abst s2) = run_spec spec as (abst s1)"
    using Cons.IH [OF s1(2)] by blast
  show ?case using s1 s2(1,2) s2(3) [symmetric]
    by (simp add: s1(3) [symmetric] Let_def)
qed

lemma run_inv: "inv s \<Longrightarrow> run_ops exec as s = Some (rs, s') \<Longrightarrow> inv s'"
  using run_refines [of s as] by auto

lemma run_defined: "inv s \<Longrightarrow> run_ops exec as s \<noteq> None"
  using run_refines [of s as] by auto

lemma step_abst: "inv s \<Longrightarrow> exec a s = Some (r, s') \<Longrightarrow> abst s' = snd (spec a (abst s)) \<and> r = fst (spec a (abst s))"
  using step [of s a] by (metis fst_conv option.inject prod.inject snd_conv)

end

text \<open>
  The same for operations that have a precondition and a specification that leaves choices open:
  \<open>R\<close> relates the concrete and the abstract state. \<open>client_run\<close> are the runs of a client that
  calls an operation only when its precondition holds; its trace records calls and results.
\<close>

inductive client_run ::
    "('o \<Rightarrow> 's \<Rightarrow> ('r \<times> 's) option) \<Rightarrow> ('o \<Rightarrow> 'a \<Rightarrow> bool) \<Rightarrow> ('o \<Rightarrow> 'a \<Rightarrow> 'r \<Rightarrow> 'a \<Rightarrow> bool)
      \<Rightarrow> ('s \<Rightarrow> 'a \<Rightarrow> bool) \<Rightarrow> 's \<Rightarrow> 'a \<Rightarrow> ('o \<times> 'r) list \<Rightarrow> 's \<Rightarrow> 'a \<Rightarrow> bool"
  for exec pre spec R s x
where
  start: "client_run exec pre spec R s x [] s x"
| call: "client_run exec pre spec R s x tr s1 x1 \<Longrightarrow> pre a x1 \<Longrightarrow> exec a s1 = Some (r, s2)
    \<Longrightarrow> spec a x1 r x2 \<Longrightarrow> R s2 x2 \<Longrightarrow> client_run exec pre spec R s x (tr @ [(a, r)]) s2 x2"

locale simulation =
  fixes exec :: "'o \<Rightarrow> 's \<Rightarrow> ('r \<times> 's) option"
    and R :: "'s \<Rightarrow> 'a \<Rightarrow> bool"
    and pre :: "'o \<Rightarrow> 'a \<Rightarrow> bool"
    and spec :: "'o \<Rightarrow> 'a \<Rightarrow> 'r \<Rightarrow> 'a \<Rightarrow> bool"
  assumes sim: "R s x \<Longrightarrow> pre a x \<Longrightarrow> \<exists>r s' x'. exec a s = Some (r, s') \<and> R s' x' \<and> spec a x r x'"
begin

lemmas run_start = client_run.start [where exec = exec and pre = pre and spec = spec and R = R]

lemmas run_call = client_run.call [where exec = exec and pre = pre and spec = spec and R = R]

lemma run_related: "client_run exec pre spec R s x tr s' x' \<Longrightarrow> R s x \<Longrightarrow> R s' x'"
  by (induction rule: client_run.induct) auto

text \<open>A client never gets stuck: the next permitted call is defined and meets its specification.\<close>

lemma run_continues:
  assumes "client_run exec pre spec R s x tr s' x'" "R s x" "pre a x'"
  shows "\<exists>r s'' x''. exec a s' = Some (r, s'') \<and> client_run exec pre spec R s x (tr @ [(a, r)]) s'' x''"
  using sim [OF run_related [OF assms(1,2)] assms(3)] call [OF assms(1,3)] by blast

lemma run_abstract:
  assumes "client_run exec pre spec R s x tr s' x'" "P x"
    and "\<And>a y r y'. P y \<Longrightarrow> pre a y \<Longrightarrow> spec a y r y' \<Longrightarrow> P y'"
  shows "P x'"
  using assms by (induction rule: client_run.induct) auto

end

sublocale refinement \<subseteq> det: simulation exec "\<lambda>s x. inv s \<and> x = abst s" "\<lambda>_ _. True"
    "\<lambda>a x r x'. (r, x') = spec a x"
  by unfold_locales (use step in blast)

section \<open>The newest record of a log\<close>

fun newest :: "('w \<Rightarrow> 'a option) \<Rightarrow> 'w list \<Rightarrow> 'a option" where
  "newest f [] = None"
| "newest f (w # ws) = (case newest f ws of Some x \<Rightarrow> Some x | None \<Rightarrow> f w)"

lemma newest_append: "newest f (us @ ws) = (case newest f ws of Some x \<Rightarrow> Some x | None \<Rightarrow> newest f us)"
  by (induction us) (auto split: option.splits)

lemma newest_none: "\<forall>w \<in> set ws. f w = None \<Longrightarrow> newest f ws = None"
  by (induction ws) auto

lemma newest_skip: "\<forall>w \<in> set ws. f w = None \<Longrightarrow> newest f (us @ ws) = newest f us"
  by (simp add: newest_append newest_none)

end
