(* ===== verification/Bond_Priority.thy ===== *)
theory Bond_Priority
  imports Prelude
begin

text \<open>
  The priority queue of bonded devices, \<open>src/ble_mgr/bond/bt_bond_priority.c\<close>: for each
  transport (LE and BR/EDR) the indices of the bonded devices, least recently used first.
  The two queues are fields of the control block \<open>p_bt_bond_cb\<close>; \<open>cb_alloc\<close> says whether that
  pointer is set. Every change is written to flash; the writes are recorded in \<open>ftl_log\<close> in the
  order the code issues them, and \<open>last_saved\<close> reads the newest one.

  The abstract view is the least-recently-used list \<open>lru_spec\<close>; the locale \<open>lru_queue\<close> is the
  contract the clients of the queue rely on, interpreted here for each transport.
  Both transports are compiled in (\<open>F_BT_LE_SUPPORT\<close> and \<open>F_BT_BREDR_SUPPORT\<close> are 1).
\<close>

section \<open>Data\<close>

datatype dev_type = LEGACY_BT_DEV | LE_BT_DEV

record bond_priority =
  bond_num :: u8
  bond_idx :: "u8 list"  \<comment> \<open>\<open>uint8_t bond_idx[19]\<close>\<close>

record otp_bond_cfg =
  gap_bond_manager :: bool
  gatt_cccd_storage :: bool
  max_le_paired_device :: u8
  max_legacy_paired_device :: u8
  bredr_ext_info_storage :: bool
  use_gatts_client_supported_features :: bool

text \<open>\<open>T_BT_BOND_INFO\<close>, 20 bytes.\<close>

record bond_info =
  bond_state :: u8
  key_type :: u8
  remote_bd_type :: u8
  local_bd_type :: u8
  remote_bd :: "u8 list"
  local_bd :: "u8 list"
  bond_flag :: u32

text \<open>The records the bond storage writes to flash, with the place they go to.\<close>

datatype ftl_write =
    WPriority dev_type bond_priority
  | WRemoteBd u8 bond_info
  | WLinkKey u8 "u8 list"
  | WCccd dev_type u8
  | WClientFeatures dev_type u8

record bond_cb =
  cb_alloc :: bool
  otp_cfg :: otp_bond_cfg
  common_le_start :: u16     \<comment> \<open>\<open>bond_ftl_cb.bt_common_fs_le_start_offset\<close>\<close>
  common_bredr_start :: u16  \<comment> \<open>\<open>bond_ftl_cb.bt_common_fs_bredr_start_offset\<close>\<close>
  bt_le_bond_sort :: bond_priority
  bt_legacy_bond_sort :: bond_priority
  ftl_log :: "ftl_write list"

definition sort_of :: "dev_type \<Rightarrow> 'a bond_cb_scheme \<Rightarrow> bond_priority" where
  "sort_of t cb = (case t of LE_BT_DEV \<Rightarrow> bt_le_bond_sort cb | LEGACY_BT_DEV \<Rightarrow> bt_legacy_bond_sort cb)"

definition set_sort :: "dev_type \<Rightarrow> bond_priority \<Rightarrow> 'a bond_cb_scheme \<Rightarrow> 'a bond_cb_scheme" where
  "set_sort t p cb = (case t of LE_BT_DEV \<Rightarrow> cb\<lparr>bt_le_bond_sort := p\<rparr>
                      | LEGACY_BT_DEV \<Rightarrow> cb\<lparr>bt_legacy_bond_sort := p\<rparr>)"

definition max_paired :: "dev_type \<Rightarrow> 'a bond_cb_scheme \<Rightarrow> u8" where
  "max_paired t cb = (case t of LE_BT_DEV \<Rightarrow> max_le_paired_device (otp_cfg cb)
                      | LEGACY_BT_DEV \<Rightarrow> max_legacy_paired_device (otp_cfg cb))"

definition ftl_put :: "ftl_write \<Rightarrow> 'a bond_cb_scheme \<Rightarrow> 'a bond_cb_scheme" where
  "ftl_put w cb = cb\<lparr>ftl_log := ftl_log cb @ [w]\<rparr>"

definition ftl_save_bond_priority :: "dev_type \<Rightarrow> bond_priority \<Rightarrow> 'a bond_cb_scheme \<Rightarrow> 'a bond_cb_scheme" where
  "ftl_save_bond_priority t p cb = ftl_put (WPriority t p) cb"

text \<open>
  \<open>ftl_load_bond_priority\<close> through \<open>imp_ftl_load\<close>: \<open>load\<close> is what the flash driver returns,
  \<open>None\<close> for an error, in which case the code clears the destination.
\<close>

definition ftl_load_bond_priority :: "bond_priority option \<Rightarrow> nat \<times> bond_priority" where
  "ftl_load_bond_priority load =
     (case load of Some d \<Rightarrow> (0, d)
      | None \<Rightarrow> (1, \<lparr>bond_num = 0, bond_idx = replicate 19 0\<rparr>))"

section \<open>Operations\<close>

definition bt_bond_priority_queue_init ::
    "dev_type \<Rightarrow> u8 \<Rightarrow> bond_priority option \<Rightarrow> 'a bond_cb_scheme \<Rightarrow> bool \<times> 'a bond_cb_scheme" where
  "bt_bond_priority_queue_init t max_bond_num load cb =
     (if \<not> cb_alloc cb then (False, cb)
      else let (err, d) = ftl_load_bond_priority load;
               cb1 = set_sort t d cb
           in if err = 0 \<and> bond_num d > 19 then (False, set_sort t (d\<lparr>bond_num := 0\<rparr>) cb1)
              else (True, cb1))"

definition bt_bond_priority_sort_get :: "dev_type \<Rightarrow> 'a bond_cb_scheme \<Rightarrow> bond_priority option" where
  "bt_bond_priority_sort_get t cb =
     (if cb_alloc cb \<and> bond_num (sort_of t cb) \<noteq> 0 then Some (sort_of t cb) else None)"

definition bt_bond_priority_queue_clear :: "dev_type \<Rightarrow> 'a bond_cb_scheme \<Rightarrow> 'a bond_cb_scheme" where
  "bt_bond_priority_queue_clear t cb =
     (case bt_bond_priority_sort_get t cb of
        None \<Rightarrow> cb
      | Some p \<Rightarrow> let p' = p\<lparr>bond_num := 0\<rparr> in ftl_save_bond_priority t p' (set_sort t p' cb))"

function find_loop :: "nat \<Rightarrow> nat \<Rightarrow> u8 list \<Rightarrow> u8 \<Rightarrow> u8 option" where
  "find_loop i n xs idx =
     (if i < n then do {
        v \<leftarrow> arr_get xs i;
        if v = idx then Some (of_nat i) else find_loop (Suc i) n xs idx
      } else Some 0xff)"
  by pat_completeness auto
termination
  by (relation "measure (\<lambda>(i, n, xs, idx). n - i)") auto

declare find_loop.simps [simp del]

definition bt_bond_priority_queue_find :: "dev_type \<Rightarrow> u8 \<Rightarrow> 'a bond_cb_scheme \<Rightarrow> u8 option" where
  "bt_bond_priority_queue_find t idx cb =
     (case bt_bond_priority_sort_get t cb of
        None \<Rightarrow> Some 0xff
      | Some p \<Rightarrow> find_loop 0 (unat (bond_num p)) (bond_idx p) idx)"

definition bt_bond_priority_queue_delete ::
    "dev_type \<Rightarrow> u8 \<Rightarrow> 'a bond_cb_scheme \<Rightarrow> (bool \<times> 'a bond_cb_scheme) option" where
  "bt_bond_priority_queue_delete t idx cb =
     (case bt_bond_priority_sort_get t cb of
        None \<Rightarrow> Some (False, cb)
      | Some p \<Rightarrow> do {
          result \<leftarrow> bt_bond_priority_queue_find t idx cb;
          if result \<noteq> 0xff then do {
            xs \<leftarrow> shift_down (unat result) (unat (bond_num p)) (bond_idx p);
            let p' = \<lparr>bond_num = bond_num p - 1, bond_idx = xs\<rparr>;
            Some (True, ftl_save_bond_priority t p' (set_sort t p' cb))
          } else Some (False, cb)
        })"

definition bt_bond_set_high_priority ::
    "dev_type \<Rightarrow> u8 \<Rightarrow> 'a bond_cb_scheme \<Rightarrow> (bool \<times> 'a bond_cb_scheme) option" where
  "bt_bond_set_high_priority t idx cb =
     (case bt_bond_priority_sort_get t cb of
        None \<Rightarrow> Some (False, cb)
      | Some p \<Rightarrow> do {
          result \<leftarrow> bt_bond_priority_queue_find t idx cb;
          if result \<noteq> 0xff then
            if result = bond_num p - 1 then Some (True, cb)
            else do {
              xs \<leftarrow> shift_down (unat result) (unat (bond_num p)) (bond_idx p);
              ys \<leftarrow> arr_set xs (unat (bond_num p - 1)) idx;
              let p' = p\<lparr>bond_idx := ys\<rparr>;
              Some (True, ftl_save_bond_priority t p' (set_sort t p' cb))
            }
          else Some (False, cb)
        })"

definition bt_bond_priority_queue_add ::
    "dev_type \<Rightarrow> u8 \<Rightarrow> 'a bond_cb_scheme \<Rightarrow> (bool \<times> 'a bond_cb_scheme) option" where
  "bt_bond_priority_queue_add t idx cb =
     (if \<not> cb_alloc cb then None
      else do {
        let p = sort_of t cb;
        result \<leftarrow> bt_bond_priority_queue_find t idx cb;
        if result \<noteq> 0xff then bt_bond_set_high_priority t idx cb
        else if bond_num p = max_paired t cb then Some (False, cb)
        else do {
          xs \<leftarrow> arr_set (bond_idx p) (unat (bond_num p)) idx;
          let p' = \<lparr>bond_num = bond_num p + 1, bond_idx = xs\<rparr>;
          Some (True, ftl_save_bond_priority t p' (set_sort t p' cb))
        }
      })"

definition bt_bond_get_low_priority :: "dev_type \<Rightarrow> 'a bond_cb_scheme \<Rightarrow> u8 option" where
  "bt_bond_get_low_priority t cb =
     (case bt_bond_priority_sort_get t cb of None \<Rightarrow> Some 0xff | Some p \<Rightarrow> arr_get (bond_idx p) 0)"

definition bt_bond_get_index_by_priority :: "dev_type \<Rightarrow> u8 \<Rightarrow> 'a bond_cb_scheme \<Rightarrow> u8 option" where
  "bt_bond_get_index_by_priority t priority cb =
     (case bt_bond_priority_sort_get t cb of
        None \<Rightarrow> Some 0xff
      | Some p \<Rightarrow>
          if bond_num p < priority \<or> priority = 0 then Some 0xff
          else arr_get (bond_idx p) (unat (bond_num p - priority)))"

section \<open>Abstract view: a bounded least-recently-used list\<close>

datatype 'a lru_op = Add 'a | Promote 'a | Delete 'a | Clear

fun lru_spec :: "nat \<Rightarrow> 'a lru_op \<Rightarrow> 'a list \<Rightarrow> 'a list" where
  "lru_spec n (Add x) q =
     (if x \<in> set q then remove1 x q @ [x] else if length q < n then q @ [x] else q)"
| "lru_spec n (Promote x) q = (if x \<in> set q then remove1 x q @ [x] else q)"
| "lru_spec n (Delete x) q = remove1 x q"
| "lru_spec n Clear q = []"

text \<open>What the operation returns (\<open>queue_clear\<close> returns nothing, which is \<open>True\<close> here).\<close>

fun lru_ret :: "nat \<Rightarrow> 'a lru_op \<Rightarrow> 'a list \<Rightarrow> bool" where
  "lru_ret n (Add x) q \<longleftrightarrow> x \<in> set q \<or> length q < n"
| "lru_ret n (Promote x) q \<longleftrightarrow> x \<in> set q"
| "lru_ret n (Delete x) q \<longleftrightarrow> x \<in> set q"
| "lru_ret n Clear q \<longleftrightarrow> True"

fun exec_all :: "('o \<Rightarrow> 's \<Rightarrow> (bool \<times> 's) option) \<Rightarrow> 'o list \<Rightarrow> 's \<Rightarrow> 's option" where
  "exec_all ex [] s = Some s"
| "exec_all ex (a # as) s = do { (_, s') \<leftarrow> ex a s; exec_all ex as s' }"

lemma lru_spec_distinct: "distinct q \<Longrightarrow> distinct (lru_spec n a q)"
  by (cases a) (auto simp: set_remove1_distinct)

lemma lru_spec_length: "distinct q \<Longrightarrow> length q \<le> n \<Longrightarrow> length (lru_spec n a q) \<le> n"
  using length_remove1_mem by (cases a) (force simp: length_remove1)+

locale lru_queue =
  fixes exec :: "'a lru_op \<Rightarrow> 's \<Rightarrow> (bool \<times> 's) option"
    and order :: "'s \<Rightarrow> 'a list"
    and cap :: "'s \<Rightarrow> nat"
    and ok :: "'s \<Rightarrow> bool"
  assumes ok_distinct: "ok s \<Longrightarrow> distinct (order s)"
    and ok_bound: "ok s \<Longrightarrow> length (order s) \<le> cap s"
    and exec_refines: "ok s \<Longrightarrow> \<exists>s'. exec a s = Some (lru_ret (cap s) a (order s), s')
          \<and> ok s' \<and> cap s' = cap s \<and> order s' = lru_spec (cap s) a (order s)"
begin

lemma exec_all_refines:
  "ok s \<Longrightarrow> \<exists>s'. exec_all exec as s = Some s' \<and> ok s' \<and> cap s' = cap s
      \<and> order s' = fold (lru_spec (cap s)) as (order s)"
proof (induction as arbitrary: s)
  case Nil
  then show ?case by simp
next
  case (Cons a as)
  obtain s1 where s1: "exec a s = Some (lru_ret (cap s) a (order s), s1)" "ok s1"
      "cap s1 = cap s" "order s1 = lru_spec (cap s) a (order s)"
    using exec_refines [OF Cons.prems, of a] by blast
  show ?case using Cons.IH [OF s1(2)] s1 by simp
qed

lemma add_last: "ok s \<Longrightarrow> exec (Add x) s = Some (True, s') \<Longrightarrow> order s' \<noteq> [] \<and> last (order s') = x"
  using exec_refines [of s "Add x"] by (auto split: if_splits)

lemma delete_gone: "ok s \<Longrightarrow> exec (Delete x) s = Some (b, s') \<Longrightarrow> x \<notin> set (order s')"
  using exec_refines [of s "Delete x"] ok_distinct by auto

end

section \<open>Projections of the control block\<close>

lemma sort_of_set_sort [simp]: "sort_of t (set_sort t' p cb) = (if t = t' then p else sort_of t cb)"
  by (cases t; cases t') (simp_all add: sort_of_def set_sort_def)

lemma set_sort_frame [simp]:
  "cb_alloc (set_sort t p cb) = cb_alloc cb" "otp_cfg (set_sort t p cb) = otp_cfg cb"
  "ftl_log (set_sort t p cb) = ftl_log cb" "max_paired t' (set_sort t p cb) = max_paired t' cb"
  by (cases t; cases t'; simp add: set_sort_def max_paired_def)+

lemma set_sort_set_sort [simp]:
  "set_sort t p (set_sort t q cb) = set_sort t p cb" "set_sort t (sort_of t cb) cb = cb"
  by (cases t; simp add: set_sort_def sort_of_def)+

lemma ftl_put_frame [simp]:
  "cb_alloc (ftl_put w cb) = cb_alloc cb" "otp_cfg (ftl_put w cb) = otp_cfg cb"
  "ftl_log (ftl_put w cb) = ftl_log cb @ [w]" "max_paired t' (ftl_put w cb) = max_paired t' cb"
  "sort_of t' (ftl_put w cb) = sort_of t' cb"
  by (cases t'; simp add: ftl_put_def max_paired_def sort_of_def)+

section \<open>Invariant and functional behaviour\<close>

definition prio_list :: "bond_priority \<Rightarrow> u8 list" where
  "prio_list p = take (unat (bond_num p)) (bond_idx p)"

text \<open>
  A well-formed queue holds at most 18 entries: with 19 the shifting loops read
  \<open>bond_idx[19]\<close>, past the array (see \<open>queue_delete_full\<close>).
\<close>

definition prio_ok :: "bond_priority \<Rightarrow> bool" where
  "prio_ok p \<longleftrightarrow> length (bond_idx p) = 19 \<and> unat (bond_num p) \<le> 18 \<and> distinct (prio_list p)"

definition queue_ok :: "dev_type \<Rightarrow> 'a bond_cb_scheme \<Rightarrow> bool" where
  "queue_ok t cb \<longleftrightarrow> cb_alloc cb \<and> prio_ok (sort_of t cb)
     \<and> bond_num (sort_of t cb) \<le> max_paired t cb \<and> max_paired t cb \<le> 18"

definition bond_order :: "dev_type \<Rightarrow> 'a bond_cb_scheme \<Rightarrow> u8 list" where
  "bond_order t cb = prio_list (sort_of t cb)"

lemma length_prio_list: "prio_ok p \<Longrightarrow> length (prio_list p) = unat (bond_num p)"
  by (simp add: prio_ok_def prio_list_def)

lemma find_loop_eq:
  assumes "n \<le> length xs" "i \<le> n"
  shows "find_loop i n xs idx =
    Some (case first_index (\<lambda>v. v = idx) (drop i (take n xs)) of None \<Rightarrow> 0xff | Some k \<Rightarrow> of_nat (i + k))"
  using assms
proof (induction i n xs idx rule: find_loop.induct)
  case (1 i n xs idx)
  show ?case
  proof (cases "i < n")
    case False
    then show ?thesis using "1.prems" by (subst find_loop.simps) simp
  next
    case True
    have dr: "drop i (take n xs) = xs ! i # drop (Suc i) (take n xs)"
      using True "1.prems" by (metis Cons_nth_drop_Suc length_take min.absorb2 nth_take)
    show ?thesis
      using "1.IH" [OF True, of "xs ! i"] True "1.prems"
      by (subst find_loop.simps) (auto simp: arr_simps dr split: option.splits)
  qed
qed

lemma sort_get_ok:
  "queue_ok t cb \<Longrightarrow> bt_bond_priority_sort_get t cb =
     (if bond_order t cb = [] then None else Some (sort_of t cb))"
  by (auto simp: bt_bond_priority_sort_get_def bond_order_def prio_list_def queue_ok_def prio_ok_def
      unsigned_eq_0_iff)

lemma find_absent:
  assumes "queue_ok t cb" "x \<notin> set (bond_order t cb)"
  shows "bt_bond_priority_queue_find t x cb = Some 0xff"
proof -
  have "first_index (\<lambda>v. v = x) (bond_order t cb) = None"
    using assms(2) by (auto simp: first_index_None)
  then show ?thesis using assms(1)
    by (simp add: bt_bond_priority_queue_find_def sort_get_ok find_loop_eq queue_ok_def prio_ok_def
        bond_order_def prio_list_def)
qed

lemma find_present:
  assumes "queue_ok t cb" "x \<in> set (bond_order t cb)"
  obtains i where "i < length (bond_order t cb)" "bond_order t cb ! i = x" "i < 18"
    "bt_bond_priority_queue_find t x cb = Some (of_nat i)"
    "unat (of_nat i :: u8) = i" "(of_nat i :: u8) \<noteq> 0xff"
proof -
  let ?q = "bond_order t cb"
  obtain i where i: "first_index (\<lambda>v. v = x) ?q = Some i"
    using assms(2) first_index_None [of "\<lambda>v. v = x" ?q] by (cases "first_index (\<lambda>v. v = x) ?q") auto
  then have lt: "i < length ?q" "?q ! i = x" by (auto simp: first_index_Some)
  have len: "length ?q \<le> 18"
    using assms(1) by (simp add: queue_ok_def bond_order_def length_prio_list) (simp add: prio_ok_def)
  then have u: "unat (of_nat i :: u8) = i" using lt by (simp add: unat_of_nat)
  then have ne: "(of_nat i :: u8) \<noteq> 0xff" using lt len by auto
  have "?q \<noteq> []" using lt by auto
  then have "bt_bond_priority_queue_find t x cb = Some (of_nat i)"
    using assms(1) i
    by (simp add: bt_bond_priority_queue_find_def sort_get_ok find_loop_eq queue_ok_def prio_ok_def
        bond_order_def prio_list_def)
  then show thesis using that [of i] lt len u ne by simp
qed

text \<open>The code's outcome of each operation on a well-formed queue.\<close>

lemma queue_ok_facts:
  assumes "queue_ok t cb"
  shows "cb_alloc cb" "length (bond_idx (sort_of t cb)) = 19"
    "length (bond_order t cb) = unat (bond_num (sort_of t cb))"
    "unat (bond_num (sort_of t cb)) \<le> unat (max_paired t cb)" "unat (max_paired t cb) \<le> 18"
    "distinct (bond_order t cb)"
proof -
  show "cb_alloc cb" "length (bond_idx (sort_of t cb)) = 19"
    "length (bond_order t cb) = unat (bond_num (sort_of t cb))"
    "unat (bond_num (sort_of t cb)) \<le> unat (max_paired t cb)" "distinct (bond_order t cb)"
    using assms by (simp_all add: queue_ok_def prio_ok_def bond_order_def prio_list_def
        word_le_nat_alt)
  have "unat (max_paired t cb) \<le> unat (18 :: u8)"
    using assms by (simp add: queue_ok_def word_le_nat_alt del: unat_numeral)
  then show "unat (max_paired t cb) \<le> 18" by simp
qed

lemma queue_ok_update:
  assumes "queue_ok t cb" "length xs = 19" "unat n \<le> unat (max_paired t cb)"
    "distinct (take (unat n) xs)"
  shows "queue_ok t (ftl_save_bond_priority t' \<lparr>bond_num = n, bond_idx = xs\<rparr>
           (set_sort t \<lparr>bond_num = n, bond_idx = xs\<rparr> cb))"
  using assms queue_ok_facts(5) [OF assms(1)]
  by (simp add: queue_ok_def prio_ok_def prio_list_def ftl_save_bond_priority_def word_le_nat_alt)

lemma pred_u8: "n \<noteq> 0 \<Longrightarrow> unat (n - 1 :: u8) = unat n - 1"
  by (simp add: unat_minus_one)

lemma shift_result:
  assumes "queue_ok t cb" "i < length (bond_order t cb)"
  defines "n \<equiv> unat (bond_num (sort_of t cb))" and "xs \<equiv> bond_idx (sort_of t cb)"
  obtains ys where "shift_down i n xs = Some ys" "length ys = 19"
    "take (n - 1) ys = remove1 (bond_order t cb ! i) (bond_order t cb)"
    "\<And>x. take n (ys[n - 1 := x]) = remove1 (bond_order t cb ! i) (bond_order t cb) @ [x]"
proof -
  note f = queue_ok_facts [OF assms(1)]
  have q: "bond_order t cb = take n xs" by (simp add: bond_order_def prio_list_def n_def xs_def)
  have b: "i < n" "n < length xs" using assms(2) f by (simp_all add: n_def xs_def)
  let ?ys = "take i xs @ take (n - i) (drop (Suc i) xs) @ drop n xs"
  have rm: "remove1 (take n xs ! i) (take n xs) = take i xs @ drop (Suc i) (take n xs)"
    using remove1_split [of "take n xs" i] b f(6) by (simp add: q min_def)
  show thesis
  proof (rule that [of ?ys])
    show "shift_down i n xs = Some ?ys" using b by (simp add: shift_down_eq)
    show "length ?ys = 19" using b f(2) by (simp add: xs_def)
    show "take (n - 1) ?ys = remove1 (bond_order t cb ! i) (bond_order t cb)"
      using shifted_take [OF b] by (simp only: q rm)
    show "take n (?ys[n - 1 := x]) = remove1 (bond_order t cb ! i) (bond_order t cb) @ [x]" for x
      using shifted_take_set [OF b, of x] by (simp only: q rm append_assoc)
  qed
qed

lemma delete_refines:
  assumes "queue_ok t cb"
  shows "\<exists>cb'. bt_bond_priority_queue_delete t x cb = Some (x \<in> set (bond_order t cb), cb')
     \<and> queue_ok t cb' \<and> max_paired t cb' = max_paired t cb
     \<and> bond_order t cb' = remove1 x (bond_order t cb)"
proof (cases "x \<in> set (bond_order t cb)")
  case False
  then show ?thesis using assms
    by (auto simp: bt_bond_priority_queue_delete_def sort_get_ok find_absent remove1_idem)
next
  case True
  obtain i where i: "i < length (bond_order t cb)" "bond_order t cb ! i = x"
      "bt_bond_priority_queue_find t x cb = Some (of_nat i)"
      "unat (of_nat i :: u8) = i" "(of_nat i :: u8) \<noteq> 0xff"
    using find_present [OF assms True] by blast
  define n where "n = bond_num (sort_of t cb)"
  note f = queue_ok_facts [OF assms]
  have n0: "n \<noteq> 0" using i(1) f(3) by (auto simp: n_def)
  obtain ys where ys: "shift_down i (unat n) (bond_idx (sort_of t cb)) = Some ys" "length ys = 19"
      "take (unat n - 1) ys = remove1 x (bond_order t cb)"
    using shift_result [OF assms i(1)] i(2) by (metis n_def)
  let ?p = "\<lparr>bond_num = n - 1, bond_idx = ys\<rparr>"
  let ?cb = "ftl_save_bond_priority t ?p (set_sort t ?p cb)"
  have d: "distinct (remove1 x (bond_order t cb))" using f(6) by (rule distinct_remove1)
  have ok: "queue_ok t ?cb"
    using assms f(4) d ys n0 by (intro queue_ok_update) (simp_all add: n_def pred_u8)
  have "bond_order t ?cb = remove1 x (bond_order t cb)"
    using ys n0 by (simp add: bond_order_def prio_list_def ftl_save_bond_priority_def pred_u8)
  moreover have "bt_bond_priority_queue_delete t x cb = Some (True, ?cb)"
    using True assms i ys
    by (auto simp: bt_bond_priority_queue_delete_def sort_get_ok n_def Let_def)
  ultimately show ?thesis using True ok by (auto simp: ftl_save_bond_priority_def)
qed


lemma prio_upd:
  "(p :: bond_priority)\<lparr>bond_idx := xs\<rparr> = \<lparr>bond_num = bond_num p, bond_idx = xs\<rparr>"
  "(p :: bond_priority)\<lparr>bond_num := n\<rparr> = \<lparr>bond_num = n, bond_idx = bond_idx p\<rparr>"
  by (cases p, simp)+

lemma promote_refines:
  assumes "queue_ok t cb"
  shows "\<exists>cb'. bt_bond_set_high_priority t x cb = Some (x \<in> set (bond_order t cb), cb')
     \<and> queue_ok t cb' \<and> max_paired t cb' = max_paired t cb
     \<and> bond_order t cb' = lru_spec m (Promote x) (bond_order t cb)"
proof (cases "x \<in> set (bond_order t cb)")
  case False
  then show ?thesis using assms
    by (auto simp: bt_bond_set_high_priority_def sort_get_ok find_absent)
next
  case True
  obtain i where i: "i < length (bond_order t cb)" "bond_order t cb ! i = x"
      "bt_bond_priority_queue_find t x cb = Some (of_nat i)"
      "unat (of_nat i :: u8) = i" "(of_nat i :: u8) \<noteq> 0xff"
    using find_present [OF assms True] by blast
  define n where "n = bond_num (sort_of t cb)"
  note f = queue_ok_facts [OF assms]
  have n0: "n \<noteq> 0" using i(1) f(3) by (auto simp: n_def)
  show ?thesis
  proof (cases "(of_nat i :: u8) = n - 1")
    case top: True
    then have il: "i = length (bond_order t cb) - 1"
      using i(4) n0 f(3) by (metis n_def pred_u8)
    have ne: "bond_order t cb \<noteq> []" using i(1) by auto
    have "x = last (bond_order t cb)" using i(2) il ne by (simp add: last_conv_nth)
    then have "remove1 x (bond_order t cb) @ [x] = bond_order t cb"
      using ne f(6) by (metis append_butlast_last_id distinct_butlast not_distinct_conv_prefix
          remove1_append remove1.simps(2) append_Nil2)
    moreover have "bt_bond_set_high_priority t x cb = Some (True, cb)"
      using i(3,5) top assms ne
      by (simp add: bt_bond_set_high_priority_def sort_get_ok n_def)
    ultimately show ?thesis using True assms by auto
  next
    case False
    obtain ys where ys: "shift_down i (unat n) (bond_idx (sort_of t cb)) = Some ys" "length ys = 19"
        "\<And>y. take (unat n) (ys[unat n - 1 := y]) = remove1 x (bond_order t cb) @ [y]"
      using shift_result [OF assms i(1)] i(2) by (metis n_def)
    let ?zs = "ys[unat n - 1 := x]"
    let ?p = "\<lparr>bond_num = n, bond_idx = ?zs\<rparr>"
    let ?cb = "ftl_save_bond_priority t ?p (set_sort t ?p cb)"
    have set: "arr_set ys (unat (n - 1)) x = Some ?zs"
      using ys(2) n0 f(4,5) by (simp add: arr_simps pred_u8 n_def)
    have d: "distinct (remove1 x (bond_order t cb) @ [x])"
      using f(6) by (simp add: set_remove1_distinct distinct_remove1)
    have ok: "queue_ok t ?cb"
      using assms f(4) d ys by (intro queue_ok_update) (simp_all add: n_def)
    have "bond_order t ?cb = remove1 x (bond_order t cb) @ [x]"
      using ys by (simp add: bond_order_def prio_list_def ftl_save_bond_priority_def)
    moreover have "bt_bond_set_high_priority t x cb = Some (True, ?cb)"
      using True False assms i ys set
      by (auto simp: bt_bond_set_high_priority_def sort_get_ok n_def Let_def prio_upd)
    ultimately show ?thesis using True ok by (auto simp: ftl_save_bond_priority_def)
  qed
qed

lemma add_refines:
  assumes "queue_ok t cb"
  defines "m \<equiv> unat (max_paired t cb)"
  shows "\<exists>cb'. bt_bond_priority_queue_add t x cb = Some (lru_ret m (Add x) (bond_order t cb), cb')
     \<and> queue_ok t cb' \<and> max_paired t cb' = max_paired t cb
     \<and> bond_order t cb' = lru_spec m (Add x) (bond_order t cb)"
proof -
  note f = queue_ok_facts [OF assms(1)]
  define n where "n = bond_num (sort_of t cb)"
  define xs where "xs = bond_idx (sort_of t cb)"
  have full: "n = max_paired t cb \<longleftrightarrow> \<not> length (bond_order t cb) < m"
    using f(3,4) unfolding n_def m_def word_unat_eq_iff by linarith
  consider (old) "x \<in> set (bond_order t cb)"
    | (full) "x \<notin> set (bond_order t cb)" "n = max_paired t cb"
    | (new) "x \<notin> set (bond_order t cb)" "n \<noteq> max_paired t cb" by blast
  then show ?thesis
  proof cases
    case old
    obtain i where "bt_bond_priority_queue_find t x cb = Some (of_nat i)" "(of_nat i :: u8) \<noteq> 0xff"
      using find_present [OF assms(1) old] by blast
    then have "bt_bond_priority_queue_add t x cb = bt_bond_set_high_priority t x cb"
      using f(1) by (simp add: bt_bond_priority_queue_add_def)
    then show ?thesis using promote_refines [OF assms(1), of x m] old by auto
  next
    case full
    then show ?thesis using assms(1) f(1) \<open>n = max_paired t cb \<longleftrightarrow> \<not> length (bond_order t cb) < m\<close>
      by (simp add: bt_bond_priority_queue_add_def find_absent n_def)
  next
    case new
    have lt: "unat n < 18" using f new full unfolding n_def m_def by linarith
    let ?ys = "xs[unat n := x]"
    let ?p = "\<lparr>bond_num = n + 1, bond_idx = ?ys\<rparr>"
    let ?cb = "ftl_save_bond_priority t ?p (set_sort t ?p cb)"
    have suc: "unat (n + 1) = Suc (unat n)" using lt by (simp add: unat_word_ariths)
    have tk: "take (unat (n + 1)) ?ys = bond_order t cb @ [x]"
      using lt f(2) suc unfolding n_def xs_def bond_order_def prio_list_def
      by (simp add: take_Suc_conv_app_nth)
    have le: "unat (n + 1) \<le> unat (max_paired t cb)"
    proof -
      have "length (bond_order t cb) < m" using new(2) full by simp
      then show ?thesis using suc f(3) unfolding n_def m_def by linarith
    qed
    have "queue_ok t ?cb"
      using assms(1) f new le tk
      by (intro queue_ok_update) (simp_all add: xs_def n_def m_def)
    moreover have "bond_order t ?cb = bond_order t cb @ [x]"
      using tk by (simp add: bond_order_def prio_list_def ftl_save_bond_priority_def)
    moreover have "bt_bond_priority_queue_add t x cb = Some (True, ?cb)"
      using new assms(1) f(1,2) lt
      by (simp add: bt_bond_priority_queue_add_def find_absent n_def xs_def arr_simps Let_def)
    ultimately show ?thesis using new full by (auto simp: ftl_save_bond_priority_def)
  qed
qed

lemma clear_refines:
  assumes "queue_ok t cb"
  shows "queue_ok t (bt_bond_priority_queue_clear t cb)
    \<and> max_paired t (bt_bond_priority_queue_clear t cb) = max_paired t cb
    \<and> bond_order t (bt_bond_priority_queue_clear t cb) = []"
proof (cases "bond_order t cb = []")
  case True
  then show ?thesis using assms by (simp add: bt_bond_priority_queue_clear_def sort_get_ok)
next
  case False
  then show ?thesis
    using False assms queue_ok_facts [OF assms] queue_ok_update [OF assms, of "bond_idx (sort_of t cb)" 0 t]
    by (simp add: bt_bond_priority_queue_clear_def sort_get_ok Let_def bond_order_def prio_list_def
        ftl_save_bond_priority_def prio_upd)
qed

section \<open>The queue implements the contract\<close>

fun bond_exec :: "dev_type \<Rightarrow> u8 lru_op \<Rightarrow> bond_cb \<Rightarrow> (bool \<times> bond_cb) option" where
  "bond_exec t (Add x) cb = bt_bond_priority_queue_add t x cb"
| "bond_exec t (Promote x) cb = bt_bond_set_high_priority t x cb"
| "bond_exec t (Delete x) cb = bt_bond_priority_queue_delete t x cb"
| "bond_exec t Clear cb = Some (True, bt_bond_priority_queue_clear t cb)"

lemma bond_exec_refines:
  assumes "queue_ok t cb"
  defines "m \<equiv> unat (max_paired t cb)"
  shows "\<exists>cb'. bond_exec t a cb = Some (lru_ret m a (bond_order t cb), cb')
     \<and> queue_ok t cb' \<and> unat (max_paired t cb') = m
     \<and> bond_order t cb' = lru_spec m a (bond_order t cb)"
proof (cases a)
  case (Add x)
  then show ?thesis using add_refines [OF assms(1), of x] by (auto simp: m_def)
next
  case (Promote x)
  then show ?thesis using promote_refines [OF assms(1), of x m] by (auto simp: m_def)
next
  case (Delete x)
  then show ?thesis using delete_refines [OF assms(1), of x] by (auto simp: m_def)
next
  case Clear
  then show ?thesis using clear_refines [OF assms(1)] by (auto simp: m_def)
qed

interpretation bond: lru_queue "bond_exec t" "bond_order t" "\<lambda>cb. unat (max_paired t cb)" "queue_ok t"
  for t
proof unfold_locales
  fix cb :: bond_cb
  assume ok: "queue_ok t cb"
  show "distinct (bond_order t cb)" "length (bond_order t cb) \<le> unat (max_paired t cb)"
    using queue_ok_facts [OF ok] by simp_all
  show "\<exists>s'. bond_exec t a cb =
          Some (lru_ret (unat (max_paired t cb)) a (bond_order t cb), s') \<and> queue_ok t s' \<and>
          unat (max_paired t s') = unat (max_paired t cb) \<and>
          bond_order t s' = lru_spec (unat (max_paired t cb)) a (bond_order t cb)" for a
    using bond_exec_refines [OF ok, of a] by simp
qed

section \<open>Reading the queue, and what is in flash\<close>

lemma index_by_priority:
  assumes "queue_ok t cb"
  shows "bt_bond_get_index_by_priority t k cb = Some
    (if k = 0 \<or> length (bond_order t cb) < unat k then 0xff
     else bond_order t cb ! (length (bond_order t cb) - unat k))"
proof -
  note f = queue_ok_facts [OF assms]
  define n where "n = bond_num (sort_of t cb)"
  show ?thesis
  proof (cases "k = 0 \<or> n < k")
    case True
    then show ?thesis using assms f
      by (auto simp: bt_bond_get_index_by_priority_def sort_get_ok n_def word_less_nat_alt)
  next
    case False
    then have k: "0 < unat k" "unat k \<le> unat n"
      by (auto simp: word_less_nat_alt unat_gt_0)
    then have "unat (n - k) = unat n - unat k" by (simp add: unat_sub word_le_nat_alt)
    moreover have "bond_order t cb \<noteq> []" using k f(3) by (auto simp: n_def)
    moreover have "bond_order t cb ! (unat n - unat k) = bond_idx (sort_of t cb) ! (unat n - unat k)"
      using k by (simp add: bond_order_def prio_list_def n_def)
    ultimately show ?thesis using False k assms f
      by (simp add: bt_bond_get_index_by_priority_def sort_get_ok n_def arr_simps)
  qed
qed

text \<open>The newest priority record written for a transport.\<close>

definition last_saved :: "dev_type \<Rightarrow> ftl_write list \<Rightarrow> bond_priority option" where
  "last_saved t = newest (\<lambda>w. case w of WPriority t' p \<Rightarrow> if t' = t then Some p else None | _ \<Rightarrow> None)"

lemma last_saved_snoc:
  "last_saved t (ws @ [w]) = (case w of WPriority t' p \<Rightarrow> if t' = t then Some p else last_saved t ws
     | _ \<Rightarrow> last_saved t ws)"
  by (auto simp: last_saved_def newest_append split: ftl_write.split)

definition synced :: "dev_type \<Rightarrow> 'a bond_cb_scheme \<Rightarrow> bool" where
  "synced t cb \<longleftrightarrow> last_saved t (ftl_log cb) = Some (sort_of t cb)"

lemma synced_save:
  "synced t' (ftl_save_bond_priority t p (set_sort t p cb)) \<longleftrightarrow> t' = t \<or> synced t' cb"
  by (auto simp: synced_def ftl_save_bond_priority_def last_saved_snoc)

lemma bond_exec_synced: "synced t' cb \<Longrightarrow> bond_exec t a cb = Some (b, cb') \<Longrightarrow> synced t' cb'"
  by (cases a)
    (auto simp: bt_bond_priority_queue_add_def bt_bond_set_high_priority_def Let_def
      bt_bond_priority_queue_delete_def bt_bond_priority_queue_clear_def synced_save
      split: option.splits if_splits bind_splits)

section \<open>Properties\<close>

definition demo_cfg :: otp_bond_cfg where
  "demo_cfg = \<lparr>gap_bond_manager = False, gatt_cccd_storage = True, max_le_paired_device = 4,
     max_legacy_paired_device = 3, bredr_ext_info_storage = True, use_gatts_client_supported_features = True\<rparr>"

definition demo_cb :: bond_cb where
  "demo_cb = \<lparr>cb_alloc = True, otp_cfg = demo_cfg, common_le_start = 0x100, common_bredr_start = 0x200,
     bt_le_bond_sort = \<lparr>bond_num = 0, bond_idx = replicate 19 0\<rparr>,
     bt_legacy_bond_sort = \<lparr>bond_num = 0, bond_idx = replicate 19 0\<rparr>,
     ftl_log = [WPriority LE_BT_DEV \<lparr>bond_num = 0, bond_idx = replicate 19 0\<rparr>,
       WPriority LEGACY_BT_DEV \<lparr>bond_num = 0, bond_idx = replicate 19 0\<rparr>]\<rparr>"

lemma demo_cb_ok: "queue_ok t demo_cb" "synced t demo_cb" "bond_order t demo_cb = []"
    "max_paired t demo_cb = (case t of LE_BT_DEV \<Rightarrow> 4 | LEGACY_BT_DEV \<Rightarrow> 3)"
  by (cases t; simp add: queue_ok_def prio_ok_def prio_list_def bond_order_def synced_def
      demo_cb_def demo_cfg_def sort_of_def max_paired_def last_saved_def word_le_nat_alt)+

text \<open>C14: whatever operations are performed, the queue of a transport is the least-recently-used
  list of the bonded indices, oldest first, and no operation leaves its array.\<close>

theorem bond_queue_run:
  assumes "queue_ok t cb"
  shows "\<exists>cb'. exec_all (bond_exec t) as cb = Some cb' \<and> queue_ok t cb'
     \<and> max_paired t cb' = max_paired t cb
     \<and> bond_order t cb' = fold (lru_spec (unat (max_paired t cb))) as (bond_order t cb)"
  using bond.exec_all_refines [OF assms, of "as"] by (auto simp: word_unat_eq_iff)

lemma bond_queue_run_witness:
  "queue_ok LE_BT_DEV demo_cb \<and> (\<exists>cb'. exec_all (bond_exec LE_BT_DEV)
      [Add 0, Add 1, Add 2, Promote 0, Add 3, Delete 1, Add 1] demo_cb = Some cb'
    \<and> bond_order LE_BT_DEV cb' = [2, 0, 3, 1])"
  using bond_queue_run [OF demo_cb_ok(1) [of LE_BT_DEV],
      of "[Add 0, Add 1, Add 2, Promote 0, Add 3, Delete 1, Add 1]"]
  by (auto simp: demo_cb_ok)

lemma exec_all_synced:
  "synced t' cb \<Longrightarrow> exec_all (bond_exec t) as cb = Some cb' \<Longrightarrow> synced t' cb'"
  by (induction "as" arbitrary: cb) (auto split: bind_splits dest: bond_exec_synced)

text \<open>C17: the queue survives a restart: loading the newest record in flash gives back the control
  block, whatever the memory of the queue holds before.\<close>

theorem bond_queue_reload:
  assumes "queue_ok t cb" "synced t cb" "exec_all (bond_exec t) as cb = Some cb'"
  shows "bt_bond_priority_queue_init t m (last_saved t (ftl_log cb')) (set_sort t junk cb') = (True, cb')"
proof -
  have ok: "queue_ok t cb'" using bond_queue_run [OF assms(1), of "as"] assms(3) by simp
  then have "\<not> 19 < bond_num (sort_of t cb')" "cb_alloc cb'"
    by (simp_all add: queue_ok_def prio_ok_def word_less_nat_alt)
  moreover have "last_saved t (ftl_log cb') = Some (sort_of t cb')"
    using exec_all_synced [OF assms(2,3)] by (simp add: synced_def)
  ultimately show ?thesis
    by (simp add: bt_bond_priority_queue_init_def ftl_load_bond_priority_def Let_def)
qed

lemma bond_queue_reload_witness:
  "\<exists>cb'. exec_all (bond_exec LEGACY_BT_DEV) [Add 0, Add 1, Promote 0] demo_cb = Some cb'
    \<and> bond_order LEGACY_BT_DEV cb' = [1, 0]
    \<and> bt_bond_priority_queue_init LEGACY_BT_DEV 3 (last_saved LEGACY_BT_DEV (ftl_log cb'))
        (set_sort LEGACY_BT_DEV \<lparr>bond_num = 7, bond_idx = []\<rparr> cb') = (True, cb')"
proof -
  obtain cb' where cb': "exec_all (bond_exec LEGACY_BT_DEV) [Add 0, Add 1, Promote 0] demo_cb = Some cb'"
      "bond_order LEGACY_BT_DEV cb' = [1, 0]"
    using bond.exec_all_refines [OF demo_cb_ok(1) [of LEGACY_BT_DEV], of "[Add 0, Add 1, Promote 0]"]
    by (auto simp: demo_cb_ok)
  then show ?thesis using bond_queue_reload [OF demo_cb_ok(1,2) cb'(1)] by auto
qed

text \<open>C18: the entry asked for by priority \<open>k\<close> is the \<open>k\<close>-th most recently used device, and
  \<open>0xff\<close> when there is none.\<close>

theorem bond_index_is_kth_recent:
  assumes "queue_ok t cb"
  shows "bt_bond_get_index_by_priority t k cb = Some
    (if k \<noteq> 0 \<and> unat k \<le> length (bond_order t cb) then rev (bond_order t cb) ! (unat k - 1) else 0xff)"
proof (cases "k \<noteq> 0 \<and> unat k \<le> length (bond_order t cb)")
  case True
  then have "0 < unat k" by (simp add: unat_gt_0)
  then obtain m where "unat k = Suc m" by (cases "unat k") auto
  then have "rev (bond_order t cb) ! (unat k - 1) = bond_order t cb ! (length (bond_order t cb) - unat k)"
    using True by (simp add: rev_nth)
  then show ?thesis using True index_by_priority [OF assms, of k] by auto
next
  case False
  then show ?thesis using index_by_priority [OF assms, of k] by auto
qed

lemma bond_index_is_kth_recent_witness:
  "\<exists>cb'. exec_all (bond_exec LE_BT_DEV) [Add 5, Add 6, Add 7] demo_cb = Some cb'
    \<and> bt_bond_get_index_by_priority LE_BT_DEV 1 cb' = Some 7
    \<and> bt_bond_get_index_by_priority LE_BT_DEV 3 cb' = Some 5
    \<and> bt_bond_get_index_by_priority LE_BT_DEV 4 cb' = Some 0xff"
proof -
  obtain cb' where cb': "exec_all (bond_exec LE_BT_DEV) [Add 5, Add 6, Add 7] demo_cb = Some cb'"
      "queue_ok LE_BT_DEV cb'" "bond_order LE_BT_DEV cb' = [5, 6, 7]"
    using bond.exec_all_refines [OF demo_cb_ok(1) [of LE_BT_DEV], of "[Add 5, Add 6, Add 7]"]
    by (auto simp: demo_cb_ok)
  then show ?thesis
    using bond_index_is_kth_recent [OF cb'(2), of 1] bond_index_is_kth_recent [OF cb'(2), of 3]
      bond_index_is_kth_recent [OF cb'(2), of 4] by auto
qed

text \<open>C23: a queue that holds 19 devices cannot lose one: the loop that closes the gap reads
  \<open>bond_idx[19]\<close>, past the end of the array.\<close>

theorem queue_delete_full:
  assumes "cb_alloc cb" "sort_of t cb = \<lparr>bond_num = 19, bond_idx = xs\<rparr>" "length xs = 19"
    and "idx \<in> set xs"
  shows "bt_bond_priority_queue_delete t idx cb = None"
proof -
  obtain k where k: "first_index (\<lambda>v. v = idx) xs = Some k"
    using assms(4) first_index_None [of "\<lambda>v. v = idx" xs] by (cases "first_index (\<lambda>v. v = idx) xs") auto
  then have k19: "k < 19" using assms(3) by (simp add: first_index_Some)
  then have u: "unat (of_nat k :: u8) = k" "(of_nat k :: u8) \<noteq> 0xff"
    by (simp_all add: unat_of_nat word_unat_eq_iff)
  have "bt_bond_priority_queue_find t idx cb = Some (of_nat k)"
    using assms(1-3) k
    by (simp add: bt_bond_priority_queue_find_def bt_bond_priority_sort_get_def find_loop_eq)
  then show ?thesis
    using assms(1-3) u k19
    by (simp add: bt_bond_priority_queue_delete_def bt_bond_priority_sort_get_def shift_down_full)
qed

lemma queue_delete_full_witness:
  "bt_bond_priority_queue_delete LE_BT_DEV 18
     (set_sort LE_BT_DEV \<lparr>bond_num = 19, bond_idx = map of_nat [0..<19]\<rparr> demo_cb) = None"
  by (rule queue_delete_full [where xs = "map of_nat [0..<19]"]) (simp_all add: demo_cb_def upt_rec)

end
