(* ===== verification/Legacy_Bond.thy ===== *)
theory Legacy_Bond
  imports Bond_Priority
begin

text \<open>
  The table of bonded BR/EDR devices, \<open>src/ble_mgr/bond/bt_bond_legacy.c\<close>, with the flash
  accessors it uses from \<open>bt_bond_ftl.c\<close> and \<open>bt_bond_remove\<close> of \<open>bt_bond_common.c\<close>.
  The table is kept beside the priority queue of \<open>Bond_Priority\<close>; which device is evicted when a
  new one is bonded is decided by that queue.

  The flash driver is not part of the repository: \<open>wr\<close> says which writes it reports as done,
  \<open>rd_bd\<close> and \<open>rd_key\<close> what a read returns (\<^const>\<open>None\<close> for an error). A pointer argument that
  the code compares with \<open>NULL\<close> is an \<open>option\<close>.
\<close>

abbreviation BT_BOND_INFO_EXIST_FLAG :: u8 where "BT_BOND_INFO_EXIST_FLAG \<equiv> 1"
abbreviation GAP_KEY_UNAUTHEN_P256 :: u8 where "GAP_KEY_UNAUTHEN_P256 \<equiv> 7"
abbreviation GAP_KEY_AUTHEN_P256 :: u8 where "GAP_KEY_AUTHEN_P256 \<equiv> 8"
abbreviation GAP_REMOTE_ADDR_CLASSIC :: u8 where "GAP_REMOTE_ADDR_CLASSIC \<equiv> 0x10"

record legacy_db =
  bond_cb :: bond_cb
  bond_feat_5_1 :: bool  \<comment> \<open>\<open>F_BT_LE_5_1_CLIENT_SUPPORTED_FEATURES_SERVER_SUPPORT\<close>\<close>
  bt_legacy_bond_store_number :: u8
  bt_legacy_bond_store_table :: "bond_info list"

definition zero_info :: bond_info where
  "zero_info = \<lparr>bond_state = 0, key_type = 0, remote_bd_type = 0, local_bd_type = 0,
     remote_bd = replicate 6 0, local_bd = replicate 6 0, bond_flag = 0\<rparr>"

section \<open>Flash accessors\<close>

definition ftl_get_common_block_offset :: "dev_type \<Rightarrow> u8 \<Rightarrow> bond_cb \<Rightarrow> u16 option" where
  "ftl_get_common_block_offset t idx cb =
     (let offset = (case t of LE_BT_DEV \<Rightarrow> common_le_start cb | LEGACY_BT_DEV \<Rightarrow> common_bredr_start cb)
      in if max_paired t cb \<le> idx then None else if offset \<noteq> 0 then Some offset else None)"

definition imp_ftl_save :: "(ftl_write \<Rightarrow> bool) \<Rightarrow> ftl_write \<Rightarrow> bond_cb \<Rightarrow> nat \<times> bond_cb" where
  "imp_ftl_save wr w cb = (if wr w then 0 else 1, ftl_put w cb)"

definition ftl_save_remote_client_supported_features ::
    "(ftl_write \<Rightarrow> bool) \<Rightarrow> dev_type \<Rightarrow> u8 \<Rightarrow> bond_cb \<Rightarrow> nat \<times> bond_cb" where
  "ftl_save_remote_client_supported_features wr t idx cb =
     (if \<not> use_gatts_client_supported_features (otp_cfg cb) then (2, cb)
      else case ftl_get_common_block_offset t idx cb of
             None \<Rightarrow> (1, cb)
           | Some _ \<Rightarrow> imp_ftl_save wr (WClientFeatures t idx) cb)"

definition ftl_save_cccd :: "(ftl_write \<Rightarrow> bool) \<Rightarrow> dev_type \<Rightarrow> u8 \<Rightarrow> bond_cb \<Rightarrow> nat \<times> bond_cb" where
  "ftl_save_cccd wr t idx cb =
     (if \<not> cb_alloc cb \<or> \<not> gatt_cccd_storage (otp_cfg cb) then (2, cb)
      else case ftl_get_common_block_offset t idx cb of
             None \<Rightarrow> (1, cb)
           | Some _ \<Rightarrow> imp_ftl_save wr (WCccd t idx) cb)"

text \<open>The features record is erased for \<open>LE_BT_DEV\<close> whatever the argument \<open>type\<close> is, as in the code.\<close>

definition bt_bond_remove :: "(ftl_write \<Rightarrow> bool) \<Rightarrow> bool \<Rightarrow> dev_type \<Rightarrow> u8 \<Rightarrow> bond_cb \<Rightarrow> bool \<times> bond_cb" where
  "bt_bond_remove wr feat t idx cb =
     (let cb1 = (if feat then snd (ftl_save_remote_client_supported_features wr LE_BT_DEV idx cb) else cb);
          cb2 = snd (ftl_save_cccd wr t idx cb1)
      in (True, cb2))"

definition ftl_save_legacy_remote_bd ::
    "(ftl_write \<Rightarrow> bool) \<Rightarrow> bond_info \<Rightarrow> u8 \<Rightarrow> bond_cb \<Rightarrow> nat \<times> bond_cb" where
  "ftl_save_legacy_remote_bd wr d idx cb =
     (if \<not> cb_alloc cb \<or> max_legacy_paired_device (otp_cfg cb) \<le> idx then (1, cb)
      else imp_ftl_save wr (WRemoteBd idx d) cb)"

text \<open>Returns the error code and the new contents of the destination, which held \<open>d\<close>.\<close>

definition ftl_load_legacy_remote_bd ::
    "(u8 \<Rightarrow> bond_info option) \<Rightarrow> bond_info \<Rightarrow> u8 \<Rightarrow> bond_cb \<Rightarrow> nat \<times> bond_info" where
  "ftl_load_legacy_remote_bd rd_bd d idx cb =
     (if \<not> cb_alloc cb \<or> max_legacy_paired_device (otp_cfg cb) \<le> idx then (1, d)
      else case rd_bd idx of Some d' \<Rightarrow> (0, d') | None \<Rightarrow> (1, zero_info))"

definition ftl_save_legacy_link_key ::
    "(ftl_write \<Rightarrow> bool) \<Rightarrow> u8 list \<Rightarrow> u8 \<Rightarrow> bond_cb \<Rightarrow> nat \<times> bond_cb" where
  "ftl_save_legacy_link_key wr k idx cb =
     (if \<not> cb_alloc cb \<or> max_legacy_paired_device (otp_cfg cb) \<le> idx then (1, cb)
      else imp_ftl_save wr (WLinkKey idx k) cb)"

definition ftl_load_legacy_link_key ::
    "(u8 \<Rightarrow> u8 list option) \<Rightarrow> u8 list \<Rightarrow> u8 \<Rightarrow> bond_cb \<Rightarrow> nat \<times> u8 list" where
  "ftl_load_legacy_link_key rd_key k idx cb =
     (if \<not> cb_alloc cb \<or> max_legacy_paired_device (otp_cfg cb) \<le> idx then (1, k)
      else case rd_key idx of Some k' \<Rightarrow> (0, k') | None \<Rightarrow> (1, replicate 16 0))"

section \<open>Lookups\<close>

definition bt_legacy_search_empty_dev :: "legacy_db \<Rightarrow> u8 option" where
  "bt_legacy_search_empty_dev db =
     map_option of_nat (arr_find (\<lambda>e. bond_state e = 0) 0 (unat (bt_legacy_bond_store_number db))
       (bt_legacy_bond_store_table db))"

text \<open>Outer \<open>option\<close>: undefined behaviour; inner: the function's \<open>bool\<close> with \<open>*p_idx\<close>.\<close>

definition bt_legacy_get_paired_idx :: "u8 list option \<Rightarrow> legacy_db \<Rightarrow> u8 option option" where
  "bt_legacy_get_paired_idx bd_addr db =
     (case bd_addr of
        None \<Rightarrow> Some None
      | Some a \<Rightarrow> do {
          i \<leftarrow> arr_find (\<lambda>e. bond_state e \<noteq> 0 \<and> remote_bd e = a) 0
                 (unat (bt_legacy_bond_store_number db)) (bt_legacy_bond_store_table db);
          Some (if i = unat (bt_legacy_bond_store_number db) then None else Some (of_nat i))
        })"

definition bt_legacy_get_addr_by_priority :: "u8 \<Rightarrow> legacy_db \<Rightarrow> u8 list option option" where
  "bt_legacy_get_addr_by_priority priority db = do {
     i \<leftarrow> bt_bond_get_index_by_priority LEGACY_BT_DEV priority (bond_cb db);
     if i \<noteq> 0xff then do {
       e \<leftarrow> arr_get (bt_legacy_bond_store_table db) (unat i);
       Some (Some (remote_bd e))
     } else Some None
   }"

definition bt_legacy_get_bond_num :: "legacy_db \<Rightarrow> u8 option" where
  "bt_legacy_get_bond_num db =
     map_option (\<lambda>es. of_nat (length (filter (\<lambda>e. bond_state e \<noteq> 0) es)))
       (arr_upto (unat (bt_legacy_bond_store_number db)) (bt_legacy_bond_store_table db))"

definition bt_legacy_get_max_bond_num :: "legacy_db \<Rightarrow> u8" where
  "bt_legacy_get_max_bond_num db = bt_legacy_bond_store_number db"

definition bt_legacy_get_bond_flag :: "u8 list option \<Rightarrow> legacy_db \<Rightarrow> u32 option option" where
  "bt_legacy_get_bond_flag bd_addr db =
     (if bd_addr = None then Some None
      else do {
        r \<leftarrow> bt_legacy_get_paired_idx bd_addr db;
        case r of None \<Rightarrow> Some None
        | Some i \<Rightarrow> do { e \<leftarrow> arr_get (bt_legacy_bond_store_table db) (unat i); Some (Some (bond_flag e)) }
      })"

definition bt_legacy_get_bond ::
    "(u8 \<Rightarrow> u8 list option) \<Rightarrow> u8 list option \<Rightarrow> u8 list option \<Rightarrow> legacy_db \<Rightarrow> (u8 list \<times> u8) option option" where
  "bt_legacy_get_bond rd_key bd_addr key_buf db =
     (if bd_addr = None \<or> key_buf = None then Some None
      else do {
        r \<leftarrow> bt_legacy_get_paired_idx bd_addr db;
        case r of None \<Rightarrow> Some None
        | Some i \<Rightarrow>
            (let (err, k) = ftl_load_legacy_link_key rd_key (the key_buf) i (bond_cb db)
             in if err = 0 then do {
                  e \<leftarrow> arr_get (bt_legacy_bond_store_table db) (unat i);
                  Some (Some (k, key_type e))
                } else Some None)
      })"

section \<open>Changes\<close>

definition bt_legacy_adjust_dev_priority :: "u8 list option \<Rightarrow> legacy_db \<Rightarrow> (bool \<times> legacy_db) option" where
  "bt_legacy_adjust_dev_priority bd_addr db = do {
     r \<leftarrow> bt_legacy_get_paired_idx bd_addr db;
     case r of None \<Rightarrow> Some (False, db)
     | Some i \<Rightarrow> do {
         (b, cb) \<leftarrow> bt_bond_set_high_priority LEGACY_BT_DEV i (bond_cb db);
         Some (b, db\<lparr>bond_cb := cb\<rparr>)
       }
   }"

definition bt_legacy_set_bond_flag ::
    "(ftl_write \<Rightarrow> bool) \<Rightarrow> u8 list option \<Rightarrow> u32 \<Rightarrow> legacy_db \<Rightarrow> (bool \<times> legacy_db) option" where
  "bt_legacy_set_bond_flag wr bd_addr flag db = do {
     r \<leftarrow> bt_legacy_get_paired_idx bd_addr db;
     case r of None \<Rightarrow> Some (False, db)
     | Some i \<Rightarrow> do {
         e \<leftarrow> arr_get (bt_legacy_bond_store_table db) (unat i);
         let e' = e\<lparr>bond_flag := flag\<rparr>;
         Some (True, db\<lparr>bt_legacy_bond_store_table := (bt_legacy_bond_store_table db)[unat i := e'],
           bond_cb := snd (ftl_save_legacy_remote_bd wr e' i (bond_cb db))\<rparr>)
       }
   }"

text \<open>The slot \<open>bt_legacy_save_bond\<close> writes: the device's own, an empty one, or the evicted one.\<close>

definition save_slot :: "u8 list \<Rightarrow> legacy_db \<Rightarrow> u8 option option" where
  "save_slot a db = do {
     r \<leftarrow> bt_legacy_get_paired_idx (Some a) db;
     case r of Some i \<Rightarrow> Some (Some i)
     | None \<Rightarrow> do {
         e \<leftarrow> bt_legacy_search_empty_dev db;
         if bt_legacy_bond_store_number db = e then do {
           tmp \<leftarrow> bt_legacy_get_addr_by_priority (bt_legacy_bond_store_number db) db;
           case tmp of None \<Rightarrow> Some None
           | Some t \<Rightarrow> bt_legacy_get_paired_idx (Some t) db
         } else Some (Some e)
       }
   }"

definition save_entry :: "u8 list \<Rightarrow> u8 \<Rightarrow> bond_info \<Rightarrow> bond_info" where
  "save_entry a kt e0 =
     (let e1 = (if kt \<noteq> GAP_KEY_AUTHEN_P256 \<and> kt \<noteq> GAP_KEY_UNAUTHEN_P256 then e0\<lparr>bond_flag := 0\<rparr> else e0)
      in e1\<lparr>remote_bd := a, bond_state := BT_BOND_INFO_EXIST_FLAG, key_type := kt,
            remote_bd_type := GAP_REMOTE_ADDR_CLASSIC\<rparr>)"

definition bt_legacy_save_bond ::
    "(ftl_write \<Rightarrow> bool) \<Rightarrow> u8 list option \<Rightarrow> u8 list option \<Rightarrow> u8 \<Rightarrow> legacy_db \<Rightarrow> (bool \<times> legacy_db) option" where
  "bt_legacy_save_bond wr bd_addr linkkey kt db =
     (case (bd_addr, linkkey) of
        (Some a, Some k) \<Rightarrow> do {
          s \<leftarrow> save_slot a db;
          case s of None \<Rightarrow> Some (False, db)
          | Some i \<Rightarrow> do {
              e0 \<leftarrow> arr_get (bt_legacy_bond_store_table db) (unat i);
              let e = save_entry a kt e0;
              let (err1, cb1) = ftl_save_legacy_remote_bd wr e i (bond_cb db);
              let db1 = db\<lparr>bt_legacy_bond_store_table := (bt_legacy_bond_store_table db)[unat i := e],
                           bond_cb := cb1\<rparr>;
              if err1 \<noteq> 0 then Some (False, db1)
              else let (err2, cb2) = ftl_save_legacy_link_key wr (take 16 k) i cb1
                   in if err2 \<noteq> 0 then Some (False, db1\<lparr>bond_cb := cb2\<rparr>)
                      else do {
                        (b, cb3) \<leftarrow> bt_bond_priority_queue_add LEGACY_BT_DEV i cb2;
                        Some (b, db1\<lparr>bond_cb := cb3\<rparr>)
                      }
            }
        }
      | _ \<Rightarrow> Some (False, db))"

definition bt_legacy_delete_bond ::
    "(ftl_write \<Rightarrow> bool) \<Rightarrow> u8 list option \<Rightarrow> legacy_db \<Rightarrow> (bool \<times> legacy_db) option" where
  "bt_legacy_delete_bond wr bd_addr db =
     (if \<not> cb_alloc (bond_cb db) then Some (False, db)
      else do {
        r \<leftarrow> bt_legacy_get_paired_idx bd_addr db;
        case r of None \<Rightarrow> Some (False, db)
        | Some i \<Rightarrow> do {
            (_, cb1) \<leftarrow> bt_bond_priority_queue_delete LEGACY_BT_DEV i (bond_cb db);
            tbl \<leftarrow> arr_set (bt_legacy_bond_store_table db) (unat i) zero_info;
            let cb2 = snd (ftl_save_legacy_remote_bd wr zero_info i cb1);
            let cb3 = (if bredr_ext_info_storage (otp_cfg cb2)
                       then snd (bt_bond_remove wr (bond_feat_5_1 db) LEGACY_BT_DEV i cb2) else cb2);
            Some (True, db\<lparr>bt_legacy_bond_store_table := tbl, bond_cb := cb3\<rparr>)
          }
      })"

text \<open>The body of the loop of \<open>bt_legacy_clear_all_keys\<close>, for one index.\<close>

definition clear_one :: "(ftl_write \<Rightarrow> bool) \<Rightarrow> bool \<Rightarrow> nat \<Rightarrow> bond_cb \<Rightarrow> bond_cb" where
  "clear_one wr feat i cb =
     (let cb1 = snd (ftl_save_legacy_remote_bd wr zero_info (of_nat i) cb)
      in if bredr_ext_info_storage (otp_cfg cb1)
         then snd (bt_bond_remove wr feat LEGACY_BT_DEV (of_nat i) cb1) else cb1)"

definition bt_legacy_clear_all_keys :: "(ftl_write \<Rightarrow> bool) \<Rightarrow> legacy_db \<Rightarrow> legacy_db option" where
  "bt_legacy_clear_all_keys wr db =
     (if \<not> cb_alloc (bond_cb db) then Some db
      else do {
        let n = unat (bt_legacy_bond_store_number db);
        _ \<leftarrow> arr_upto n (bt_legacy_bond_store_table db);
        let tbl = replicate n zero_info @ drop n (bt_legacy_bond_store_table db);
        let cb1 = bt_bond_priority_queue_clear LEGACY_BT_DEV (bond_cb db);
        Some (db\<lparr>bt_legacy_bond_store_table := tbl,
                bond_cb := fold (clear_one wr (bond_feat_5_1 db)) [0..<n] cb1\<rparr>)
      })"

text \<open>
  The loop of \<open>bt_legacy_key_init\<close>: load entry \<open>i\<close>, and clear the whole store when it is not one
  the code can have written.
\<close>

function key_init_loop ::
    "(ftl_write \<Rightarrow> bool) \<Rightarrow> (u8 \<Rightarrow> bond_info option) \<Rightarrow> nat \<Rightarrow> nat \<Rightarrow> legacy_db \<Rightarrow> legacy_db option" where
  "key_init_loop wr rd_bd i n db =
     (if i < n then do {
        e0 \<leftarrow> arr_get (bt_legacy_bond_store_table db) i;
        let e = snd (ftl_load_legacy_remote_bd rd_bd e0 (of_nat i) (bond_cb db));
        let db1 = db\<lparr>bt_legacy_bond_store_table := (bt_legacy_bond_store_table db)[i := e]\<rparr>;
        if GAP_KEY_AUTHEN_P256 < key_type e
           \<or> (bond_state e \<noteq> BT_BOND_INFO_EXIST_FLAG \<and> bond_state e \<noteq> 0)
        then bt_legacy_clear_all_keys wr db1
        else key_init_loop wr rd_bd (Suc i) n db1
      } else Some db)"
  by pat_completeness auto
termination
  by (relation "measure (\<lambda>(wr, rd_bd, i, n, db). n - i)") auto

declare key_init_loop.simps [simp del]

text \<open>
  \<open>size\<close> is a \<open>uint8_t\<close> in the code, so the number of bytes asked for is reduced modulo 256: the
  table has as many whole entries as fit into it. \<open>alloc\<close> is the outcome of \<open>calloc\<close>.
\<close>

definition bt_legacy_key_init ::
    "(ftl_write \<Rightarrow> bool) \<Rightarrow> (u8 \<Rightarrow> bond_info option) \<Rightarrow> bond_priority option \<Rightarrow> bool \<Rightarrow> legacy_db \<Rightarrow> legacy_db option" where
  "bt_legacy_key_init wr rd_bd load alloc db =
     (if \<not> cb_alloc (bond_cb db) then None
      else if gap_bond_manager (otp_cfg (bond_cb db)) then Some db
      else do {
        let num = max_legacy_paired_device (otp_cfg (bond_cb db));
        let size = num * 20;
        let db1 = (if alloc
                   then db\<lparr>bt_legacy_bond_store_number := num,
                           bt_legacy_bond_store_table := replicate (unat size div 20) zero_info\<rparr>
                   else db\<lparr>bt_legacy_bond_store_number := 0, bt_legacy_bond_store_table := []\<rparr>);
        let (ok, cb1) = bt_bond_priority_queue_init LEGACY_BT_DEV (bt_legacy_bond_store_number db1)
                          load (bond_cb db1);
        let db2 = db1\<lparr>bond_cb := cb1\<rparr>;
        if ok then key_init_loop wr rd_bd 0 (unat (bt_legacy_bond_store_number db2)) db2
        else Some db2
      })"

text \<open>Compiled with \<open>BLE_MGR_DEINIT\<close>. A table that was never allocated is the empty list.\<close>

definition bt_legacy_key_deinit :: "legacy_db \<Rightarrow> legacy_db" where
  "bt_legacy_key_deinit db =
     (if bt_legacy_bond_store_table db \<noteq> []
      then db\<lparr>bt_legacy_bond_store_number := 0, bt_legacy_bond_store_table := []\<rparr> else db)"

section \<open>Invariant, and the devices in order of use\<close>

definition entry_addr :: "legacy_db \<Rightarrow> u8 \<Rightarrow> u8 list" where
  "entry_addr db i = remote_bd (bt_legacy_bond_store_table db ! unat i)"

definition bonded_at :: "legacy_db \<Rightarrow> nat \<Rightarrow> bool" where
  "bonded_at db i \<longleftrightarrow> bond_state (bt_legacy_bond_store_table db ! i) \<noteq> 0"

abbreviation legacy_order :: "legacy_db \<Rightarrow> u8 list" where
  "legacy_order db \<equiv> bond_order LEGACY_BT_DEV (bond_cb db)"

text \<open>The addresses of the bonded devices, least recently used first.\<close>

definition addr_order :: "legacy_db \<Rightarrow> u8 list list" where
  "addr_order db = map (entry_addr db) (legacy_order db)"

definition legacy_ok :: "legacy_db \<Rightarrow> bool" where
  "legacy_ok db \<longleftrightarrow>
     queue_ok LEGACY_BT_DEV (bond_cb db)
     \<and> bt_legacy_bond_store_number db = max_legacy_paired_device (otp_cfg (bond_cb db))
     \<and> length (bt_legacy_bond_store_table db) = unat (bt_legacy_bond_store_number db)
     \<and> (\<forall>i. i \<in> set (legacy_order db) \<longleftrightarrow>
          unat i < unat (bt_legacy_bond_store_number db) \<and> bonded_at db (unat i))
     \<and> inj_on (entry_addr db) (set (legacy_order db))"

lemma legacy_ok_facts:
  assumes "legacy_ok db"
  shows "queue_ok LEGACY_BT_DEV (bond_cb db)"
    "bt_legacy_bond_store_number db = max_legacy_paired_device (otp_cfg (bond_cb db))"
    "max_paired LEGACY_BT_DEV (bond_cb db) = bt_legacy_bond_store_number db"
    "length (bt_legacy_bond_store_table db) = unat (bt_legacy_bond_store_number db)"
    "\<And>i. i \<in> set (legacy_order db) \<longleftrightarrow>
       unat i < unat (bt_legacy_bond_store_number db) \<and> bonded_at db (unat i)"
    "inj_on (entry_addr db) (set (legacy_order db))"
    "unat (bt_legacy_bond_store_number db) \<le> 18"
    "distinct (legacy_order db)" "cb_alloc (bond_cb db)"
  using assms queue_ok_facts [of LEGACY_BT_DEV "bond_cb db"]
  by (simp_all add: legacy_ok_def max_paired_def)

lemma distinct_addr_order: "legacy_ok db \<Longrightarrow> distinct (addr_order db)"
  using legacy_ok_facts(6,8) by (simp add: addr_order_def distinct_map)

lemma u8_small: "k \<le> 18 \<Longrightarrow> unat (of_nat k :: u8) = k"
  by (simp add: unat_of_nat)

lemma paired_idx_None: "bt_legacy_get_paired_idx None db = Some None"
  by (simp add: bt_legacy_get_paired_idx_def)

lemma paired_idx_cases:
  assumes "legacy_ok db"
  obtains (absent) "a \<notin> set (addr_order db)" "bt_legacy_get_paired_idx (Some a) db = Some None"
  | (present) i where "a \<in> set (addr_order db)" "bt_legacy_get_paired_idx (Some a) db = Some (Some i)"
      "i \<in> set (legacy_order db)" "entry_addr db i = a"
proof -
  note f = legacy_ok_facts [OF assms]
  define tbl where "tbl = bt_legacy_bond_store_table db"
  define n where "n = unat (bt_legacy_bond_store_number db)"
  let ?P = "\<lambda>e. bond_state e \<noteq> 0 \<and> remote_bd e = a"
  have len: "length tbl = n" using f(4) by (simp add: tbl_def n_def)
  have eq: "bt_legacy_get_paired_idx (Some a) db =
      Some (case first_index ?P tbl of None \<Rightarrow> None | Some k \<Rightarrow> if k = n then None else Some (of_nat k))"
    unfolding bt_legacy_get_paired_idx_def tbl_def [symmetric] n_def [symmetric]
    by (simp add: arr_find_all [of _ tbl, unfolded len] split: option.split)
  show thesis
  proof (cases "first_index ?P tbl")
    case None
    have "a \<notin> set (addr_order db)"
    proof
      assume "a \<in> set (addr_order db)"
      then obtain i where "i \<in> set (legacy_order db)" "entry_addr db i = a"
        by (auto simp: addr_order_def)
      then have "tbl ! unat i \<in> set tbl" "?P (tbl ! unat i)"
        using f(5) len by (auto simp: tbl_def n_def bonded_at_def entry_addr_def)
      with None show False by (auto simp: first_index_None)
    qed
    then show thesis using absent eq None by simp
  next
    case (Some k)
    then have k: "k < n" "?P (tbl ! k)" using len by (auto simp: first_index_Some)
    then have u: "unat (of_nat k :: u8) = k" using f(7) by (simp add: u8_small n_def)
    then have "(of_nat k :: u8) \<in> set (legacy_order db)" "entry_addr db (of_nat k) = a"
      using k f(5) by (auto simp: bonded_at_def entry_addr_def tbl_def n_def)
    then show thesis using present [of "of_nat k"] eq Some k by (auto simp: addr_order_def)
  qed
qed

lemma search_empty_cases:
  assumes "legacy_ok db"
  obtains (free) i where "bt_legacy_search_empty_dev db = Some i" "i \<notin> set (legacy_order db)"
      "unat i < unat (bt_legacy_bond_store_number db)"
      "length (legacy_order db) < unat (bt_legacy_bond_store_number db)"
  | (full) "bt_legacy_search_empty_dev db = Some (bt_legacy_bond_store_number db)"
      "length (legacy_order db) = unat (bt_legacy_bond_store_number db)"
proof -
  note f = legacy_ok_facts [OF assms]
  define tbl where "tbl = bt_legacy_bond_store_table db"
  define n where "n = unat (bt_legacy_bond_store_number db)"
  have len: "length tbl = n" using f(4) by (simp add: tbl_def n_def)
  have n18: "n \<le> 18" using f(7) by (simp add: n_def)
  have eq: "bt_legacy_search_empty_dev db = Some (case first_index (\<lambda>e. bond_state e = 0) tbl of
      None \<Rightarrow> of_nat n | Some k \<Rightarrow> of_nat k)"
    unfolding bt_legacy_search_empty_dev_def tbl_def [symmetric] n_def [symmetric]
    by (simp add: arr_find_all [of _ tbl, unfolded len] split: option.split)
  have card: "length (legacy_order db) = card (unat ` set (legacy_order db))"
    using distinct_card [OF f(8)]
    by (subst card_image) (simp_all add: inj_on_def word_unat_eq_iff)
  have sub: "unat ` set (legacy_order db) = {k. k < n \<and> bonded_at db k}"
  proof (intro equalityI subsetI)
    fix k assume "k \<in> {k. k < n \<and> bonded_at db k}"
    then have "(of_nat k :: u8) \<in> set (legacy_order db)" "unat (of_nat k :: u8) = k"
      using f(5) n18 by (auto simp: u8_small n_def)
    then show "k \<in> unat ` set (legacy_order db)" by force
  qed (use f(5) in \<open>auto simp: n_def\<close>)
  show thesis
  proof (cases "first_index (\<lambda>e. bond_state e = 0) tbl")
    case None
    then have "{k. k < n \<and> bonded_at db k} = {..<n}"
      using len by (auto simp: first_index_None bonded_at_def tbl_def)
    then show thesis using full eq None card sub by (simp add: n_def)
  next
    case (Some k)
    then have k: "k < n" "\<not> bonded_at db k" using len by (auto simp: first_index_Some bonded_at_def tbl_def)
    then have "card {k. k < n \<and> bonded_at db k} \<le> card ({..<n} - {k})"
      by (intro card_mono) auto
    then have "length (legacy_order db) < n" using card sub k by simp
    moreover have "unat (of_nat k :: u8) = k" using k n18 by (simp add: u8_small)
    ultimately show thesis using free [of "of_nat k"] eq Some k f(5) by (simp add: n_def)
  qed
qed

text \<open>Rewriting one entry of the table, with the priority queue that results.\<close>

definition put_entry :: "u8 \<Rightarrow> bond_info \<Rightarrow> bond_cb \<Rightarrow> legacy_db \<Rightarrow> legacy_db" where
  "put_entry i e cb db =
     db\<lparr>bt_legacy_bond_store_table := (bt_legacy_bond_store_table db)[unat i := e], bond_cb := cb\<rparr>"

lemma put_entry_addr:
  "unat i < length (bt_legacy_bond_store_table db) \<Longrightarrow>
   entry_addr (put_entry i e cb db) j = (if j = i then remote_bd e else entry_addr db j)"
  by (auto simp: entry_addr_def put_entry_def nth_list_update word_unat_eq_iff)

lemma put_entry_bonded:
  "unat i < length (bt_legacy_bond_store_table db) \<Longrightarrow>
   bonded_at (put_entry i e cb db) k = (if k = unat i then bond_state e \<noteq> 0 else bonded_at db k)"
  by (auto simp: bonded_at_def put_entry_def nth_list_update)

lemma legacy_ok_put:
  assumes ok: "legacy_ok db" and i: "unat i < unat (bt_legacy_bond_store_number db)"
    and q: "queue_ok LEGACY_BT_DEV cb'"
    and mx: "max_paired LEGACY_BT_DEV cb' = max_paired LEGACY_BT_DEV (bond_cb db)"
    and st: "\<And>j. j \<in> set (bond_order LEGACY_BT_DEV cb') \<longleftrightarrow>
        (if j = i then bond_state e \<noteq> 0 else j \<in> set (legacy_order db))"
    and fresh: "bond_state e \<noteq> 0 \<Longrightarrow> \<forall>j \<in> set (legacy_order db). j \<noteq> i \<longrightarrow> entry_addr db j \<noteq> remote_bd e"
  shows "legacy_ok (put_entry i e cb' db)"
proof -
  note f = legacy_ok_facts [OF ok]
  let ?db = "put_entry i e cb' db"
  have il: "unat i < length (bt_legacy_bond_store_table db)" using i f(4) by simp
  have "j \<in> set (legacy_order ?db) \<longleftrightarrow> unat j < unat (bt_legacy_bond_store_number ?db) \<and> bonded_at ?db (unat j)" for j
    using st [of j] f(5) [of j] i il put_entry_bonded [OF il, of e cb' "unat j"]
    by (auto simp: put_entry_def word_unat_eq_iff split: if_splits)
  moreover have "inj_on (entry_addr ?db) (set (legacy_order ?db))"
  proof (rule inj_onI)
    fix j k
    assume jk: "j \<in> set (legacy_order ?db)" "k \<in> set (legacy_order ?db)"
      "entry_addr ?db j = entry_addr ?db k"
    have o: "legacy_order ?db = bond_order LEGACY_BT_DEV cb'" by (simp add: put_entry_def)
    show "j = k"
      using jk(3) jk(1,2) [unfolded o] fresh st [of j] st [of k] f(6)
      by (auto simp: put_entry_addr [OF il] inj_on_def split: if_splits)
  qed
  moreover have "queue_ok LEGACY_BT_DEV (bond_cb ?db)"
    "bt_legacy_bond_store_number ?db = max_legacy_paired_device (otp_cfg (bond_cb ?db))"
    "length (bt_legacy_bond_store_table ?db) = unat (bt_legacy_bond_store_number ?db)"
    using q mx f(2,4) by (simp_all add: put_entry_def max_paired_def)
  ultimately show ?thesis by (simp add: legacy_ok_def)
qed

section \<open>What the flash holds\<close>

definition saved_key :: "u8 \<Rightarrow> ftl_write list \<Rightarrow> u8 list option" where
  "saved_key i = newest (\<lambda>w. case w of WLinkKey j k \<Rightarrow> if j = i then Some k else None | _ \<Rightarrow> None)"

definition saved_bd :: "u8 \<Rightarrow> ftl_write list \<Rightarrow> bond_info option" where
  "saved_bd i = newest (\<lambda>w. case w of WRemoteBd j d \<Rightarrow> if j = i then Some d else None | _ \<Rightarrow> None)"

definition entry_ok :: "bond_info \<Rightarrow> bool" where
  "entry_ok e \<longleftrightarrow> key_type e \<le> GAP_KEY_AUTHEN_P256 \<and> (bond_state e = BT_BOND_INFO_EXIST_FLAG \<or> bond_state e = 0)"

text \<open>
  The flash and the memory agree: the newest priority record is the queue in use, and the newest
  record of each slot is the entry of the table, one that start-up accepts.
\<close>

definition flash_ok :: "legacy_db \<Rightarrow> bool" where
  "flash_ok db \<longleftrightarrow> synced LEGACY_BT_DEV (bond_cb db)
     \<and> (\<forall>i. unat i < unat (bt_legacy_bond_store_number db) \<longrightarrow>
          saved_bd i (ftl_log (bond_cb db)) = Some (bt_legacy_bond_store_table db ! unat i))
     \<and> (\<forall>e \<in> set (bt_legacy_bond_store_table db). entry_ok e)"

fun is_priority :: "ftl_write \<Rightarrow> bool" where
  "is_priority (WPriority _ _) = True" | "is_priority _ = False"

fun is_aux :: "ftl_write \<Rightarrow> bool" where
  "is_aux (WCccd _ _) = True" | "is_aux (WClientFeatures _ _) = True" | "is_aux _ = False"

definition log_ext :: "(ftl_write \<Rightarrow> bool) \<Rightarrow> bond_cb \<Rightarrow> bond_cb \<Rightarrow> bool" where
  "log_ext P cb cb' \<longleftrightarrow> (\<exists>ws. ftl_log cb' = ftl_log cb @ ws \<and> (\<forall>w \<in> set ws. P w))"

lemma bond_log_ext: "bond_exec t a cb = Some (b, cb') \<Longrightarrow> log_ext is_priority cb cb'"
  by (cases a)
    (auto simp: log_ext_def bt_bond_priority_queue_add_def bt_bond_set_high_priority_def Let_def
      bt_bond_priority_queue_delete_def bt_bond_priority_queue_clear_def ftl_save_bond_priority_def
      split: option.splits if_splits bind_splits)

lemma log_ext_trans: "log_ext P a b \<Longrightarrow> log_ext P b c \<Longrightarrow> log_ext P a c"
  unfolding log_ext_def
  by (elim exE conjE, rule_tac x = "ws @ wsa" in exI) auto

lemma newest_ext:
  "log_ext P cb cb' \<Longrightarrow> (\<And>w. P w \<Longrightarrow> f w = None) \<Longrightarrow> newest f (ftl_log cb') = newest f (ftl_log cb)"
  by (auto simp: log_ext_def intro!: newest_skip)

lemma saved_key_ext:
  "log_ext is_priority cb cb' \<or> log_ext is_aux cb cb' \<Longrightarrow> saved_key i (ftl_log cb') = saved_key i (ftl_log cb)"
  unfolding saved_key_def by (elim disjE; erule newest_ext) (auto split: ftl_write.split)

lemma saved_bd_ext:
  "log_ext is_priority cb cb' \<or> log_ext is_aux cb cb' \<Longrightarrow> saved_bd i (ftl_log cb') = saved_bd i (ftl_log cb)"
  unfolding saved_bd_def by (elim disjE; erule newest_ext) (auto split: ftl_write.split)

lemma synced_ext: "log_ext is_aux cb cb' \<Longrightarrow> last_saved t (ftl_log cb') = last_saved t (ftl_log cb)"
  unfolding last_saved_def by (erule newest_ext) (auto split: ftl_write.split)

lemma saved_put [simp]:
  "saved_key i (us @ [WRemoteBd j d]) = saved_key i us"
  "saved_key i (us @ [WRemoteBd j d, WLinkKey j k]) = (if j = i then Some k else saved_key i us)"
  "saved_bd i (us @ [WRemoteBd j d, WLinkKey j k]) = (if j = i then Some d else saved_bd i us)"
  "saved_bd i (us @ [WRemoteBd j d]) = (if j = i then Some d else saved_bd i us)"
  "synced t (ftl_put (WRemoteBd j d) cb) = synced t cb"
  "synced t (ftl_put (WLinkKey j k) cb) = synced t cb"
  by (simp_all add: saved_key_def saved_bd_def newest_append synced_def last_saved_snoc)

lemma flash_ok_put:
  assumes "flash_ok db" "length (bt_legacy_bond_store_table db) = unat (bt_legacy_bond_store_number db)"
    "synced LEGACY_BT_DEV cb'" "entry_ok e"
    "\<And>j. saved_bd j (ftl_log cb') = (if j = i then Some e else saved_bd j (ftl_log (bond_cb db)))"
  shows "flash_ok (put_entry i e cb' db)"
  using assms by (auto simp: flash_ok_def put_entry_def nth_list_update word_unat_eq_iff dest: set_update_subset_insert [THEN subsetD])

section \<open>Bonding a device\<close>

text \<open>The abstract effect: known devices move to the end, a full list loses its oldest.\<close>

definition lru_save :: "nat \<Rightarrow> 'a \<Rightarrow> 'a list \<Rightarrow> 'a list" where
  "lru_save n a q = (if a \<in> set q then remove1 a q @ [a]
     else if length q < n then q @ [a] else tl q @ [a])"

lemma map_remove1_inj:
  "inj_on f (set q) \<Longrightarrow> x \<in> set q \<Longrightarrow> map f (remove1 x q) = remove1 (f x) (map f q)"
  by (induction q) (auto simp: inj_on_def)

lemma save_slot_cases:
  assumes "legacy_ok db" "0 < bt_legacy_bond_store_number db"
  obtains (known) i where "save_slot a db = Some (Some i)" "i \<in> set (legacy_order db)"
      "entry_addr db i = a" "a \<in> set (addr_order db)"
  | (free) i where "save_slot a db = Some (Some i)" "i \<notin> set (legacy_order db)"
      "unat i < unat (bt_legacy_bond_store_number db)" "a \<notin> set (addr_order db)"
      "length (addr_order db) < unat (bt_legacy_bond_store_number db)"
  | (evict) "save_slot a db = Some (Some (hd (legacy_order db)))" "legacy_order db \<noteq> []"
      "a \<notin> set (addr_order db)" "length (addr_order db) = unat (bt_legacy_bond_store_number db)"
proof (rule paired_idx_cases [OF assms(1), of a])
  fix i assume "bt_legacy_get_paired_idx (Some a) db = Some (Some i)" "i \<in> set (legacy_order db)"
    "entry_addr db i = a" "a \<in> set (addr_order db)"
  then show thesis using known [of i] by (simp add: save_slot_def)
next
  assume absent: "a \<notin> set (addr_order db)" "bt_legacy_get_paired_idx (Some a) db = Some None"
  note f = legacy_ok_facts [OF assms(1)]
  show thesis
  proof (rule search_empty_cases [OF assms(1)])
    fix i assume i: "bt_legacy_search_empty_dev db = Some i" "i \<notin> set (legacy_order db)"
      "unat i < unat (bt_legacy_bond_store_number db)"
      "length (legacy_order db) < unat (bt_legacy_bond_store_number db)"
    then have "bt_legacy_bond_store_number db \<noteq> i" by auto
    then show thesis using free [of i] absent i by (simp add: save_slot_def addr_order_def)
  next
    assume full: "bt_legacy_search_empty_dev db = Some (bt_legacy_bond_store_number db)"
      "length (legacy_order db) = unat (bt_legacy_bond_store_number db)"
    let ?n = "bt_legacy_bond_store_number db" and ?q = "legacy_order db"
    have ne: "?q \<noteq> []" using assms(2) full(2) by (auto simp: word_less_nat_alt)
    then have hd: "hd ?q \<in> set ?q" "?q ! 0 = hd ?q" by (simp_all add: hd_conv_nth)
    then have lt: "unat (hd ?q) < unat ?n" using f(5) by blast
    then have nff: "hd ?q \<noteq> 0xff" using f(7) by auto
    have "bt_bond_get_index_by_priority LEGACY_BT_DEV ?n (bond_cb db) = Some (hd ?q)"
      using index_by_priority [OF f(1), of ?n] assms(2) full(2) hd by auto
    then have tmp: "bt_legacy_get_addr_by_priority ?n db = Some (Some (entry_addr db (hd ?q)))"
      using nff lt f(4) by (simp add: bt_legacy_get_addr_by_priority_def arr_simps entry_addr_def)
    have idx: "bt_legacy_get_paired_idx (Some (entry_addr db (hd ?q))) db = Some (Some (hd ?q))"
    proof (rule paired_idx_cases [OF assms(1), of "entry_addr db (hd ?q)"])
      assume "entry_addr db (hd ?q) \<notin> set (addr_order db)"
      then show ?thesis using hd by (auto simp: addr_order_def)
    next
      fix j assume "bt_legacy_get_paired_idx (Some (entry_addr db (hd ?q))) db = Some (Some j)"
        "j \<in> set ?q" "entry_addr db j = entry_addr db (hd ?q)"
      then show ?thesis using f(6) hd(1) by (auto simp: inj_on_def)
    qed
    show thesis using evict absent full tmp idx ne by (simp add: save_slot_def addr_order_def)
  qed
qed

lemma save_entry_fields [simp]:
  "remote_bd (save_entry a kt e) = a" "bond_state (save_entry a kt e) = 1"
  "key_type (save_entry a kt e) = kt"
  by (simp_all add: save_entry_def Let_def)

lemma entry_ok_save: "entry_ok (save_entry a kt e) \<longleftrightarrow> kt \<le> GAP_KEY_AUTHEN_P256"
  by (simp add: entry_ok_def)

lemma queue_ok_ftl_put [simp]: "queue_ok t (ftl_put w cb) = queue_ok t cb"
  by (simp add: queue_ok_def)

lemma bond_order_ftl_put [simp]: "bond_order t (ftl_put w cb) = bond_order t cb"
  by (simp add: bond_order_def)

text \<open>With a working flash, saving writes the record and the key and then adds the slot to the queue.\<close>

lemma save_bond_slot:
  assumes ok: "legacy_ok db" and wr: "\<And>w. wr w"
    and slot: "save_slot a db = Some (Some i)" and i: "unat i < unat (bt_legacy_bond_store_number db)"
    and room: "i \<in> set (legacy_order db) \<or> length (legacy_order db) < unat (bt_legacy_bond_store_number db)"
  obtains cb' where
    "bt_legacy_save_bond wr (Some a) (Some k) kt db =
       Some (True, put_entry i (save_entry a kt (bt_legacy_bond_store_table db ! unat i)) cb' db)"
    "queue_ok LEGACY_BT_DEV cb'" "max_paired LEGACY_BT_DEV cb' = max_paired LEGACY_BT_DEV (bond_cb db)"
    "bond_order LEGACY_BT_DEV cb' =
       lru_spec (unat (bt_legacy_bond_store_number db)) (Add i) (legacy_order db)"
    "bt_bond_priority_queue_add LEGACY_BT_DEV i
       (ftl_put (WLinkKey i (take 16 k))
         (ftl_put (WRemoteBd i (save_entry a kt (bt_legacy_bond_store_table db ! unat i))) (bond_cb db)))
       = Some (True, cb')"
proof -
  note f = legacy_ok_facts [OF ok]
  define e where "e = save_entry a kt (bt_legacy_bond_store_table db ! unat i)"
  define cb1 where "cb1 = ftl_put (WRemoteBd i e) (bond_cb db)"
  define cb2 where "cb2 = ftl_put (WLinkKey i (take 16 k)) cb1"
  have q2: "queue_ok LEGACY_BT_DEV cb2" "bond_order LEGACY_BT_DEV cb2 = legacy_order db"
    "max_paired LEGACY_BT_DEV cb2 = bt_legacy_bond_store_number db"
    using f(1,3) by (simp_all add: cb2_def cb1_def)
  obtain cb' where cb': "bt_bond_priority_queue_add LEGACY_BT_DEV i cb2 = Some (True, cb')"
      "queue_ok LEGACY_BT_DEV cb'" "unat (max_paired LEGACY_BT_DEV cb') = unat (bt_legacy_bond_store_number db)"
      "bond_order LEGACY_BT_DEV cb' = lru_spec (unat (bt_legacy_bond_store_number db)) (Add i) (legacy_order db)"
    using bond.exec_refines [OF q2(1), of "Add i"] q2 room by auto
  have nlt: "\<not> max_legacy_paired_device (otp_cfg (bond_cb db)) \<le> i"
    using i f(2) by (simp add: word_le_nat_alt)
  have s1: "ftl_save_legacy_remote_bd wr e i (bond_cb db) = (0, cb1)"
    using wr nlt f(9) by (simp add: ftl_save_legacy_remote_bd_def imp_ftl_save_def cb1_def)
  have s2: "ftl_save_legacy_link_key wr (take 16 k) i cb1 = (0, cb2)"
    using wr nlt f(9) by (simp add: ftl_save_legacy_link_key_def imp_ftl_save_def cb1_def cb2_def)
  have "bt_legacy_save_bond wr (Some a) (Some k) kt db = Some (True, put_entry i e cb' db)"
    using i f(4) slot s1 s2 cb'(1)
    by (simp add: bt_legacy_save_bond_def arr_simps Let_def e_def [symmetric] put_entry_def)
  then show thesis using that [of cb'] cb' f(3)
    by (simp add: e_def cb2_def cb1_def word_unat_eq_iff)
qed

text \<open>The addresses in order, when slot \<open>i\<close> has been given to the device \<open>a\<close> and moved to the end.\<close>

lemma map_put_entry:
  assumes "unat i < length (bt_legacy_bond_store_table db)" "i \<notin> set q"
  shows "map (entry_addr (put_entry i e cb db)) (q @ [i]) = map (entry_addr db) q @ [remote_bd e]"
  using assms by (auto simp: put_entry_addr)

lemma save_bond_refines:
  assumes ok: "legacy_ok db" and wr: "\<And>w. wr w" and n0: "0 < bt_legacy_bond_store_number db"
  shows "\<exists>db'. bt_legacy_save_bond wr (Some a) (Some k) kt db = Some (True, db') \<and> legacy_ok db'
     \<and> bt_legacy_bond_store_number db' = bt_legacy_bond_store_number db
     \<and> addr_order db' = lru_save (unat (bt_legacy_bond_store_number db)) a (addr_order db)
     \<and> (\<exists>i. bt_legacy_get_paired_idx (Some a) db' = Some (Some i)
           \<and> saved_key i (ftl_log (bond_cb db')) = Some (take 16 k)
           \<and> key_type (bt_legacy_bond_store_table db' ! unat i) = kt)
     \<and> (flash_ok db \<and> kt \<le> GAP_KEY_AUTHEN_P256 \<longrightarrow> flash_ok db')"
proof -
  note f = legacy_ok_facts [OF ok]
  let ?n = "unat (bt_legacy_bond_store_number db)" and ?q = "legacy_order db"
  have "\<exists>i. save_slot a db = Some (Some i) \<and> unat i < ?n \<and> (i \<in> set ?q \<or> length ?q < ?n)
      \<and> (\<forall>j \<in> set ?q. j \<noteq> i \<longrightarrow> entry_addr db j \<noteq> a)
      \<and> map (entry_addr db) (remove1 i ?q) @ [a] = lru_save ?n a (addr_order db)"
  proof (rule save_slot_cases [OF ok n0, of a])
    fix i assume i: "save_slot a db = Some (Some i)" "i \<in> set ?q" "entry_addr db i = a"
      "a \<in> set (addr_order db)"
    moreover have "map (entry_addr db) (remove1 i ?q) = remove1 a (addr_order db)"
      using i f(6) by (simp add: map_remove1_inj addr_order_def)
    ultimately show ?thesis using f(5,6) by (auto simp: lru_save_def inj_on_def)
  next
    fix i assume "save_slot a db = Some (Some i)" "i \<notin> set ?q" "unat i < ?n"
      "a \<notin> set (addr_order db)" "length (addr_order db) < ?n"
    then show ?thesis by (auto simp: lru_save_def addr_order_def remove1_idem)
  next
    assume *: "save_slot a db = Some (Some (hd ?q))" "?q \<noteq> []" "a \<notin> set (addr_order db)"
      "length (addr_order db) = ?n"
    then have "hd ?q \<in> set ?q" by simp
    then have "unat (hd ?q) < ?n" using f(5) by blast
    moreover have "remove1 (hd ?q) ?q = tl ?q" using *(2) by (cases ?q) auto
    ultimately show ?thesis using * by (intro exI [of _ "hd ?q"]) (auto simp: lru_save_def addr_order_def map_tl)
  qed
  then obtain i where i: "save_slot a db = Some (Some i)" "unat i < ?n" "i \<in> set ?q \<or> length ?q < ?n"
      "\<forall>j \<in> set ?q. j \<noteq> i \<longrightarrow> entry_addr db j \<noteq> a"
      "map (entry_addr db) (remove1 i ?q) @ [a] = lru_save ?n a (addr_order db)"
    by blast
  define e where "e = save_entry a kt (bt_legacy_bond_store_table db ! unat i)"
  obtain cb' where cb': "bt_legacy_save_bond wr (Some a) (Some k) kt db = Some (True, put_entry i e cb' db)"
    "queue_ok LEGACY_BT_DEV cb'" "max_paired LEGACY_BT_DEV cb' = max_paired LEGACY_BT_DEV (bond_cb db)"
    "bond_order LEGACY_BT_DEV cb' = lru_spec ?n (Add i) ?q"
    "bt_bond_priority_queue_add LEGACY_BT_DEV i
       (ftl_put (WLinkKey i (take 16 k)) (ftl_put (WRemoteBd i e) (bond_cb db))) = Some (True, cb')"
    by (rule save_bond_slot [where wr = wr, OF ok wr i(1-3), of k kt]) (simp_all add: e_def)
  let ?db = "put_entry i e cb' db"
  have il: "unat i < length (bt_legacy_bond_store_table db)" using i(2) f(4) by simp
  have spec: "lru_spec ?n (Add i) ?q = remove1 i ?q @ [i]" using i(3) by (auto simp: remove1_idem)
  have ok': "legacy_ok ?db"
    using i(4) f(8) spec
    by (intro legacy_ok_put [OF ok i(2) cb'(2,3)]) (auto simp: cb'(4) e_def)
  have ord: "addr_order ?db = lru_save ?n a (addr_order db)"
  proof -
    have o: "legacy_order ?db = remove1 i ?q @ [i]" using cb'(4) spec by (simp add: put_entry_def)
    show ?thesis unfolding addr_order_def o i(5) [symmetric, unfolded addr_order_def]
      using f(8) by (subst map_put_entry [OF il]) (simp_all add: e_def)
  qed
  have own: "bt_legacy_get_paired_idx (Some a) ?db = Some (Some i)"
  proof (rule paired_idx_cases [OF ok', of a])
    assume "a \<notin> set (addr_order ?db)"
    then show ?thesis unfolding ord by (auto simp: lru_save_def split: if_splits)
  next
    fix j assume "bt_legacy_get_paired_idx (Some a) ?db = Some (Some j)" "j \<in> set (legacy_order ?db)"
      "entry_addr ?db j = a"
    moreover have "entry_addr ?db i = a" using il by (simp add: put_entry_addr e_def)
    moreover have "i \<in> set (legacy_order ?db)" using cb'(4) spec by (simp add: put_entry_def)
    ultimately show ?thesis using legacy_ok_facts(6) [OF ok'] by (auto simp: inj_on_def)
  qed
  have ext: "bond_exec LEGACY_BT_DEV (Add i)
      (ftl_put (WLinkKey i (take 16 k)) (ftl_put (WRemoteBd i e) (bond_cb db))) = Some (True, cb')"
    using cb'(5) by simp
  have log: "saved_key i (ftl_log cb') = Some (take 16 k)"
    using saved_key_ext [OF disjI1, OF bond_log_ext [OF ext], of i]
    by simp
  have fl: "flash_ok ?db" if "flash_ok db" "kt \<le> GAP_KEY_AUTHEN_P256"
    using that f(4) saved_bd_ext [OF disjI1, OF bond_log_ext [OF ext]]
      bond_exec_synced [OF _ ext, of LEGACY_BT_DEV]
    by (intro flash_ok_put) (auto simp: flash_ok_def entry_ok_save e_def)
  show ?thesis using cb'(1) ok' ord own log il fl
    by (intro exI [of _ ?db]) (auto simp: put_entry_def e_def)
qed

lemma entry_ok_zero: "entry_ok zero_info"
  by (simp add: entry_ok_def zero_info_def)

section \<open>Operations that only log\<close>

text \<open>\<open>cb'\<close> differs from \<open>cb\<close> by records with \<open>P\<close> written to flash.\<close>

definition logs_on :: "(ftl_write \<Rightarrow> bool) \<Rightarrow> bond_cb \<Rightarrow> bond_cb \<Rightarrow> bool" where
  "logs_on P cb cb' \<longleftrightarrow> log_ext P cb cb' \<and> cb' = cb\<lparr>ftl_log := ftl_log cb'\<rparr>"

lemma logs_on_refl [intro, simp]: "logs_on P cb cb"
  by (simp add: logs_on_def log_ext_def)

lemma logs_on_trans [trans]: "logs_on P a b \<Longrightarrow> logs_on P b c \<Longrightarrow> logs_on P a c"
  using log_ext_trans [of P a b c] by (cases a; cases b; cases c) (simp add: logs_on_def)

lemma logs_on_frame:
  assumes "logs_on P cb cb'"
  shows "queue_ok t cb' = queue_ok t cb" "bond_order t cb' = bond_order t cb"
    "cb_alloc cb' = cb_alloc cb" "otp_cfg cb' = otp_cfg cb" "max_paired t cb' = max_paired t cb"
    "sort_of t cb' = sort_of t cb"
  using assms
  by (cases cb; cases cb'; cases t; simp add: logs_on_def queue_ok_def bond_order_def sort_of_def max_paired_def)+

lemma logs_on_save:
  "logs_on is_aux cb (snd (ftl_save_cccd wr t i cb))"
  "logs_on is_aux cb (snd (ftl_save_remote_client_supported_features wr t i cb))"
  by (auto simp: ftl_save_cccd_def imp_ftl_save_def ftl_put_def logs_on_def log_ext_def
      ftl_save_remote_client_supported_features_def split: option.split)

lemma logs_on_remove: "logs_on is_aux cb (snd (bt_bond_remove wr feat t i cb))"
proof -
  let ?cb1 = "if feat then snd (ftl_save_remote_client_supported_features wr LE_BT_DEV i cb) else cb"
  have "logs_on is_aux cb ?cb1" by (simp add: logs_on_save(2))
  also have "logs_on is_aux ?cb1 (snd (ftl_save_cccd wr t i ?cb1))" by (rule logs_on_save(1))
  finally show ?thesis by (simp add: bt_bond_remove_def Let_def)
qed

lemma save_bd_put:
  assumes "cb_alloc cb" "unat i < unat (max_paired LEGACY_BT_DEV cb)"
  shows "snd (ftl_save_legacy_remote_bd wr d i cb) = ftl_put (WRemoteBd i d) cb"
  using assms by (simp add: ftl_save_legacy_remote_bd_def imp_ftl_save_def max_paired_def word_le_nat_alt)

lemma erase_slot:
  assumes "cb_alloc cb" "unat i < unat (max_paired LEGACY_BT_DEV cb)"
  shows "logs_on is_aux (ftl_put (WRemoteBd i d) cb)
    (if ext then snd (bt_bond_remove wr feat t i (snd (ftl_save_legacy_remote_bd wr d i cb)))
     else snd (ftl_save_legacy_remote_bd wr d i cb))"
  using assms logs_on_remove by (simp add: save_bd_put)

text \<open>The queue, its bound and the newest records are those of the block before such writes.\<close>

lemma logs_on_flash:
  assumes "logs_on is_aux cb cb'"
  shows "synced t cb' = synced t cb" "saved_bd i (ftl_log cb') = saved_bd i (ftl_log cb)"
    "saved_key i (ftl_log cb') = saved_key i (ftl_log cb)"
  using assms synced_ext [of cb cb' t] saved_bd_ext [of cb cb' i] saved_key_ext [of cb cb' i]
  by (auto simp: logs_on_frame [OF assms] synced_def logs_on_def)

lemma clear_fold:
  fixes wr feat k cb
  defines "cb' \<equiv> fold (clear_one wr feat) [0..<k] cb"
  assumes "cb_alloc cb" "k \<le> unat (max_paired LEGACY_BT_DEV cb)"
  shows "queue_ok t cb' = queue_ok t cb \<and> bond_order t cb' = bond_order t cb \<and> cb_alloc cb'
    \<and> otp_cfg cb' = otp_cfg cb \<and> max_paired t cb' = max_paired t cb \<and> synced t cb' = synced t cb
    \<and> (\<forall>i. unat i < k \<longrightarrow> saved_bd i (ftl_log cb') = Some zero_info)"
  using assms(3) unfolding cb'_def
proof (induction k)
  case 0
  then show ?case using assms(2) by simp
next
  case (Suc k)
  define c where "c = fold (clear_one wr feat) [0..<k] cb"
  have c: "queue_ok t c = queue_ok t cb" "bond_order t c = bond_order t cb" "cb_alloc c"
    "otp_cfg c = otp_cfg cb" "max_paired t c = max_paired t cb" "synced t c = synced t cb"
    "\<And>i. unat i < k \<Longrightarrow> saved_bd i (ftl_log c) = Some zero_info"
    using Suc.IH Suc.prems by (simp_all add: c_def)
  have mx: "max_paired LEGACY_BT_DEV c = max_paired LEGACY_BT_DEV cb" using c(4) by (simp add: max_paired_def)
  have "k < 256" using Suc.prems unsigned_less [of "max_paired LEGACY_BT_DEV cb", where ?'a = nat] by simp
  then have u: "unat (of_nat k :: u8) = k" by (simp add: unat_of_nat)
  have l: "logs_on is_aux (ftl_put (WRemoteBd (of_nat k) zero_info) c) (clear_one wr feat k c)"
    unfolding clear_one_def Let_def using c(3) Suc.prems u by (intro erase_slot) (simp_all add: mx)
  show ?case
    using c Suc.prems u
    by (auto simp: c_def [symmetric] logs_on_frame [OF l] logs_on_flash [OF l] less_Suc_eq word_unat_eq_iff)
qed

section \<open>Removing, promoting, clearing, reading\<close>

lemma delete_bond_refines:
  assumes ok: "legacy_ok db"
  shows "\<exists>db'. bt_legacy_delete_bond wr (Some a) db = Some (a \<in> set (addr_order db), db')
     \<and> legacy_ok db' \<and> bt_legacy_bond_store_number db' = bt_legacy_bond_store_number db
     \<and> addr_order db' = remove1 a (addr_order db) \<and> (flash_ok db \<longrightarrow> flash_ok db')"
proof (rule paired_idx_cases [OF ok, of a])
  assume "a \<notin> set (addr_order db)" "bt_legacy_get_paired_idx (Some a) db = Some None"
  then show ?thesis using ok legacy_ok_facts(9) [OF ok] by (simp add: bt_legacy_delete_bond_def remove1_idem)
next
  fix i assume i: "a \<in> set (addr_order db)" "bt_legacy_get_paired_idx (Some a) db = Some (Some i)"
    "i \<in> set (legacy_order db)" "entry_addr db i = a"
  note f = legacy_ok_facts [OF ok]
  have il: "unat i < unat (bt_legacy_bond_store_number db)" "unat i < length (bt_legacy_bond_store_table db)"
    using i(3) f(4,5) by auto
  obtain cb1 where cb1: "bt_bond_priority_queue_delete LEGACY_BT_DEV i (bond_cb db) = Some (True, cb1)"
      "queue_ok LEGACY_BT_DEV cb1" "unat (max_paired LEGACY_BT_DEV cb1) = unat (max_paired LEGACY_BT_DEV (bond_cb db))"
      "bond_order LEGACY_BT_DEV cb1 = remove1 i (legacy_order db)"
    using bond.exec_refines [OF f(1), of "Delete i"] i(3) by auto
  have mx: "max_paired LEGACY_BT_DEV cb1 = bt_legacy_bond_store_number db"
    using cb1(3) f(3) by (simp add: word_unat_eq_iff)
  define cb2 where "cb2 = snd (ftl_save_legacy_remote_bd wr zero_info i cb1)"
  define cb3 where "cb3 = (if bredr_ext_info_storage (otp_cfg cb2)
    then snd (bt_bond_remove wr (bond_feat_5_1 db) LEGACY_BT_DEV i cb2) else cb2)"
  have l: "logs_on is_aux (ftl_put (WRemoteBd i zero_info) cb1) cb3"
    unfolding cb3_def cb2_def using cb1(2) mx il(1) by (intro erase_slot) (simp_all add: queue_ok_def)
  have ext: "bond_exec LEGACY_BT_DEV (Delete i) (bond_cb db) = Some (True, cb1)" using cb1(1) by simp
  have "flash_ok (put_entry i zero_info cb3 db)" if "flash_ok db"
    using that f(4) logs_on_flash [OF l] saved_bd_ext [OF disjI1, OF bond_log_ext [OF ext]]
      bond_exec_synced [OF _ ext, of LEGACY_BT_DEV]
    by (intro flash_ok_put) (auto simp: flash_ok_def entry_ok_zero)
  moreover let ?db = "put_entry i zero_info cb3 db"
  have "bt_legacy_delete_bond wr (Some a) db = Some (True, ?db)"
    using i(2) f(9) cb1(1) il(2)
    by (simp add: bt_legacy_delete_bond_def arr_simps Let_def cb2_def [symmetric] cb3_def put_entry_def)
  moreover have "legacy_ok ?db"
    using cb1 f(8) logs_on_frame [OF l]
    by (intro legacy_ok_put [OF ok il(1)]) (auto simp: zero_info_def word_unat_eq_iff)
  moreover have "addr_order ?db = remove1 a (addr_order db)"
  proof -
    have "legacy_order ?db = remove1 i (legacy_order db)"
      using logs_on_frame(2) [OF l] cb1(4) by (simp add: put_entry_def)
    then have "addr_order ?db = map (entry_addr db) (remove1 i (legacy_order db))"
      using f(8) il(2) by (auto simp: addr_order_def put_entry_addr)
    then show ?thesis using i(3,4) f(6) by (simp add: map_remove1_inj addr_order_def)
  qed
  ultimately show ?thesis using i(1) by (intro exI [of _ ?db]) (simp add: put_entry_def)
qed

lemma legacy_ok_same_table:
  assumes ok: "legacy_ok db" and q: "queue_ok LEGACY_BT_DEV cb'"
    and mx: "unat (max_paired LEGACY_BT_DEV cb') = unat (max_paired LEGACY_BT_DEV (bond_cb db))"
    and st: "set (bond_order LEGACY_BT_DEV cb') = set (legacy_order db)"
  shows "legacy_ok (db\<lparr>bond_cb := cb'\<rparr>)"
proof -
  have e: "entry_addr (db\<lparr>bond_cb := cb'\<rparr>) = entry_addr db" by (simp add: entry_addr_def fun_eq_iff)
  show ?thesis using legacy_ok_facts [OF ok] q mx st
    by (simp add: legacy_ok_def max_paired_def bonded_at_def word_unat_eq_iff e)
qed

lemma adjust_refines:
  assumes ok: "legacy_ok db"
  shows "\<exists>db'. bt_legacy_adjust_dev_priority (Some a) db = Some (a \<in> set (addr_order db), db')
     \<and> legacy_ok db' \<and> bt_legacy_bond_store_number db' = bt_legacy_bond_store_number db
     \<and> addr_order db' = lru_spec n (Promote a) (addr_order db) \<and> (flash_ok db \<longrightarrow> flash_ok db')"
proof (rule paired_idx_cases [OF ok, of a])
  assume "a \<notin> set (addr_order db)" "bt_legacy_get_paired_idx (Some a) db = Some None"
  then show ?thesis using ok by (simp add: bt_legacy_adjust_dev_priority_def)
next
  fix i assume i: "a \<in> set (addr_order db)" "bt_legacy_get_paired_idx (Some a) db = Some (Some i)"
    "i \<in> set (legacy_order db)" "entry_addr db i = a"
  note f = legacy_ok_facts [OF ok]
  obtain cb1 where cb1: "bt_bond_set_high_priority LEGACY_BT_DEV i (bond_cb db) = Some (True, cb1)"
      "queue_ok LEGACY_BT_DEV cb1" "unat (max_paired LEGACY_BT_DEV cb1) = unat (max_paired LEGACY_BT_DEV (bond_cb db))"
      "bond_order LEGACY_BT_DEV cb1 = remove1 i (legacy_order db) @ [i]"
    using bond.exec_refines [OF f(1), of "Promote i"] i(3) by auto
  have ext: "bond_exec LEGACY_BT_DEV (Promote i) (bond_cb db) = Some (True, cb1)" using cb1(1) by simp
  have "flash_ok (db\<lparr>bond_cb := cb1\<rparr>)" if "flash_ok db"
    using that saved_bd_ext [OF disjI1, OF bond_log_ext [OF ext]]
      bond_exec_synced [OF _ ext, of LEGACY_BT_DEV] by (auto simp: flash_ok_def)
  moreover have "legacy_ok (db\<lparr>bond_cb := cb1\<rparr>)"
    using cb1 i(3) f(8) by (intro legacy_ok_same_table [OF ok]) auto
  moreover have "addr_order (db\<lparr>bond_cb := cb1\<rparr>) = remove1 a (addr_order db) @ [a]"
    using i(3,4) f(6) map_remove1_inj [of "entry_addr db" "legacy_order db" i]
    by (simp add: addr_order_def cb1(4) entry_addr_def [abs_def])
  moreover have "bt_legacy_adjust_dev_priority (Some a) db = Some (True, db\<lparr>bond_cb := cb1\<rparr>)"
    using i(2) cb1(1) by (simp add: bt_legacy_adjust_dev_priority_def)
  ultimately show ?thesis using i(1) by simp
qed

lemma clear_all_refines:
  assumes ok: "legacy_ok db"
  shows "\<exists>db'. bt_legacy_clear_all_keys wr db = Some db' \<and> legacy_ok db'
     \<and> bt_legacy_bond_store_number db' = bt_legacy_bond_store_number db \<and> addr_order db' = []
     \<and> (synced LEGACY_BT_DEV (bond_cb db) \<longrightarrow> flash_ok db')"
proof -
  note f = legacy_ok_facts [OF ok]
  let ?n = "unat (bt_legacy_bond_store_number db)"
  define cb1 where "cb1 = bt_bond_priority_queue_clear LEGACY_BT_DEV (bond_cb db)"
  define cb2 where "cb2 = fold (clear_one wr (bond_feat_5_1 db)) [0..<?n] cb1"
  have q: "queue_ok LEGACY_BT_DEV cb1" "max_paired LEGACY_BT_DEV cb1 = bt_legacy_bond_store_number db"
    "bond_order LEGACY_BT_DEV cb1 = []"
    using clear_refines [OF f(1)] f(3) by (simp_all add: cb1_def)
  have c: "queue_ok LEGACY_BT_DEV cb2" "max_paired LEGACY_BT_DEV cb2 = bt_legacy_bond_store_number db"
    "bond_order LEGACY_BT_DEV cb2 = []" "synced LEGACY_BT_DEV cb2 = synced LEGACY_BT_DEV cb1"
    "\<And>i. unat i < ?n \<Longrightarrow> saved_bd i (ftl_log cb2) = Some zero_info"
    using clear_fold [where cb = cb1 and k = ?n and wr = wr and feat = "bond_feat_5_1 db" and t = LEGACY_BT_DEV] q
      queue_ok_facts [OF q(1)]
    by (simp_all add: cb2_def)
  have s: "synced LEGACY_BT_DEV cb1" if "synced LEGACY_BT_DEV (bond_cb db)"
    using bond_exec_synced [OF that, where t = LEGACY_BT_DEV and a = Clear] by (simp add: cb1_def)
  let ?db = "db\<lparr>bt_legacy_bond_store_table := replicate ?n zero_info, bond_cb := cb2\<rparr>"
  have "bt_legacy_clear_all_keys wr db = Some ?db"
    using f(4,9) by (simp add: bt_legacy_clear_all_keys_def arr_upto_def cb1_def cb2_def Let_def)
  moreover have "legacy_ok ?db" "addr_order ?db = []"
    using c by (auto simp: legacy_ok_def addr_order_def bonded_at_def zero_info_def max_paired_def)
  moreover have "flash_ok ?db" if "synced LEGACY_BT_DEV (bond_cb db)"
    using c s [OF that] by (simp add: flash_ok_def entry_ok_zero)
  ultimately show ?thesis by simp
qed

text \<open>Reading the key back, when the flash returns the newest key written to a slot.\<close>

lemma get_bond_present:
  assumes ok: "legacy_ok db" and i: "bt_legacy_get_paired_idx (Some a) db = Some (Some i)"
    and k: "saved_key i (ftl_log (bond_cb db)) = Some k"
  shows "bt_legacy_get_bond (\<lambda>j. saved_key j (ftl_log (bond_cb db))) (Some a) (Some buf) db
    = Some (Some (k, key_type (bt_legacy_bond_store_table db ! unat i)))"
proof -
  note f = legacy_ok_facts [OF ok]
  have "i \<in> set (legacy_order db)" by (rule paired_idx_cases [OF ok, of a]) (use i in auto)
  then have il: "unat i < unat (bt_legacy_bond_store_number db)" using f(5) by blast
  then have "\<not> max_legacy_paired_device (otp_cfg (bond_cb db)) \<le> i" using f(2) by (simp add: word_le_nat_alt)
  then show ?thesis using i k f(4,9) il
    by (simp add: bt_legacy_get_bond_def ftl_load_legacy_link_key_def arr_simps)
qed

lemma bond_num_eq:
  assumes ok: "legacy_ok db"
  shows "bt_legacy_get_bond_num db = Some (of_nat (length (addr_order db)))"
proof -
  note f = legacy_ok_facts [OF ok]
  let ?t = "bt_legacy_bond_store_table db" and ?n = "unat (bt_legacy_bond_store_number db)"
  have "length (filter (\<lambda>e. bond_state e \<noteq> 0) ?t) = card {k. k < ?n \<and> bonded_at db k}"
    using f(4) by (simp add: length_filter_conv_card bonded_at_def)
  also have "{k. k < ?n \<and> bonded_at db k} = unat ` set (legacy_order db)"
  proof (intro equalityI subsetI)
    fix k assume "k \<in> {k. k < ?n \<and> bonded_at db k}"
    then have "(of_nat k :: u8) \<in> set (legacy_order db)" "unat (of_nat k :: u8) = k"
      using f(5,7) by (auto simp: u8_small)
    then show "k \<in> unat ` set (legacy_order db)" by force
  qed (use f(5) in auto)
  also have "card \<dots> = length (legacy_order db)"
    using distinct_card [OF f(8)] by (subst card_image) (simp_all add: inj_on_def word_unat_eq_iff)
  finally show ?thesis using f(4) by (simp add: bt_legacy_get_bond_num_def arr_upto_def addr_order_def)
qed

section \<open>The flag of a device\<close>

lemma set_flag_refines:
  assumes ok: "legacy_ok db"
  shows "\<exists>db'. bt_legacy_set_bond_flag wr (Some a) x db = Some (a \<in> set (addr_order db), db')
     \<and> legacy_ok db' \<and> bt_legacy_bond_store_number db' = bt_legacy_bond_store_number db
     \<and> addr_order db' = addr_order db \<and> (flash_ok db \<longrightarrow> flash_ok db')
     \<and> (a \<in> set (addr_order db) \<longrightarrow> bt_legacy_get_bond_flag (Some a) db' = Some (Some x))"
proof (rule paired_idx_cases [OF ok, of a])
  assume "a \<notin> set (addr_order db)" "bt_legacy_get_paired_idx (Some a) db = Some None"
  then show ?thesis using ok by (simp add: bt_legacy_set_bond_flag_def)
next
  fix i assume i: "a \<in> set (addr_order db)" "bt_legacy_get_paired_idx (Some a) db = Some (Some i)"
    "i \<in> set (legacy_order db)" "entry_addr db i = a"
  note f = legacy_ok_facts [OF ok]
  have il: "unat i < unat (bt_legacy_bond_store_number db)" "unat i < length (bt_legacy_bond_store_table db)"
    "bonded_at db (unat i)" using i(3) f(4,5) by auto
  define e where "e = (bt_legacy_bond_store_table db ! unat i)\<lparr>bond_flag := x\<rparr>"
  define cb1 where "cb1 = ftl_put (WRemoteBd i e) (bond_cb db)"
  let ?db = "put_entry i e cb1 db"
  have e: "bond_state e \<noteq> 0" "remote_bd e = a"
    using il(3) i(4) by (simp_all add: e_def bonded_at_def entry_addr_def)
  have "bt_legacy_set_bond_flag wr (Some a) x db = Some (True, ?db)"
    using i(2) f(3,9) il
    by (simp add: bt_legacy_set_bond_flag_def arr_simps Let_def save_bd_put put_entry_def cb1_def e_def)
  moreover have "legacy_ok ?db"
    using e i(3,4) f(1,6)
    by (intro legacy_ok_put [OF ok il(1)]) (auto simp: cb1_def inj_on_def)
  moreover have ord: "addr_order ?db = addr_order db"
  proof -
    have "legacy_order ?db = legacy_order db" by (simp add: put_entry_def cb1_def)
    then show ?thesis using e(2) i(4) il(2) unfolding addr_order_def
      by (simp only:) (auto simp: put_entry_addr)
  qed
  moreover have "flash_ok ?db" if "flash_ok db"
    using that f(4) il(2) nth_mem [OF il(2)]
    by (intro flash_ok_put) (auto simp: flash_ok_def cb1_def entry_ok_def e_def)
  moreover have "bt_legacy_get_bond_flag (Some a) ?db = Some (Some x)"
  proof (rule paired_idx_cases [OF \<open>legacy_ok ?db\<close>, of a])
    fix j assume j: "bt_legacy_get_paired_idx (Some a) ?db = Some (Some j)" "j \<in> set (legacy_order ?db)"
      "entry_addr ?db j = a"
    have "legacy_order ?db = legacy_order db" by (simp add: put_entry_def cb1_def)
    then have "j = i" using j(2,3) i(3,4) f(6) il(2)
      by (auto simp: put_entry_addr inj_on_def split: if_splits)
    then show ?thesis using j(1) il(2)
      by (simp add: bt_legacy_get_bond_flag_def arr_simps put_entry_def e_def)
  qed (use i(1) ord in simp)
  ultimately show ?thesis using i(1) by (intro exI [of _ ?db]) (simp add: put_entry_def)
qed

section \<open>Starting up\<close>

lemma key_init_loop_loads:
  assumes "n = length T" "cb_alloc (bond_cb db)" "n \<le> unat (max_paired LEGACY_BT_DEV (bond_cb db))"
    and rd: "\<And>j. j < n \<Longrightarrow> rd_bd (of_nat j) = Some (T ! j) \<and> entry_ok (T ! j)"
    and "i \<le> n" "length X = n - i"
  shows "key_init_loop wr rd_bd i n (db\<lparr>bt_legacy_bond_store_table := take i T @ X\<rparr>)
    = Some (db\<lparr>bt_legacy_bond_store_table := T\<rparr>)"
  using assms(5,6)
proof (induction "n - i" arbitrary: i X)
  case 0
  then show ?case using assms(1) by (subst key_init_loop.simps) simp
next
  case (Suc m)
  then have i: "i < n" by simp
  then obtain x X' where X: "X = x # X'" using Suc.prems by (cases X) auto
  have "n < 256" using assms(3) unsigned_less [of "max_paired LEGACY_BT_DEV (bond_cb db)", where ?'a = nat] by simp
  then have u: "unat (of_nat i :: u8) = i" using i by (simp add: unat_of_nat)
  have "\<not> max_legacy_paired_device (otp_cfg (bond_cb db)) \<le> of_nat i"
    using i assms(3) u by (simp add: max_paired_def word_le_nat_alt)
  then have ld: "snd (ftl_load_legacy_remote_bd rd_bd x (of_nat i) (bond_cb db)) = T ! i"
    using rd [OF i] assms(2) by (simp add: ftl_load_legacy_remote_bd_def)
  have tk: "(take i T @ x # X')[i := T ! i] = take (Suc i) T @ X'"
    using i assms(1) by (simp add: take_Suc_conv_app_nth list_update_append)
  have gt: "arr_get (take i T @ x # X') i = Some x" using i assms(1) by (simp add: arr_get_def nth_append)
  have go: "\<not> (GAP_KEY_AUTHEN_P256 < key_type (T ! i)
     \<or> (bond_state (T ! i) \<noteq> BT_BOND_INFO_EXIST_FLAG \<and> bond_state (T ! i) \<noteq> 0))"
    using rd [OF i] by (auto simp: entry_ok_def)
  show ?case
    using Suc.hyps Suc.prems i go
    by (subst key_init_loop.simps) (auto simp: gt ld tk Let_def X)
qed

lemma key_init_loop_short:
  assumes "length (bt_legacy_bond_store_table db) < n" "unat (bt_legacy_bond_store_number db) = n"
    "cb_alloc (bond_cb db)" "i \<le> length (bt_legacy_bond_store_table db)"
  shows "key_init_loop wr rd_bd i n db = None"
  using assms
proof (induction wr rd_bd i n db rule: key_init_loop.induct)
  case (1 wr rd_bd i n db)
  show ?case
  proof (cases "i < length (bt_legacy_bond_store_table db)")
    case False
    then show ?thesis using "1.prems" by (subst key_init_loop.simps) (simp add: arr_simps)
  next
    case True
    define e where "e = snd (ftl_load_legacy_remote_bd rd_bd (bt_legacy_bond_store_table db ! i) (of_nat i) (bond_cb db))"
    define db1 where "db1 = db\<lparr>bt_legacy_bond_store_table := (bt_legacy_bond_store_table db)[i := e]\<rparr>"
    have "bt_legacy_clear_all_keys wr db1 = None"
      using "1.prems" by (simp add: db1_def bt_legacy_clear_all_keys_def arr_upto_def Let_def)
    moreover have "key_init_loop wr rd_bd (Suc i) n db1 = None"
      if "\<not> (GAP_KEY_AUTHEN_P256 < key_type e
           \<or> (bond_state e \<noteq> BT_BOND_INFO_EXIST_FLAG \<and> bond_state e \<noteq> 0))"
      using "1.IH" [of "bt_legacy_bond_store_table db ! i", OF _ _ refl refl] "1.prems" True that
      by (auto simp: arr_simps e_def [symmetric] db1_def)
    ultimately show ?thesis using True "1.prems"(1)
      by (subst key_init_loop.simps) (auto simp: arr_simps Let_def e_def [symmetric] db1_def [symmetric])
  qed
qed

text \<open>
  A restart keeps the flash and the configuration; \<open>m\<close>, \<open>tbl\<close> and \<open>p\<close> are whatever the memory
  holds then.
\<close>

definition restart :: "u8 \<Rightarrow> bond_info list \<Rightarrow> bond_priority \<Rightarrow> legacy_db \<Rightarrow> legacy_db" where
  "restart m tbl p db = db\<lparr>bt_legacy_bond_store_number := m, bt_legacy_bond_store_table := tbl,
     bond_cb := set_sort LEGACY_BT_DEV p (bond_cb db)\<rparr>"

lemma key_init_restores:
  assumes ok: "legacy_ok db" and fl: "flash_ok db"
    and n: "unat (bt_legacy_bond_store_number db) \<le> 12"
    and gbm: "\<not> gap_bond_manager (otp_cfg (bond_cb db))"
  shows "bt_legacy_key_init wr (\<lambda>i. saved_bd i (ftl_log (bond_cb db)))
    (last_saved LEGACY_BT_DEV (ftl_log (bond_cb db))) True (restart m tbl p db) = Some db"
proof -
  note f = legacy_ok_facts [OF ok]
  define N where "N = bt_legacy_bond_store_number db"
  define T where "T = bt_legacy_bond_store_table db"
  let ?rd = "\<lambda>i. saved_bd i (ftl_log (bond_cb db))"
  have sz: "unat (N * 20) div 20 = unat N"
    using n by (simp add: N_def unat_mult_lem [THEN iffD1] unat_word_ariths)
  have sy: "last_saved LEGACY_BT_DEV (ftl_log (bond_cb db)) = Some (sort_of LEGACY_BT_DEV (bond_cb db))"
    using fl by (simp add: flash_ok_def synced_def)
  have le: "\<not> 19 < bond_num (sort_of LEGACY_BT_DEV (bond_cb db))"
    using f(1) by (simp add: queue_ok_def prio_ok_def word_less_nat_alt)
  have "key_init_loop wr ?rd 0 (unat N) (db\<lparr>bt_legacy_bond_store_table := take 0 T @ replicate (unat N) zero_info\<rparr>)
    = Some (db\<lparr>bt_legacy_bond_store_table := T\<rparr>)"
  proof (rule key_init_loop_loads)
    show "unat N = length T" "cb_alloc (bond_cb db)" using f(4,9) by (simp_all add: N_def T_def)
    show "unat N \<le> unat (max_paired LEGACY_BT_DEV (bond_cb db))" using f(3) by (simp add: N_def)
    show "?rd (of_nat j) = Some (T ! j) \<and> entry_ok (T ! j)" if "j < unat N" for j
    proof -
      have "unat (of_nat j :: u8) = j" using that n by (simp add: N_def u8_small)
      then show ?thesis using that fl f(4) by (simp add: flash_ok_def N_def T_def)
    qed
  qed simp_all
  then have init: "key_init_loop wr ?rd 0 (unat N) (db\<lparr>bt_legacy_bond_store_table := replicate (unat N) zero_info\<rparr>) = Some db"
    by (simp add: T_def)
  have upd: "db\<lparr>bt_legacy_bond_store_number := max_legacy_paired_device (otp_cfg (bond_cb db)),
      bt_legacy_bond_store_table := X\<rparr> = db\<lparr>bt_legacy_bond_store_table := X\<rparr>" for X
    using f(2) by (cases db) simp
  show ?thesis
    using gbm f(2,9) sy le sz init
    by (simp add: upd bt_legacy_key_init_def restart_def Let_def bt_bond_priority_queue_init_def
        ftl_load_bond_priority_def N_def T_def)
qed

text \<open>
  With 13 to 18 slots the byte count \<open>20 * n\<close> does not fit into \<open>size\<close>, the table is too short
  and the loop runs past it.
\<close>

lemma key_init_short:
  assumes "cb_alloc (bond_cb db)" "\<not> gap_bond_manager (otp_cfg (bond_cb db))"
    and n: "13 \<le> max_legacy_paired_device (otp_cfg (bond_cb db))"
    and p: "bond_num p \<le> 19"
  shows "bt_legacy_key_init wr rd_bd (Some p) True db = None"
proof -
  define N where "N = max_legacy_paired_device (otp_cfg (bond_cb db))"
  have "unat (N * 20) div 20 < unat N"
  proof -
    have "unat (N * 20) < 256" using unsigned_less [of "N * 20", where ?'a = nat] by simp
    moreover have "13 \<le> unat N" using n by (simp add: N_def word_le_nat_alt)
    ultimately show ?thesis by simp
  qed
  then show ?thesis
    using assms(1,2) p
    by (simp add: bt_legacy_key_init_def Let_def bt_bond_priority_queue_init_def N_def
        ftl_load_bond_priority_def key_init_loop_short leD)
qed

section \<open>The table against its specification\<close>

text \<open>The BR/EDR link key types of \<open>gap.h\<close>.\<close>

datatype gap_key_type = KEY_COMBINATION | KEY_LOCAL_UNIT | KEY_REMOTE_UNIT | KEY_DEBUG_COMBINATION
  | KEY_UNAUTHEN | KEY_AUTHEN | KEY_CHANGED_COMBINATION | KEY_UNAUTHEN_P256 | KEY_AUTHEN_P256

fun key_code :: "gap_key_type \<Rightarrow> u8" where
  "key_code KEY_COMBINATION = 0"
| "key_code KEY_LOCAL_UNIT = 1"
| "key_code KEY_REMOTE_UNIT = 2"
| "key_code KEY_DEBUG_COMBINATION = 3"
| "key_code KEY_UNAUTHEN = 4"
| "key_code KEY_AUTHEN = 5"
| "key_code KEY_CHANGED_COMBINATION = 6"
| "key_code KEY_UNAUTHEN_P256 = GAP_KEY_UNAUTHEN_P256"
| "key_code KEY_AUTHEN_P256 = GAP_KEY_AUTHEN_P256"

lemma key_code_le: "key_code t \<le> GAP_KEY_AUTHEN_P256"
  by (cases t) simp_all

datatype legacy_op = Save_Bond "u8 list" "u8 list" gap_key_type
  | Delete_Bond "u8 list" | Adjust_Priority "u8 list" | Set_Flag "u8 list" u32 | Clear_All

text \<open>The operations the application reaches through \<open>legacy_bond\<close>, on a flash that works.\<close>

fun legacy_exec :: "legacy_op \<Rightarrow> legacy_db \<Rightarrow> (bool \<times> legacy_db) option" where
  "legacy_exec (Save_Bond a k t) db = bt_legacy_save_bond (\<lambda>_. True) (Some a) (Some k) (key_code t) db"
| "legacy_exec (Delete_Bond a) db = bt_legacy_delete_bond (\<lambda>_. True) (Some a) db"
| "legacy_exec (Adjust_Priority a) db = bt_legacy_adjust_dev_priority (Some a) db"
| "legacy_exec (Set_Flag a x) db = bt_legacy_set_bond_flag (\<lambda>_. True) (Some a) x db"
| "legacy_exec Clear_All db = map_option (Pair True) (bt_legacy_clear_all_keys (\<lambda>_. True) db)"

fun legacy_spec :: "nat \<Rightarrow> legacy_op \<Rightarrow> u8 list list \<Rightarrow> bool \<times> u8 list list" where
  "legacy_spec n (Save_Bond a k t) q = (True, lru_save n a q)"
| "legacy_spec n (Delete_Bond a) q = (a \<in> set q, remove1 a q)"
| "legacy_spec n (Adjust_Priority a) q = (a \<in> set q, if a \<in> set q then remove1 a q @ [a] else q)"
| "legacy_spec n (Set_Flag a x) q = (a \<in> set q, q)"
| "legacy_spec n Clear_All q = (True, [])"

definition legacy_inv :: "nat \<Rightarrow> legacy_db \<Rightarrow> bool" where
  "legacy_inv n db \<longleftrightarrow> legacy_ok db \<and> flash_ok db \<and> 0 < n \<and> unat (bt_legacy_bond_store_number db) = n"

lemma legacy_step:
  assumes "legacy_inv n db"
  shows "\<exists>r db'. legacy_exec a db = Some (r, db') \<and> legacy_inv n db'
     \<and> (r, addr_order db') = legacy_spec n a (addr_order db)"
proof -
  have i: "legacy_ok db" "flash_ok db" "0 < bt_legacy_bond_store_number db"
      "unat (bt_legacy_bond_store_number db) = n" "0 < n" "synced LEGACY_BT_DEV (bond_cb db)"
    using assms by (auto simp: legacy_inv_def word_less_nat_alt flash_ok_def)
  show ?thesis
  proof (cases a)
    case (Save_Bond b k t)
    then show ?thesis
      using save_bond_refines [where wr = "\<lambda>_. True", OF i(1) _ i(3), of b k "key_code t"] i key_code_le [of t]
      by (auto simp: legacy_inv_def)
  next
    case (Delete_Bond b)
    then show ?thesis using delete_bond_refines [OF i(1), of "\<lambda>_. True" b] i by (auto simp: legacy_inv_def)
  next
    case (Adjust_Priority b)
    then show ?thesis using adjust_refines [OF i(1), of b n] i by (auto simp: legacy_inv_def)
  next
    case (Set_Flag b x)
    then show ?thesis using set_flag_refines [OF i(1), of "\<lambda>_. True" b x] i by (auto simp: legacy_inv_def)
  next
    case Clear_All
    then show ?thesis using clear_all_refines [OF i(1), of "\<lambda>_. True"] i by (auto simp: legacy_inv_def)
  qed
qed

interpretation legacy: refinement legacy_exec addr_order "legacy_inv n" "legacy_spec n" for n
  by unfold_locales (rule legacy_step)

text \<open>No operation touches the configuration.\<close>

lemma bond_exec_otp: "bond_exec t a cb = Some (b, cb') \<Longrightarrow> otp_cfg cb' = otp_cfg cb"
  by (cases a)
    (auto simp: bt_bond_priority_queue_add_def bt_bond_set_high_priority_def Let_def
      bt_bond_priority_queue_delete_def bt_bond_priority_queue_clear_def ftl_save_bond_priority_def
      split: option.splits if_splits bind_splits)

lemma save_otp [simp]:
  "otp_cfg (snd (ftl_save_legacy_remote_bd wr d i cb)) = otp_cfg cb"
  "otp_cfg (snd (ftl_save_legacy_link_key wr k i cb)) = otp_cfg cb"
  "otp_cfg (snd (bt_bond_remove wr feat t i cb)) = otp_cfg cb"
  "otp_cfg (clear_one wr feat j cb) = otp_cfg cb"
  by (auto simp: ftl_save_legacy_remote_bd_def ftl_save_legacy_link_key_def imp_ftl_save_def
      logs_on_frame(4) [OF logs_on_remove] clear_one_def Let_def)

lemma clear_fold_otp: "otp_cfg (fold (clear_one wr feat) is cb) = otp_cfg cb"
  by (induction "is" arbitrary: cb) simp_all

lemma legacy_exec_otp:
  assumes "legacy_exec a db = Some (r, db')"
  shows "otp_cfg (bond_cb db') = otp_cfg (bond_cb db)"
proof -
  have add: "otp_cfg cb' = otp_cfg cb" if "bt_bond_priority_queue_add t i cb = Some (b, cb')" for t i b and cb cb' :: bond_cb
    using that bond_exec_otp [of t "Add i"] by simp
  have del: "otp_cfg cb' = otp_cfg cb" if "bt_bond_priority_queue_delete t i cb = Some (b, cb')" for t i b and cb cb' :: bond_cb
    using that bond_exec_otp [of t "Delete i"] by simp
  have high: "otp_cfg cb' = otp_cfg cb" if "bt_bond_set_high_priority t i cb = Some (b, cb')" for t i b and cb cb' :: bond_cb
    using that bond_exec_otp [of t "Promote i"] by simp
  have clr: "otp_cfg (bt_bond_priority_queue_clear t cb) = otp_cfg cb" for t and cb :: bond_cb
    using bond_exec_otp [of t Clear cb True] by simp
  have bd: "otp_cfg cb' = otp_cfg cb" if "ftl_save_legacy_remote_bd wr d i cb = (e, cb')" for wr d i cb e cb'
    using save_otp(1) [of wr d i cb] that by simp
  have ky: "otp_cfg cb' = otp_cfg cb" if "ftl_save_legacy_link_key wr k i cb = (e, cb')" for wr k i cb e cb'
    using save_otp(2) [of wr k i cb] that by simp
  show ?thesis using assms
    by (cases a)
      (auto simp: bt_legacy_save_bond_def bt_legacy_delete_bond_def bt_legacy_adjust_dev_priority_def
        bt_legacy_set_bond_flag_def bt_legacy_clear_all_keys_def Let_def clear_fold_otp clr
        split: option.splits if_splits bind_splits prod.splits dest!: add del high bd ky)
qed

lemma legacy_run_otp: "run_ops legacy_exec as db = Some (rs, db') \<Longrightarrow> otp_cfg (bond_cb db') = otp_cfg (bond_cb db)"
proof (induction "as" arbitrary: db rs)
  case (Cons a as)
  then show ?case using legacy_exec_otp [of a db] by (force split: bind_splits)
qed simp

section \<open>Properties\<close>

definition demo_db :: legacy_db where
  "demo_db = \<lparr>bond_cb = demo_cb\<lparr>ftl_log := ftl_log demo_cb @ map (\<lambda>i. WRemoteBd i zero_info) [0, 1, 2]\<rparr>,
     bond_feat_5_1 = True, bt_legacy_bond_store_number = 3,
     bt_legacy_bond_store_table = replicate 3 zero_info\<rparr>"

lemma demo_db_order: "addr_order demo_db = []"
  by (simp add: addr_order_def demo_db_def demo_cb_def bond_order_def sort_of_def prio_list_def)

lemma demo_db_inv: "legacy_inv 3 demo_db"
proof -
  have s: "sort_of LEGACY_BT_DEV (bond_cb demo_db) = \<lparr>bond_num = 0, bond_idx = replicate 19 0\<rparr>"
    by (simp add: demo_db_def demo_cb_def sort_of_def)
  have "legacy_ok demo_db"
    using s by (auto simp: legacy_ok_def queue_ok_def prio_ok_def prio_list_def bond_order_def demo_db_def
        demo_cb_def demo_cfg_def max_paired_def bonded_at_def zero_info_def word_le_nat_alt)
  moreover have "flash_ok demo_db"
    unfolding flash_ok_def
  proof (intro conjI allI impI)
    show "synced LEGACY_BT_DEV (bond_cb demo_db)"
      by (simp add: synced_def s) (simp add: demo_db_def demo_cb_def last_saved_def)
    fix i :: u8 assume "unat i < unat (bt_legacy_bond_store_number demo_db)"
    then have "i = 0 \<or> i = 1 \<or> i = 2" by (auto simp: demo_db_def word_unat_eq_iff)
    then show "saved_bd i (ftl_log (bond_cb demo_db)) = Some (bt_legacy_bond_store_table demo_db ! unat i)"
      by (auto simp: demo_db_def demo_cb_def saved_bd_def numeral_3_eq_3)
  qed (simp add: demo_db_def entry_ok_zero)
  ultimately show ?thesis by (simp add: legacy_inv_def demo_db_def)
qed

text \<open>C12: the table of bonded BR/EDR devices behaves as a least-recently-used cache of device
  addresses, whatever sequence of calls the application makes: a device bonded again moves to the
  end, a new one is appended, and replaces the oldest when all slots are taken; removing, promoting,
  flagging and clearing do what they say, and every call returns what the specification returns.\<close>

theorem legacy_table_is_lru_cache:
  assumes "legacy_inv n db"
  shows "\<exists>rs db'. run_ops legacy_exec as db = Some (rs, db') \<and> legacy_inv n db'
     \<and> (rs, addr_order db') = run_spec (legacy_spec n) as (addr_order db)"
  by (rule legacy.run_refines [OF assms])

lemma legacy_table_is_lru_cache_witness:
  "legacy_inv 3 demo_db \<and> (\<exists>rs db'. run_ops legacy_exec
     [Save_Bond [1] [] KEY_UNAUTHEN, Save_Bond [2] [] KEY_UNAUTHEN, Save_Bond [3] [] KEY_UNAUTHEN,
      Adjust_Priority [1], Save_Bond [4] [] KEY_UNAUTHEN, Delete_Bond [9]] demo_db = Some (rs, db')
    \<and> rs = [True, True, True, True, True, False] \<and> addr_order db' = [[3], [1], [4]])"
  using legacy_table_is_lru_cache [OF demo_db_inv, of
     "[Save_Bond [1] [] KEY_UNAUTHEN, Save_Bond [2] [] KEY_UNAUTHEN, Save_Bond [3] [] KEY_UNAUTHEN,
      Adjust_Priority [1], Save_Bond [4] [] KEY_UNAUTHEN, Delete_Bond [9]]"] demo_db_inv
  by (force simp: demo_db_order lru_save_def)

text \<open>a link key that was saved is what \<open>bt_legacy_get_bond\<close> returns afterwards, with its type.\<close>

theorem legacy_key_roundtrip:
  assumes "legacy_ok db" "0 < bt_legacy_bond_store_number db" "\<And>w. wr w"
    and "bt_legacy_save_bond wr (Some a) (Some k) kt db = Some (ok, db')"
  shows "ok \<and> bt_legacy_get_bond (\<lambda>i. saved_key i (ftl_log (bond_cb db'))) (Some a) (Some buf) db'
    = Some (Some (take 16 k, kt))"
proof -
  obtain i where i: "ok" "legacy_ok db'" "bt_legacy_get_paired_idx (Some a) db' = Some (Some i)"
      "saved_key i (ftl_log (bond_cb db')) = Some (take 16 k)"
      "key_type (bt_legacy_bond_store_table db' ! unat i) = kt"
    using save_bond_refines [where wr = wr, OF assms(1,3,2), of a k kt] assms(4) by auto
  show ?thesis using get_bond_present [OF i(2,3,4), of buf] i(1,5) by simp
qed

lemma legacy_key_roundtrip_witness:
  "\<exists>ok db'. bt_legacy_save_bond (\<lambda>_. True) (Some [1, 2, 3, 4, 5, 6]) (Some (replicate 16 7)) 5 demo_db = Some (ok, db')
    \<and> bt_legacy_get_bond (\<lambda>i. saved_key i (ftl_log (bond_cb db'))) (Some [1, 2, 3, 4, 5, 6]) (Some []) db'
        = Some (Some (replicate 16 7, 5))"
proof -
  have d: "legacy_ok demo_db" "0 < bt_legacy_bond_store_number demo_db"
    using demo_db_inv by (simp_all add: legacy_inv_def demo_db_def)
  obtain db' where s: "bt_legacy_save_bond (\<lambda>_. True) (Some [1, 2, 3, 4, 5, 6]) (Some (replicate 16 7)) 5 demo_db
      = Some (True, db')"
    using save_bond_refines [where wr = "\<lambda>_. True", OF d(1) _ d(2)] by blast
  show ?thesis using legacy_key_roundtrip [OF d _ s, of "[]"] s by auto
qed

text \<open>C13: the bonded devices survive a restart: after any calls, starting up from what the flash
  holds rebuilds the table and the queue exactly, provided there are at most 12 slots.\<close>

theorem legacy_restart:
  assumes "legacy_inv n db" "n \<le> 12" "\<not> gap_bond_manager (otp_cfg (bond_cb db))"
    and run: "run_ops legacy_exec as db = Some (rs, db')"
  shows "bt_legacy_key_init wr (\<lambda>i. saved_bd i (ftl_log (bond_cb db')))
    (last_saved LEGACY_BT_DEV (ftl_log (bond_cb db'))) True (restart m tbl p db') = Some db'"
proof -
  have "legacy_inv n db'" by (rule legacy.run_inv [OF assms(1) run])
  then show ?thesis using assms(2,3) legacy_run_otp [OF run]
    by (intro key_init_restores) (simp_all add: legacy_inv_def)
qed

lemma legacy_restart_witness:
  "\<exists>rs db'. run_ops legacy_exec [Save_Bond [1] [7] KEY_AUTHEN, Save_Bond [2] [8] KEY_UNAUTHEN, Set_Flag [1] 3] demo_db
       = Some (rs, db') \<and> addr_order db' = [[1], [2]]
     \<and> bt_legacy_key_init (\<lambda>_. True) (\<lambda>i. saved_bd i (ftl_log (bond_cb db')))
         (last_saved LEGACY_BT_DEV (ftl_log (bond_cb db'))) True
         (restart 0 [] \<lparr>bond_num = 0, bond_idx = []\<rparr> db') = Some db'"
proof -
  obtain rs db' where r: "run_ops legacy_exec [Save_Bond [1] [7] KEY_AUTHEN, Save_Bond [2] [8] KEY_UNAUTHEN, Set_Flag [1] 3] demo_db
       = Some (rs, db')" "addr_order db' = [[1], [2]]"
    using legacy.run_refines [OF demo_db_inv, of "[Save_Bond [1] [7] KEY_AUTHEN, Save_Bond [2] [8] KEY_UNAUTHEN, Set_Flag [1] 3]"]
    by (force simp: demo_db_order lru_save_def)
  have "\<not> gap_bond_manager (otp_cfg (bond_cb demo_db))"
    by (simp add: demo_db_def demo_cb_def demo_cfg_def)
  from legacy_restart [OF demo_db_inv _ this r(1)] r show ?thesis by auto
qed

text \<open>C22: with 13 or more slots start-up leaves its table: \<open>size\<close> is a \<open>uint8_t\<close>, so fewer than
  \<open>20 * n\<close> bytes are allocated, and the loop over the \<open>n\<close> entries goes past them.\<close>

theorem legacy_key_init_overrun:
  assumes "cb_alloc (bond_cb db)" "\<not> gap_bond_manager (otp_cfg (bond_cb db))"
    and "13 \<le> max_legacy_paired_device (otp_cfg (bond_cb db))" "bond_num p \<le> 19"
  shows "bt_legacy_key_init wr rd_bd (Some p) True db = None"
  by (rule key_init_short [OF assms])

lemma legacy_key_init_overrun_witness:
  "bt_legacy_key_init (\<lambda>_. True) (\<lambda>_. Some zero_info) (Some \<lparr>bond_num = 0, bond_idx = replicate 19 0\<rparr>) True
    (demo_db\<lparr>bond_cb := demo_cb\<lparr>otp_cfg := demo_cfg\<lparr>max_legacy_paired_device := 13\<rparr>\<rparr>\<rparr>) = None"
  by (rule legacy_key_init_overrun) (simp_all add: demo_cb_def demo_cfg_def)

end
