(* ===== verification/Rtc_Calendar.thy ===== *)
theory Rtc_Calendar
  imports Prelude
begin

text \<open>
  The calendar kept by the real-time counter, \<open>src/mcu/module/rtc_calendar/rtc_calendar.c\<close>:
  the conversions between seconds since 2000-01-01 and a date, and the clock state that the
  comparator interrupt advances. The counter and the comparator are hardware: the value of the
  counter is an argument, the comparator register is a field of the state. The macro
  \<open>RTC_CNT_MAX_VALUE\<close> depends on the chip the firmware is compiled for.
\<close>

section \<open>Conversions\<close>

record utc_time =
  year :: u16
  month :: u8
  day :: u8
  seconds :: u8
  minutes :: u8
  hour :: u8

abbreviation BEGYEAR :: "'a::len word" where "BEGYEAR \<equiv> 2000"
abbreviation DAY :: u32 where "DAY \<equiv> 86400"
abbreviation ONE_MINUTE :: u32 where "ONE_MINUTE \<equiv> 60"
abbreviation ONE_HOUR :: u32 where "ONE_HOUR \<equiv> 3600"

definition IsLeapYear :: "'a::len word \<Rightarrow> bool" where
  "IsLeapYear yr \<longleftrightarrow> yr mod 400 = 0 \<or> (yr mod 100 \<noteq> 0 \<and> yr mod 4 = 0)"

definition YearLength :: "'a::len word \<Rightarrow> u16" where
  "YearLength yr = (if IsLeapYear yr then 366 else 365)"

definition rtc_calendar_month_length_calc :: "bool \<Rightarrow> u8 \<Rightarrow> u8" where
  "rtc_calendar_month_length_calc lpyr mon =
     (if mon = 1 then 28 + of_bool lpyr
      else let mon' = (if mon > 6 then mon - 1 else mon)
           in if mon' AND 1 \<noteq> 0 then 30 else 31)"

definition rtc_calendar_check_utc_time :: "utc_time \<Rightarrow> bool" where
  "rtc_calendar_check_utc_time t \<longleftrightarrow>
     \<not> year t < BEGYEAR
     \<and> \<not> (month t = 0 \<or> month t > 12)
     \<and> \<not> (day t = 0 \<or> day t > rtc_calendar_month_length_calc (IsLeapYear (year t)) (month t))
     \<and> \<not> (hour t > 23 \<or> minutes t > 59 \<or> seconds t > 59)"

function year_loop :: "u16 \<Rightarrow> u16 \<Rightarrow> u16 \<times> u16" where
  "year_loop numDays yr =
     (if numDays \<ge> YearLength yr then year_loop (numDays - YearLength yr) (yr + 1) else (numDays, yr))"
  by pat_completeness auto
termination
proof (relation "measure (\<lambda>(n, _). unat n)")
  fix numDays yr :: u16
  assume "YearLength yr \<le> numDays"
  moreover have "0 < unat (YearLength yr)" by (simp add: YearLength_def)
  ultimately show "((numDays - YearLength yr, yr + 1), (numDays, yr)) \<in> measure (\<lambda>(n, _). unat n)"
    by (simp add: unat_sub word_le_nat_alt)
qed simp

lemma month_length_pos: "0 < unat (rtc_calendar_month_length_calc l mon)"
  by (cases l) (simp_all add: rtc_calendar_month_length_calc_def Let_def)

function month_loop :: "bool \<Rightarrow> u16 \<Rightarrow> u8 \<Rightarrow> u16 \<times> u8" where
  "month_loop lpyr numDays mon =
     (let l = ucast (rtc_calendar_month_length_calc lpyr mon)
      in if numDays \<ge> l then month_loop lpyr (numDays - l) (mon + 1) else (numDays, mon))"
  by pat_completeness auto
termination
proof (relation "measure (\<lambda>(_, n, _). unat n)")
  fix lpyr and numDays l :: u16 and mon :: u8
  assume "l = ucast (rtc_calendar_month_length_calc lpyr mon)" "l \<le> numDays"
  then show "((lpyr, numDays - l, mon + 1), (lpyr, numDays, mon)) \<in> measure (\<lambda>(_, n, _). unat n)"
    using month_length_pos [of lpyr mon] by (simp add: unat_sub word_le_nat_alt)
qed simp

declare year_loop.simps [simp del] month_loop.simps [simp del]

definition rtc_calendar_timestamp_to_date :: "u32 \<Rightarrow> utc_time" where
  "rtc_calendar_timestamp_to_date timestamp =
     (let d = timestamp mod DAY;
          (n1, y) = year_loop (ucast (timestamp div DAY)) BEGYEAR;
          (n2, m) = month_loop (IsLeapYear y) n1 0
      in \<lparr>year = y, month = m + 1, day = ucast (n2 + 1),
          seconds = ucast (d mod ONE_MINUTE), minutes = ucast ((d mod ONE_HOUR) div ONE_MINUTE),
          hour = ucast (d div ONE_HOUR)\<rparr>)"

function add_months :: "bool \<Rightarrow> u32 \<Rightarrow> u32 \<Rightarrow> u32 \<Rightarrow> u32" where
  "add_months lpyr i n ts =
     (if i < n then add_months lpyr (i + 1) n (ts + ucast (rtc_calendar_month_length_calc lpyr (ucast i)) * DAY)
      else ts)"
  by pat_completeness auto
termination
  by (relation "measure (\<lambda>(_, i, n, _). unat n - unat i)")
    (auto simp: unat_plus_one word_less_nat_alt intro: diff_less_mono2)

function add_years :: "u32 \<Rightarrow> u32 \<Rightarrow> u32 \<Rightarrow> u32" where
  "add_years i n ts =
     (if i < n then add_years (i + 1) n (ts + DAY * (if IsLeapYear i then 366 else 365)) else ts)"
  by pat_completeness auto
termination
  by (relation "measure (\<lambda>(i, n, _). unat n - unat i)")
    (auto simp: unat_plus_one word_less_nat_alt intro: diff_less_mono2)

declare add_months.simps [simp del] add_years.simps [simp del]

definition rtc_calendar_date_to_timestamp :: "utc_time \<Rightarrow> u32" where
  "rtc_calendar_date_to_timestamp t =
     (if \<not> rtc_calendar_check_utc_time t then 0
      else let ts0 = ucast (seconds t) + ucast (minutes t) * ONE_MINUTE + ucast (hour t) * ONE_HOUR;
               ts1 = ts0 + DAY * (ucast (day t) - 1);
               ts2 = add_months (IsLeapYear (year t)) 0 (ucast (month t) - 1) ts1
           in add_years BEGYEAR (ucast (year t)) ts2)"

section \<open>The clock\<close>

datatype ic_type = RTL87x3E | RTL87x3D

fun RTC_CNT_MAX_VALUE :: "ic_type \<Rightarrow> u32" where
  "RTC_CNT_MAX_VALUE RTL87x3E = 0xFFFFFF"
| "RTC_CNT_MAX_VALUE RTL87x3D = 0xFFFFFFFF"

abbreviation RTC_CLOCK_SOURCE_FREQ :: u32 where "RTC_CLOCK_SOURCE_FREQ \<equiv> 32000"
abbreviation RTC_CALENDAR_UPDATE_TIME_MIN_S :: u32 where "RTC_CALENDAR_UPDATE_TIME_MIN_S \<equiv> 1"
abbreviation RTC_CALENDAR_UPDATE_TIME_MAX_S :: u32 where "RTC_CALENDAR_UPDATE_TIME_MAX_S \<equiv> 240"

record rtc_clock =
  second_cnt_rtc :: u32
  pre_rtc_tick_count :: u32
  global_time :: utc_time
  update_time_sec :: u32          \<comment> \<open>\<open>rtc_calendar_update_time_sec\<close>\<close>
  callback :: bool                \<comment> \<open>\<open>RTCCalendarCallBack != NULL\<close>\<close>
  comparator :: u32               \<comment> \<open>the hardware register \<open>RTC_GetComp\<close> reads\<close>
  reported :: "utc_time list"     \<comment> \<open>calls of the callback, in order\<close>

definition RTC_CALENDAR_COMP_UPDATE_CNT :: "rtc_clock \<Rightarrow> u32" where
  "RTC_CALENDAR_COMP_UPDATE_CNT c = (RTC_CLOCK_SOURCE_FREQ div (0 + 1)) * update_time_sec c"

definition rtc_calendar_update :: "u32 \<Rightarrow> rtc_clock \<Rightarrow> rtc_clock" where
  "rtc_calendar_update cnt c =
     (let s = second_cnt_rtc c + update_time_sec c;
          d = rtc_calendar_timestamp_to_date s
      in c\<lparr>second_cnt_rtc := s, pre_rtc_tick_count := cnt, global_time := d,
           reported := reported c @ (if callback c then [d] else [])\<rparr>)"

definition rtc_calendar_comp_update :: "ic_type \<Rightarrow> rtc_clock \<Rightarrow> rtc_clock" where
  "rtc_calendar_comp_update ic c =
     (let v = comparator c + RTC_CALENDAR_COMP_UPDATE_CNT c;
          w = (if v > RTC_CNT_MAX_VALUE ic then v - RTC_CNT_MAX_VALUE ic else v)
      in c\<lparr>comparator := w AND RTC_CNT_MAX_VALUE ic\<rparr>)"

text \<open>\<open>pending\<close>: the status of the comparator interrupt; clearing it is left to the hardware.\<close>

definition rtc_calendar_handler :: "ic_type \<Rightarrow> bool \<Rightarrow> u32 \<Rightarrow> rtc_clock \<Rightarrow> rtc_clock" where
  "rtc_calendar_handler ic pending cnt c =
     (if pending then rtc_calendar_comp_update ic (rtc_calendar_update cnt c) else c)"

definition rtc_calendar_calculate_diff_second :: "ic_type \<Rightarrow> u32 \<Rightarrow> u32 \<Rightarrow> u32" where
  "rtc_calendar_calculate_diff_second ic cur_cnt pre_cnt =
     (if cur_cnt > pre_cnt then (cur_cnt - pre_cnt) div (RTC_CLOCK_SOURCE_FREQ div (0 + 1))
      else (cur_cnt + RTC_CNT_MAX_VALUE ic - pre_cnt) div (RTC_CLOCK_SOURCE_FREQ div (0 + 1)))"

definition rtc_calendar_get_current_day_of_week :: "rtc_clock \<Rightarrow> nat" where
  "rtc_calendar_get_current_day_of_week c = unat (((second_cnt_rtc c div DAY) mod 7 + 5) mod 7)"

definition rtc_calendar_get_timestamp :: "ic_type \<Rightarrow> u32 \<Rightarrow> rtc_clock \<Rightarrow> u32" where
  "rtc_calendar_get_timestamp ic cnt c =
     second_cnt_rtc c + rtc_calendar_calculate_diff_second ic cnt (pre_rtc_tick_count c)"

definition rtc_calendar_get_utc_time :: "ic_type \<Rightarrow> u32 \<Rightarrow> rtc_clock \<Rightarrow> utc_time" where
  "rtc_calendar_get_utc_time ic cnt c =
     rtc_calendar_timestamp_to_date
       (second_cnt_rtc c + rtc_calendar_calculate_diff_second ic cnt (pre_rtc_tick_count c))"

definition rtc_calendar_set_utc_time :: "utc_time \<Rightarrow> rtc_clock \<Rightarrow> bool \<times> rtc_clock" where
  "rtc_calendar_set_utc_time t c =
     (if \<not> rtc_calendar_check_utc_time t then (False, c)
      else (True, c\<lparr>second_cnt_rtc := rtc_calendar_date_to_timestamp t, global_time := t\<rparr>))"

definition rtc_calendar_register_callback :: "rtc_clock \<Rightarrow> rtc_clock" where
  "rtc_calendar_register_callback c = c\<lparr>callback := True\<rparr>"

definition rtc_calendar_unregister_callback :: "rtc_clock \<Rightarrow> rtc_clock" where
  "rtc_calendar_unregister_callback c = c\<lparr>callback := False\<rparr>"

definition rtc_calendar_int :: "utc_time \<Rightarrow> u32 \<Rightarrow> rtc_clock \<Rightarrow> bool \<times> rtc_clock" where
  "rtc_calendar_int defut_utc_time update_interval_sec c =
     (case rtc_calendar_set_utc_time defut_utc_time c of
        (False, c1) \<Rightarrow> (False, c1)
      | (True, c1) \<Rightarrow>
          let c2 = (if update_interval_sec < RTC_CALENDAR_UPDATE_TIME_MAX_S
                    then if update_interval_sec < RTC_CALENDAR_UPDATE_TIME_MIN_S
                         then c1\<lparr>update_time_sec := RTC_CALENDAR_UPDATE_TIME_MIN_S\<rparr>
                         else c1\<lparr>update_time_sec := update_interval_sec\<rparr>
                    else c1);
              c3 = c2\<lparr>pre_rtc_tick_count := 0\<rparr>
          in (True, c3\<lparr>comparator := RTC_CALENDAR_COMP_UPDATE_CNT c3\<rparr>))"

lemma of_nat_unat_id: "of_nat (unat w) = w" for w :: "'a::len word"
  by simp

section \<open>Calendar arithmetic on numbers\<close>

definition leap :: "nat \<Rightarrow> bool" where
  "leap y \<longleftrightarrow> y mod 400 = 0 \<or> (y mod 100 \<noteq> 0 \<and> y mod 4 = 0)"

definition ylen :: "nat \<Rightarrow> nat" where
  "ylen y = (if leap y then 366 else 365)"

text \<open>The length of month \<open>m\<close>, counted from 0.\<close>

definition mlen :: "bool \<Rightarrow> nat \<Rightarrow> nat" where
  "mlen l m = (if m = 1 then 28 + of_bool l else if m \<in> {3, 5, 8, 10} then 30 else 31)"

definition ysum :: "nat \<Rightarrow> nat" where
  "ysum y = (\<Sum>i = 2000..<y. ylen i)"

definition msum :: "bool \<Rightarrow> nat \<Rightarrow> nat" where
  "msum l m = (\<Sum>i < m. mlen l i)"

lemma ysum_Suc: "2000 \<le> y \<Longrightarrow> ysum (Suc y) = ysum y + ylen y"
  by (simp add: ysum_def)

lemma msum_Suc: "msum l (Suc m) = msum l m + mlen l m"
  by (simp add: msum_def)

lemma msum_0 [simp]: "msum l 0 = 0" and ysum_0 [simp]: "ysum 2000 = 0"
  by (simp_all add: msum_def ysum_def)

lemma msum_12: "msum l 12 = (if l then 366 else 365)"
  by (simp add: msum_def mlen_def numeral_eq_Suc lessThan_Suc)

lemma ylen_bounds: "365 \<le> ylen y" "ylen y \<le> 366"
  by (simp_all add: ylen_def)

lemma msum_mono: "m \<le> m' \<Longrightarrow> msum l m \<le> msum l m'"
  unfolding msum_def by (rule sum_mono2) auto

lemma ysum_mono: "y \<le> y' \<Longrightarrow> ysum y \<le> ysum y'"
  unfolding ysum_def by (rule sum_mono2) auto

lemma leap_u16: "IsLeapYear (y :: u16) = leap (unat y)"
  by (simp add: IsLeapYear_def leap_def word_unat_eq_iff unat_mod)

lemma leap_u32: "IsLeapYear (y :: u32) = leap (unat y)"
  by (simp add: IsLeapYear_def leap_def word_unat_eq_iff unat_mod)

lemma unat_YearLength: "unat (YearLength (y :: u16)) = ylen (unat y)"
  by (simp add: YearLength_def ylen_def leap_u16)

lemma unat_month_length:
  "unat m < 12 \<Longrightarrow> unat (rtc_calendar_month_length_calc l m) = mlen l (unat m)"
proof -
  assume "unat m < 12"
  then have "unat m \<in> {0, 1, 2, 3, 4, 5, 6, 7, 8, 9, 10, 11}"
    by (simp only: insert_iff empty_iff) presburger
  then have "m = of_nat (unat m)" "m \<in> {0, 1, 2, 3, 4, 5, 6, 7, 8, 9, 10, 11}"
    by (auto simp: word_unat_eq_iff)
  then show ?thesis
    by (cases l) (auto simp: rtc_calendar_month_length_calc_def mlen_def)
qed

section \<open>The loops compute it\<close>

lemma year_loop_spec:
  assumes "unat n + 365 * unat y < 365 * 65536" "2000 \<le> unat y" "year_loop n y = (n', y')"
  shows "unat n + ysum (unat y) = unat n' + ysum (unat y') \<and> unat n' < ylen (unat y') \<and> 2000 \<le> unat y'"
  using assms
proof (induction n y rule: year_loop.induct)
  case (1 n y)
  show ?case
  proof (cases "YearLength y \<le> n")
    case False
    then have "year_loop n y = (n, y)" by (subst year_loop.simps) simp
    moreover have "unat n < ylen (unat y)" using False by (simp add: word_le_nat_alt unat_YearLength)
    ultimately show ?thesis using "1.prems" by simp
  next
    case True
    then have le: "ylen (unat y) \<le> unat n" by (simp add: word_le_nat_alt unat_YearLength)
    then have y1: "unat (y + 1) = Suc (unat y)" "unat (n - YearLength y) = unat n - ylen (unat y)"
      using "1.prems"(1) ylen_bounds(1) [of "unat y"] True
      by (simp_all add: unat_add_small unat_sub unat_YearLength)
    have "year_loop (n - YearLength y) (y + 1) = (n', y')"
      using True "1.prems"(3) by (subst (asm) year_loop.simps) simp
    then show ?thesis
      using "1.IH" [OF True] "1.prems"(1,2) y1 le ylen_bounds(1) [of "unat y"] ysum_Suc [of "unat y"]
      by simp
  qed
qed

lemma month_loop_spec:
  assumes "unat n + msum l (unat m) < msum l 12" "unat m < 12" "month_loop l n m = (n', m')"
  shows "unat n + msum l (unat m) = unat n' + msum l (unat m') \<and> unat n' < mlen l (unat m') \<and> unat m' < 12"
  using assms
proof (induction l n m rule: month_loop.induct)
  case (1 l n m)
  define k :: u16 where "k = ucast (rtc_calendar_month_length_calc l m)"
  have k: "unat k = mlen l (unat m)" using "1.prems"(2) by (simp add: k_def unat_month_length)
  show ?case
  proof (cases "k \<le> n")
    case False
    then have "month_loop l n m = (n, m)" by (subst month_loop.simps) (simp add: k_def Let_def)
    moreover have "unat n < mlen l (unat m)" using False k by (simp add: word_le_nat_alt)
    ultimately show ?thesis using "1.prems" by simp
  next
    case True
    then have le: "mlen l (unat m) \<le> unat n" by (simp add: word_le_nat_alt k)
    then have "msum l (Suc (unat m)) < msum l 12" using "1.prems"(1) by (simp add: msum_Suc)
    then have "Suc (unat m) < 12" using msum_mono [of 12 "Suc (unat m)" l] by (meson leD leI)
    then have m1: "unat (m + 1) = Suc (unat m)" "unat (n - k) = unat n - mlen l (unat m)"
      using True k by (simp_all add: unat_add_small unat_sub)
    have "month_loop l (n - k) (m + 1) = (n', m')"
      using True "1.prems"(3) by (subst (asm) month_loop.simps) (simp add: k_def Let_def)
    then show ?thesis
      using "1.IH" [OF k_def] True "1.prems"(1) m1 le \<open>Suc (unat m) < 12\<close> by (simp add: msum_Suc)
  qed
qed

lemma add_months_spec:
  "i \<le> n \<Longrightarrow> unat n \<le> 12 \<Longrightarrow>
   add_months l i n ts + of_nat (86400 * msum l (unat i)) = ts + of_nat (86400 * msum l (unat n))"
proof (induction l i n ts rule: add_months.induct)
  case (1 l i n ts)
  show ?case
  proof (cases "i < n")
    case False
    then have "i = n" using "1.prems"(1) by simp
    then show ?thesis by (subst add_months.simps) simp
  next
    case True
    then have i1: "unat (i + 1) = Suc (unat i)" "i + 1 \<le> n" "unat i < 12"
      using "1.prems" by (auto simp: unat_plus_one word_le_nat_alt word_less_nat_alt)
    define w :: u32 where "w = ucast (rtc_calendar_month_length_calc l (ucast i))"
    have "unat (ucast i :: u8) = unat i" using i1(3) by (simp add: unsigned_ucast_eq take_bit_nat_eq_self)
    then have "unat w = mlen l (unat i)" using i1(3) by (simp add: w_def unat_month_length)
    then have w: "w = of_nat (mlen l (unat i))" using of_nat_unat_id [of w] by simp
    have "add_months l (i + 1) n (ts + w * DAY) + of_nat (86400 * (msum l (unat i) + mlen l (unat i)))
        = ts + w * DAY + of_nat (86400 * msum l (unat n))"
      using "1.IH" [OF True i1(2) "1.prems"(2)] by (simp only: i1(1) msum_Suc w_def)
    moreover have "add_months l i n ts = add_months l (i + 1) n (ts + w * DAY)"
      using True by (subst add_months.simps) (simp add: w_def)
    ultimately show ?thesis by (simp add: w algebra_simps)
  qed
qed

lemma add_years_spec:
  "i \<le> n \<Longrightarrow> 2000 \<le> unat i \<Longrightarrow>
   add_years i n ts + of_nat (86400 * ysum (unat i)) = ts + of_nat (86400 * ysum (unat n))"
proof (induction i n ts rule: add_years.induct)
  case (1 i n ts)
  show ?case
  proof (cases "i < n")
    case False
    then have "i = n" using "1.prems"(1) by simp
    then show ?thesis by (subst add_years.simps) simp
  next
    case True
    then have i1: "unat (i + 1) = Suc (unat i)" "i + 1 \<le> n"
      by (auto simp: unat_plus_one word_le_nat_alt word_less_nat_alt)
    have w: "(if IsLeapYear i then 366 else 365 :: u32) = of_nat (ylen (unat i))"
      by (simp add: ylen_def leap_u32)
    let ?ts = "ts + DAY * of_nat (ylen (unat i))"
    have "add_years (i + 1) n ?ts + of_nat (86400 * (ysum (unat i) + ylen (unat i)))
        = ?ts + of_nat (86400 * ysum (unat n))"
      using "1.IH" [OF True i1(2)] "1.prems"(2) by (simp only: i1(1) ysum_Suc w)
    moreover have "add_years i n ts = add_years (i + 1) n ?ts"
      using True by (subst add_years.simps) (simp add: w)
    ultimately show ?thesis by (simp add: algebra_simps)
  qed
qed

section \<open>Dates and seconds\<close>

definition valid_date :: "utc_time \<Rightarrow> bool" where
  "valid_date d \<longleftrightarrow> 2000 \<le> unat (year d) \<and> 1 \<le> unat (month d) \<and> unat (month d) \<le> 12
     \<and> 1 \<le> unat (day d) \<and> unat (day d) \<le> mlen (leap (unat (year d))) (unat (month d) - 1)
     \<and> unat (hour d) < 24 \<and> unat (minutes d) < 60 \<and> unat (seconds d) < 60"

definition date_secs :: "utc_time \<Rightarrow> nat" where
  "date_secs d = unat (seconds d) + 60 * unat (minutes d) + 3600 * unat (hour d)
     + 86400 * ((unat (day d) - 1) + msum (leap (unat (year d))) (unat (month d) - 1) + ysum (unat (year d)))"

lemma mlen_le: "mlen l m \<le> 31" "1 \<le> mlen l m"
  by (simp_all add: mlen_def)

lemma time_of_day:
  fixes s :: nat
  assumes "s < 86400"
  shows "s mod 60 + 60 * (s mod 3600 div 60) + 3600 * (s div 3600) = s"
    "s div 3600 < 24" "s mod 3600 div 60 < 60"
proof -
  have "s mod 3600 mod 60 = s mod 60" by (simp add: mod_mod_cancel)
  then show "s mod 60 + 60 * (s mod 3600 div 60) + 3600 * (s div 3600) = s"
    using mult_div_mod_eq [of 60 "s mod 3600"] mult_div_mod_eq [of 3600 s] by linarith
  show "s div 3600 < 24" "s mod 3600 div 60 < 60" using assms by (simp_all add: less_mult_imp_div_less)
qed

lemma timestamp_to_date_spec:
  fixes t :: u32
  defines "d \<equiv> rtc_calendar_timestamp_to_date t"
  shows "valid_date d \<and> date_secs d = unat t"
proof -
  define s where "s = unat t mod 86400"
  define N where "N = unat t div 86400"
  have tlt: "unat t < 4294967296" using unsigned_less [of t, where ?'a = nat] by simp
  then have N: "N < 49711" "unat (ucast (t div DAY) :: u16) = N"
    by (simp_all add: N_def unsigned_ucast_eq unat_div take_bit_nat_eq_self less_mult_imp_div_less)
  obtain n1 y where y: "year_loop (ucast (t div DAY)) BEGYEAR = (n1, y)" by fastforce
  have ys: "N = unat n1 + ysum (unat y)" "unat n1 < ylen (unat y)" "2000 \<le> unat y"
    using year_loop_spec [OF _ _ y] N by simp_all
  obtain n2 m where m: "month_loop (IsLeapYear y) n1 0 = (n2, m)" by fastforce
  have ms: "unat n1 = unat n2 + msum (leap (unat y)) (unat m)"
      "unat n2 < mlen (leap (unat y)) (unat m)" "unat m < 12"
    using month_loop_spec [OF _ _ m] ys(2) by (simp_all add: msum_12 leap_u16 ylen_def)
  have dd: "d = \<lparr>year = y, month = m + 1, day = ucast (n2 + 1),
      seconds = ucast (t mod DAY mod ONE_MINUTE), minutes = ucast ((t mod DAY mod ONE_HOUR) div ONE_MINUTE),
      hour = ucast (t mod DAY div ONE_HOUR)\<rparr>"
    by (simp add: d_def rtc_calendar_timestamp_to_date_def y m Let_def)
  have s: "s < 86400" by (simp add: s_def)
  have f: "unat (seconds d) = s mod 60" "unat (minutes d) = s mod 3600 div 60" "unat (hour d) = s div 3600"
    using time_of_day [OF s]
    by (simp_all add: dd unsigned_ucast_eq unat_div unat_mod s_def [symmetric] take_bit_nat_eq_self)
  have n2: "unat n2 < 31" using ms(2) mlen_le(1) [of "leap (unat y)" "unat m"] by linarith
  then have "unat (n2 + 1) = unat n2 + 1" by (simp add: unat_add_small)
  then have day: "unat (day d) = unat n2 + 1" using n2 by (simp add: dd unsigned_ucast_eq take_bit_nat_eq_self)
  have mon: "unat (month d) = unat m + 1" using ms(3) by (simp add: dd unat_add_small)
  have yr: "unat (year d) = unat y" by (simp add: dd)
  have "valid_date d"
    using f time_of_day [OF s] day mon yr ys ms by (simp add: valid_date_def)
  moreover have "date_secs d = s + 86400 * N"
    using f time_of_day(1) [OF s] day mon yr ys ms by (simp add: date_secs_def)
  ultimately show ?thesis by (simp add: s_def N_def)
qed

text \<open>
  The check passes the month counted from 1 to a function that counts from 0, so the day is compared
  with the length of the following month; for December the function returns 30.
\<close>

definition check_len :: "bool \<Rightarrow> nat \<Rightarrow> nat" where
  "check_len l m = (if m = 12 then 30 else mlen l m)"

lemma unat_check_len:
  "unat m \<le> 12 \<Longrightarrow> unat (rtc_calendar_month_length_calc l m) = check_len l (unat m)"
proof (cases "unat m = 12")
  case True
  then have "m = 12" by (simp add: word_unat_eq_iff)
  then show ?thesis by (simp add: rtc_calendar_month_length_calc_def check_len_def)
qed (simp add: check_len_def unat_month_length)

lemma check_iff:
  "rtc_calendar_check_utc_time d \<longleftrightarrow> 2000 \<le> unat (year d) \<and> 1 \<le> unat (month d) \<and> unat (month d) \<le> 12
     \<and> 1 \<le> unat (day d) \<and> unat (day d) \<le> check_len (leap (unat (year d))) (unat (month d))
     \<and> unat (hour d) < 24 \<and> unat (minutes d) < 60 \<and> unat (seconds d) < 60"
proof -
  have z: "x = 0 \<longleftrightarrow> \<not> 1 \<le> unat x" for x :: u8 by (auto simp: unat_gt_0 Suc_le_eq)
  show ?thesis
    by (auto simp: rtc_calendar_check_utc_time_def z word_less_nat_alt leap_u16 unat_check_len)
qed

lemma date_to_timestamp_spec:
  assumes "rtc_calendar_check_utc_time d"
  shows "rtc_calendar_date_to_timestamp d = of_nat (date_secs d)"
proof -
  note c = assms [unfolded check_iff]
  have d1: "(ucast (day d) - 1 :: u32) = of_nat (unat (day d) - 1)"
    using c by (simp add: of_nat_diff)
  have m1: "unat (ucast (month d) - 1 :: u32) = unat (month d) - 1"
    using c by (simp add: unat_sub word_le_nat_alt)
  define ts :: u32 where "ts = ucast (seconds d) + ucast (minutes d) * ONE_MINUTE + ucast (hour d) * ONE_HOUR
      + DAY * (ucast (day d) - 1)"
  have ts: "ts = of_nat (unat (seconds d) + 60 * unat (minutes d) + 3600 * unat (hour d) + 86400 * (unat (day d) - 1))"
    by (simp add: ts_def d1)
  have m: "add_months (leap (unat (year d))) 0 (ucast (month d) - 1) ts
      = ts + of_nat (86400 * msum (leap (unat (year d))) (unat (month d) - 1))"
    using add_months_spec [of 0 "ucast (month d) - 1" "leap (unat (year d))" ts] c
    by (simp add: m1 le_diff_conv)
  have "add_years BEGYEAR (ucast (year d)) x = x + of_nat (86400 * ysum (unat (year d)))" for x
    using add_years_spec [of 2000 "ucast (year d)" x] c by (simp add: word_le_nat_alt)
  moreover have "rtc_calendar_date_to_timestamp d
      = add_years BEGYEAR (ucast (year d)) (add_months (leap (unat (year d))) 0 (ucast (month d) - 1) ts)"
    using assms by (simp only: rtc_calendar_date_to_timestamp_def Let_def leap_u16 ts_def if_True not_True_eq_False if_False)
  moreover have "date_secs d = unat (seconds d) + 60 * unat (minutes d) + 3600 * unat (hour d) + 86400 * (unat (day d) - 1)
      + 86400 * msum (leap (unat (year d))) (unat (month d) - 1) + 86400 * ysum (unat (year d))"
    by (simp only: date_secs_def distrib_left add.assoc)
  ultimately show ?thesis by (simp only: m) (simp only: ts of_nat_add)
qed

lemma ysum_unique:
  assumes "ysum y + r = ysum y' + r'" "r < ylen y" "r' < ylen y'" "2000 \<le> y" "2000 \<le> y'"
  shows "y = y' \<and> r = r'"
proof -
  have "\<not> y < y'"
  proof
    assume "y < y'"
    then have "ysum (Suc y) \<le> ysum y'" by (intro ysum_mono) simp
    then show False using assms by (simp add: ysum_Suc)
  qed
  moreover have "\<not> y' < y"
  proof
    assume "y' < y"
    then have "ysum (Suc y') \<le> ysum y" by (intro ysum_mono) simp
    then show False using assms by (simp add: ysum_Suc)
  qed
  ultimately show ?thesis using assms(1) by simp
qed

lemma msum_unique:
  assumes "msum l m + r = msum l m' + r'" "r < mlen l m" "r' < mlen l m'"
  shows "m = m' \<and> r = r'"
proof -
  have "\<not> m < m'"
  proof
    assume "m < m'"
    then have "msum l (Suc m) \<le> msum l m'" by (intro msum_mono) simp
    then show False using assms by (simp add: msum_Suc)
  qed
  moreover have "\<not> m' < m"
  proof
    assume "m' < m"
    then have "msum l (Suc m') \<le> msum l m" by (intro msum_mono) simp
    then show False using assms by (simp add: msum_Suc)
  qed
  ultimately show ?thesis using assms(1) by simp
qed

lemma digit_split:
  fixes s s' a b k :: nat
  assumes "s < k" "s' < k" "s + k * a = s' + k * b"
  shows "s = s' \<and> a = b"
proof -
  have "a = (s + k * a) div k" using assms(1) by simp
  also have "\<dots> = b" using assms by simp
  finally show ?thesis using assms(3) by simp
qed

text \<open>A valid date is determined by its seconds.\<close>

lemma date_secs_inj:
  assumes v: "valid_date d" "valid_date e" and eq: "date_secs d = date_secs e"
  shows "d = e"
proof -
  define S where "S x = unat (seconds x) + 60 * unat (minutes x) + 3600 * unat (hour x)" for x :: utc_time
  define R where "R x = (unat (day x) - 1) + msum (leap (unat (year x))) (unat (month x) - 1)" for x :: utc_time
  have S: "S x < 86400" if "valid_date x" for x using that by (auto simp: S_def valid_date_def)
  have R: "R x < ylen (unat (year x))" if "valid_date x" for x
  proof -
    define k where "k = unat (month x) - 1"
    have k: "unat (month x) = Suc k" "k < 12" using that by (auto simp: valid_date_def k_def)
    have "R x < msum (leap (unat (year x))) (Suc k)" using that k by (auto simp: R_def valid_date_def msum_Suc)
    also have "\<dots> \<le> msum (leap (unat (year x))) 12" using k by (intro msum_mono) simp
    finally show ?thesis by (simp add: msum_12 ylen_def)
  qed
  have e: "S d + 86400 * (R d + ysum (unat (year d))) = S e + 86400 * (R e + ysum (unat (year e)))"
    using eq by (simp only: date_secs_def S_def R_def)
  have SR: "S d = S e" "R d + ysum (unat (year d)) = R e + ysum (unat (year e))"
    using digit_split [OF S [OF v(1)] S [OF v(2)] e] by blast+
  have y: "unat (year d) = unat (year e)" "R d = R e"
    using ysum_unique [of "unat (year d)" "R d" "unat (year e)" "R e"] SR(2) R [OF v(1)] R [OF v(2)] v
    by (auto simp: valid_date_def)
  have md: "unat (month d) - 1 = unat (month e) - 1 \<and> unat (day d) - 1 = unat (day e) - 1"
  proof (rule msum_unique)
    show "msum (leap (unat (year d))) (unat (month d) - 1) + (unat (day d) - 1)
        = msum (leap (unat (year d))) (unat (month e) - 1) + (unat (day e) - 1)"
      using y by (simp only: R_def add.commute)
  qed (use v y(1) in \<open>auto simp: valid_date_def\<close>)
  have t: "unat (hour d) = unat (hour e) \<and> unat (minutes d) = unat (minutes e) \<and> unat (seconds d) = unat (seconds e)"
  proof -
    have lt: "unat (seconds d) < 60" "unat (seconds e) < 60" "unat (minutes d) < 60" "unat (minutes e) < 60"
      using v by (auto simp: valid_date_def)
    have "unat (seconds d) + 60 * (unat (minutes d) + 60 * unat (hour d))
        = unat (seconds e) + 60 * (unat (minutes e) + 60 * unat (hour e))"
      using SR(1) by (simp add: S_def)
    from digit_split [OF lt(1,2) this] digit_split [OF lt(3,4)] show ?thesis by blast
  qed
  show ?thesis using md t y(1) v
    by (cases d; cases e) (auto simp: valid_date_def word_unat_eq_iff)
qed

section \<open>The clock\<close>

lemma diff_second_forward:
  "pre < cur \<Longrightarrow> unat (rtc_calendar_calculate_diff_second ic cur pre) = (unat cur - unat pre) div 32000"
  by (simp add: rtc_calendar_calculate_diff_second_def unat_div unat_sub)

lemma diff_second_back:
  assumes "cur \<le> pre" "pre \<le> RTC_CNT_MAX_VALUE ic"
  shows "unat (rtc_calendar_calculate_diff_second ic cur pre)
    = (unat cur + unat (RTC_CNT_MAX_VALUE ic) - unat pre) div 32000"
proof -
  have e: "cur + RTC_CNT_MAX_VALUE ic - pre = cur + (RTC_CNT_MAX_VALUE ic - pre)" by simp
  have "unat (RTC_CNT_MAX_VALUE ic - pre) = unat (RTC_CNT_MAX_VALUE ic) - unat pre"
    using assms(2) by (simp add: unat_sub)
  moreover have "unat cur + (unat (RTC_CNT_MAX_VALUE ic) - unat pre) < 2 ^ 32"
    using assms unsigned_less [of "RTC_CNT_MAX_VALUE ic", where ?'a = nat] by (simp add: word_le_nat_alt)
  ultimately have "unat (cur + RTC_CNT_MAX_VALUE ic - pre) = unat cur + (unat (RTC_CNT_MAX_VALUE ic) - unat pre)"
    unfolding e by (subst unat_add_small) simp_all
  then show ?thesis using assms
    by (simp add: rtc_calendar_calculate_diff_second_def unat_div word_le_nat_alt leD)
qed

definition clock_ok :: "ic_type \<Rightarrow> rtc_clock \<Rightarrow> bool" where
  "clock_ok ic c \<longleftrightarrow> 1 \<le> unat (update_time_sec c) \<and> unat (update_time_sec c) \<le> 240
     \<and> comparator c \<le> RTC_CNT_MAX_VALUE ic"

lemma and_max: "x AND RTC_CNT_MAX_VALUE ic \<le> RTC_CNT_MAX_VALUE ic"
  by (rule word_and_le1)

lemma update_cnt_bound: "unat (update_time_sec c) \<le> 240 \<Longrightarrow> RTC_CALENDAR_COMP_UPDATE_CNT c \<le> RTC_CNT_MAX_VALUE ic"
  by (cases ic) (simp_all add: RTC_CALENDAR_COMP_UPDATE_CNT_def word_le_nat_alt unat_mult_small)

lemma handler_fields:
  "second_cnt_rtc (rtc_calendar_handler ic True cnt c) = second_cnt_rtc c + update_time_sec c"
  "update_time_sec (rtc_calendar_handler ic True cnt c) = update_time_sec c"
  "callback (rtc_calendar_handler ic True cnt c) = callback c"
  "pre_rtc_tick_count (rtc_calendar_handler ic True cnt c) = cnt"
  "reported (rtc_calendar_handler ic True cnt c) = reported c
     @ (if callback c then [rtc_calendar_timestamp_to_date (second_cnt_rtc c + update_time_sec c)] else [])"
  by (simp_all add: rtc_calendar_handler_def rtc_calendar_comp_update_def rtc_calendar_update_def Let_def)

lemma handler_ok: "clock_ok ic c \<Longrightarrow> clock_ok ic (rtc_calendar_handler ic pending cnt c)"
  by (simp add: clock_ok_def rtc_calendar_handler_def rtc_calendar_comp_update_def
      rtc_calendar_update_def Let_def word_and_le1)

section \<open>Properties\<close>

text \<open>C15: the date computed from a number of seconds is the one valid calendar date that is that
  many seconds after 2000-01-01 00:00:00.\<close>

theorem rtc_date_of_timestamp:
  "valid_date d \<and> date_secs d = unat t \<longleftrightarrow> d = rtc_calendar_timestamp_to_date t"
  using timestamp_to_date_spec [of t] date_secs_inj [of d "rtc_calendar_timestamp_to_date t"] by auto

text \<open>C16: converting seconds to a date and back gives the same seconds, except for the dates the
  check refuses, for which the result is 0.\<close>

theorem rtc_timestamp_roundtrip:
  "rtc_calendar_date_to_timestamp (rtc_calendar_timestamp_to_date t) =
     (let d = rtc_calendar_timestamp_to_date t
      in if unat (day d) \<le> check_len (leap (unat (year d))) (unat (month d)) then t else 0)"
proof -
  define d where "d = rtc_calendar_timestamp_to_date t"
  have d: "valid_date d" "date_secs d = unat t" using timestamp_to_date_spec [of t] by (simp_all add: d_def)
  show ?thesis
  proof (cases "rtc_calendar_check_utc_time d")
    case True
    then show ?thesis using date_to_timestamp_spec [OF True] d
      by (simp add: d_def [symmetric] Let_def check_iff)
  next
    case False
    then have "rtc_calendar_date_to_timestamp d = 0" by (simp add: rtc_calendar_date_to_timestamp_def)
    moreover have "\<not> unat (day d) \<le> check_len (leap (unat (year d))) (unat (month d))"
      using False d(1) by (auto simp: check_iff valid_date_def)
    ultimately show ?thesis by (simp add: d_def [symmetric] Let_def)
  qed
qed

text \<open>C21: setting the clock to a valid date fails exactly for 29 to 31 January (30 and 31 in a leap
  year) and for the 31st of March, May, August, October and December: the check looks at the length
  of the month after the one given.\<close>

theorem rtc_set_rejects_month_ends:
  assumes "valid_date d"
  shows "rtc_calendar_set_utc_time d c = (False, c) \<longleftrightarrow>
     (month d = 1 \<and> unat (day d) > (if leap (unat (year d)) then 29 else 28))
     \<or> (month d \<in> {3, 5, 8, 10, 12} \<and> day d = 31)"
proof -
  have v: "1 \<le> unat (month d)" "unat (month d) \<le> 12"
    "unat (day d) \<le> mlen (leap (unat (year d))) (unat (month d) - 1)"
    using assms by (simp_all add: valid_date_def)
  have "rtc_calendar_set_utc_time d c = (False, c) \<longleftrightarrow> \<not> rtc_calendar_check_utc_time d"
    by (simp add: rtc_calendar_set_utc_time_def)
  also have "\<dots> \<longleftrightarrow> unat (day d) > check_len (leap (unat (year d))) (unat (month d))"
    using assms by (auto simp: check_iff valid_date_def)
  also have "\<dots> \<longleftrightarrow> (unat (month d) = 1 \<and> unat (day d) > (if leap (unat (year d)) then 29 else 28))
     \<or> (unat (month d) \<in> {3, 5, 8, 10, 12} \<and> unat (day d) = 31)"
    using v by (cases "leap (unat (year d))") (auto simp: check_len_def mlen_def split: if_splits)
  finally show ?thesis by (simp add: word_unat_eq_iff)
qed

lemma rtc_set_rejects_month_ends_witness:
  "valid_date \<lparr>year = 2024, month = 12, day = 31, seconds = 0, minutes = 0, hour = 0\<rparr>
   \<and> rtc_calendar_set_utc_time \<lparr>year = 2024, month = 12, day = 31, seconds = 0, minutes = 0, hour = 0\<rparr>
      \<lparr>second_cnt_rtc = 0, pre_rtc_tick_count = 0, global_time = rtc_calendar_timestamp_to_date 0,
       update_time_sec = 240, callback = False, comparator = 0, reported = []\<rparr>
     = (False, \<lparr>second_cnt_rtc = 0, pre_rtc_tick_count = 0, global_time = rtc_calendar_timestamp_to_date 0,
       update_time_sec = 240, callback = False, comparator = 0, reported = []\<rparr>)"
proof -
  have v: "valid_date \<lparr>year = 2024, month = 12, day = 31, seconds = 0, minutes = 0, hour = 0\<rparr>"
    by (simp add: valid_date_def mlen_def)
  show ?thesis using v by (subst rtc_set_rejects_month_ends [OF v]) simp
qed

text \<open>C19: after \<open>k\<close> interrupts of the comparator the clock has advanced by \<open>k\<close> periods, and a
  registered callback has been given the date of each of them, in order.\<close>

theorem rtc_interrupts_advance:
  "second_cnt_rtc (fold (rtc_calendar_handler ic True) cnts c)
      = second_cnt_rtc c + of_nat (length cnts) * update_time_sec c
    \<and> reported (fold (rtc_calendar_handler ic True) cnts c) = reported c
        @ (if callback c then map (\<lambda>i. rtc_calendar_timestamp_to_date
             (second_cnt_rtc c + of_nat (Suc i) * update_time_sec c)) [0..<length cnts] else [])"
proof (induction cnts arbitrary: c)
  case (Cons x xs)
  have m: "map f [0..<Suc n] = f 0 # map (\<lambda>i. f (Suc i)) [0..<n]" for f :: "nat \<Rightarrow> utc_time" and n
    by (simp add: upt_conv_Cons map_Suc_upt [symmetric] del: upt_Suc)
  show ?case
    using Cons.IH [of "rtc_calendar_handler ic True x c"]
    by (simp add: handler_fields m algebra_simps del: upt_Suc)
qed simp

text \<open>C20: the seconds read off between two interrupts are the ticks elapsed modulo the counter's
  range, divided by the clock frequency, one tick less when the counter has wrapped; but when the
  counter has not moved since the last interrupt the code takes it for a whole turn.\<close>

theorem rtc_diff_seconds:
  assumes "cur \<le> RTC_CNT_MAX_VALUE ic" "pre \<le> RTC_CNT_MAX_VALUE ic"
  defines "m \<equiv> unat (RTC_CNT_MAX_VALUE ic) + 1"
  defines "ticks \<equiv> (unat cur + m - unat pre) mod m"
  shows "unat (rtc_calendar_calculate_diff_second ic cur pre) =
    (if cur = pre then (m - 1) div 32000 else if pre < cur then ticks div 32000 else (ticks - 1) div 32000)"
proof -
  have b: "unat cur < m" "unat pre < m" using assms(1,2) by (simp_all add: m_def word_le_nat_alt)
  show ?thesis
  proof (cases "pre < cur")
    case True
    then have "unat cur + m - unat pre = (unat cur - unat pre) + m" "unat cur - unat pre < m"
      using b by (simp_all add: word_less_nat_alt)
    then have "ticks = unat cur - unat pre" by (simp only: ticks_def mod_add_self2 mod_less)
    then show ?thesis using True by (auto simp: diff_second_forward)
  next
    case False
    then have "cur = pre \<or> unat cur < unat pre" by (auto simp: word_less_nat_alt word_unat_eq_iff)
    moreover have "ticks = unat cur + m - unat pre" if "unat cur < unat pre"
      using that b by (simp add: ticks_def)
    ultimately show ?thesis
      using False diff_second_back [OF _ assms(2), of cur] b
      by (auto simp: m_def word_unat_eq_iff)
  qed
qed

lemma rtc_diff_seconds_witness:
  "rtc_calendar_calculate_diff_second RTL87x3E 0x100 0x100 = 524"
  using rtc_diff_seconds [of "0x100" RTL87x3E "0x100"] by (simp add: word_unat_eq_iff)

text \<open>the update period stays between 1 and 240 seconds and the comparator inside the counter's
  range, from start-up on and through every interrupt.\<close>

theorem rtc_clock_bounds:
  assumes "rtc_calendar_int d p c0 = (True, c)" "update_time_sec c0 = 240"
  shows "clock_ok ic (fold (\<lambda>(pending, cnt). rtc_calendar_handler ic pending cnt) evs c)"
proof -
  have "clock_ok ic c"
    using assms update_cnt_bound [of c ic]
    by (auto simp: rtc_calendar_int_def rtc_calendar_set_utc_time_def clock_ok_def Let_def
        RTC_CALENDAR_COMP_UPDATE_CNT_def word_less_nat_alt split: if_splits)
  then show ?thesis
    by (induction evs arbitrary: c) (auto simp: handler_ok)
qed

lemma rtc_clock_bounds_witness:
  "\<exists>c. rtc_calendar_int \<lparr>year = 2024, month = 3, day = 15, seconds = 1, minutes = 2, hour = 3\<rparr> 0
      \<lparr>second_cnt_rtc = 0, pre_rtc_tick_count = 0, global_time = rtc_calendar_timestamp_to_date 0,
       update_time_sec = 240, callback = True, comparator = 0, reported = []\<rparr> = (True, c)
    \<and> clock_ok RTL87x3E (fold (\<lambda>(pending, cnt). rtc_calendar_handler RTL87x3E pending cnt) [(True, 7), (False, 9)] c)"
proof -
  have "rtc_calendar_check_utc_time \<lparr>year = 2024, month = 3, day = 15, seconds = 1, minutes = 2, hour = 3\<rparr>"
    by (simp add: check_iff check_len_def mlen_def)
  then show ?thesis
    using rtc_clock_bounds [of "\<lparr>year = 2024, month = 3, day = 15, seconds = 1, minutes = 2, hour = 3\<rparr>" 0
      "\<lparr>second_cnt_rtc = 0, pre_rtc_tick_count = 0, global_time = rtc_calendar_timestamp_to_date 0,
       update_time_sec = 240, callback = True, comparator = 0, reported = []\<rparr>" _ RTL87x3E "[(True, 7), (False, 9)]"]
    by (simp add: rtc_calendar_int_def rtc_calendar_set_utc_time_def)
qed

end
