(* ===== verification/Media_Pool.thy ===== *)
theory Media_Pool
  imports Prelude
begin

text \<open>
  The buffer pool of the audio framework, \<open>src/framework/audio/core/media_pool.c\<close>: one heap cut
  into blocks, each behind an 8-byte header, the free ones linked in the order of their addresses.

  The headers are an explicit store from addresses to their contents; \<^const>\<open>None\<close> is memory the
  pool cannot access. Addresses are natural numbers (\<open>size_t\<close> is 32 bits wide, the wrap-around is
  written out where it can happen), \<open>NULL\<close> is \<^const>\<open>None\<close>. The header \<open>pool_start\<close> lies inside the
  pool record, at the address \<open>pool_start\<close>. Loops that follow pointers are
  \<open>partial_function\<close>s: \<^const>\<open>None\<close> stands for running for ever or through \<open>NULL\<close>.
\<close>

section \<open>Data\<close>

record pool_hdr =
  p_next :: "nat option"
  hdr_size :: nat     \<comment> \<open>\<open>uint16_t\<close>\<close>
  hdr_flags :: u8

record media_pool =
  pool_flags :: u32
  pool_start :: nat   \<comment> \<open>the address of the list head\<close>
  p_pool_end :: nat
  heap_addr :: "nat option"
  heap_size :: nat
  heap_size_unused :: nat
  heap_size_mark :: nat
  next_free_block_after_get :: "nat option"
  mem :: "nat \<Rightarrow> pool_hdr option"

abbreviation MEDIA_POOL_BUFFER_ALLOCATED :: u8 where "MEDIA_POOL_BUFFER_ALLOCATED \<equiv> 1"
abbreviation MEDIA_POOL_CREATED :: u32 where "MEDIA_POOL_CREATED \<equiv> 1"
abbreviation POOL_HDR_SIZE :: nat where "POOL_HDR_SIZE \<equiv> 8"
abbreviation POOL_BUFFER_MINI_SIZE :: nat where "POOL_BUFFER_MINI_SIZE \<equiv> 16"

definition align_up :: "nat \<Rightarrow> nat" where
  "align_up a = (if a mod 8 \<noteq> 0 then (a + 7) div 8 * 8 else a)"

definition align_down :: "nat \<Rightarrow> nat" where
  "align_down a = a div 8 * 8"

text \<open>Arithmetic of \<open>uint32_t\<close> and \<open>size_t\<close>.\<close>

definition add32 :: "nat \<Rightarrow> nat \<Rightarrow> nat" where
  "add32 a b = (a + b) mod 2 ^ 32"

definition sub32 :: "nat \<Rightarrow> nat \<Rightarrow> nat" where
  "sub32 a b = (a + 2 ^ 32 - b) mod 2 ^ 32"

lemma add32_small: "a + b < 2 ^ 32 \<Longrightarrow> add32 a b = a + b"
  by (simp add: add32_def)

lemma sub32_small: "b \<le> a \<Longrightarrow> a < 2 ^ 32 \<Longrightarrow> sub32 a b = a - b"
proof -
  assume *: "b \<le> a" "a < 2 ^ 32"
  then have "a + 2 ^ 32 - b = (a - b) + 2 ^ 32" by simp
  then show ?thesis using * by (simp only: sub32_def mod_add_self2) simp
qed

type_synonym store = "nat \<Rightarrow> pool_hdr option"

definition hdr_upd :: "nat \<Rightarrow> (pool_hdr \<Rightarrow> pool_hdr) \<Rightarrow> store \<Rightarrow> store option" where
  "hdr_upd a f m = (case m a of None \<Rightarrow> None | Some c \<Rightarrow> Some (m(a \<mapsto> f c)))"

section \<open>Setting up\<close>

text \<open>The part \<open>media_pool_create\<close> and \<open>media_pool_reset\<close> share.\<close>

definition lay_out :: "nat \<Rightarrow> media_pool \<Rightarrow> media_pool option" where
  "lay_out addr p = do {
     let start = align_up addr;
     let hs = sub32 (heap_size p) (start - addr);
     m1 \<leftarrow> hdr_upd (pool_start p) (\<lambda>c. c\<lparr>p_next := Some start, hdr_size := 0\<rparr>) (mem p);
     let heap_end = align_down (sub32 (add32 start hs) POOL_HDR_SIZE);
     m2 \<leftarrow> hdr_upd heap_end (\<lambda>c. c\<lparr>p_next := None, hdr_size := 0\<rparr>) m1;
     let sz = sub32 heap_end start mod 2 ^ 16;
     m3 \<leftarrow> hdr_upd start (\<lambda>c. c\<lparr>p_next := Some heap_end, hdr_size := sz\<rparr>) m2;
     Some (p\<lparr>p_pool_end := heap_end, mem := m3, heap_size_unused := sz, heap_size_mark := sz,
             next_free_block_after_get := None\<rparr>)
   }"

definition media_pool_reset :: "media_pool option \<Rightarrow> (bool \<times> media_pool option) option" where
  "media_pool_reset handle =
     (case handle of
        None \<Rightarrow> Some (False, None)
      | Some p \<Rightarrow>
          if pool_flags p AND MEDIA_POOL_CREATED = 0 then Some (False, Some p)
          else case heap_addr p of
                 None \<Rightarrow> Some (False, Some p)
               | Some addr \<Rightarrow> do { p' \<leftarrow> lay_out addr p; Some (True, Some p') })"

text \<open>
  \<open>hdr_alloc\<close> and \<open>heap_alloc\<close> are what the two \<open>malloc\<close>s return (the first gives the address of
  \<open>pool_start\<close>), \<open>m\<close> the contents of the memory at that time.
\<close>

definition media_pool_create ::
    "nat option \<Rightarrow> nat option \<Rightarrow> store \<Rightarrow> nat \<Rightarrow> media_pool option option" where
  "media_pool_create hdr_alloc heap_alloc m sz =
     (case (hdr_alloc, heap_alloc) of
        (None, _) \<Rightarrow> Some None
      | (Some _, None) \<Rightarrow> Some None
      | (Some ps, Some addr) \<Rightarrow>
          map_option Some (lay_out addr
            \<lparr>pool_flags = MEDIA_POOL_CREATED, pool_start = ps, p_pool_end = 0, heap_addr = Some addr,
             heap_size = sz, heap_size_unused = 0, heap_size_mark = 0,
             next_free_block_after_get = None, mem = m\<rparr>))"

section \<open>Taking a buffer\<close>

text \<open>The look for the block the last call left, \<open>for (...; p_curr_hdr != p_pool_end; ...)\<close>.\<close>

partial_function (option) check_loop ::
    "store \<Rightarrow> nat \<Rightarrow> nat \<Rightarrow> nat \<Rightarrow> nat \<Rightarrow> nat \<Rightarrow> (nat \<times> nat) option option" where
  "check_loop m nf e n prev cur =
     (if cur = e then Some None
      else if cur = nf then do {
        c \<leftarrow> m cur;
        Some (if hdr_size c < n then None else Some (prev, cur))
      } else do {
        c \<leftarrow> m cur;
        (case p_next c of None \<Rightarrow> None | Some nx \<Rightarrow> check_loop m nf e n cur nx)
      })"

partial_function (option) fit_loop :: "store \<Rightarrow> nat \<Rightarrow> nat \<Rightarrow> nat \<Rightarrow> (nat \<times> nat) option" where
  "fit_loop m n prev cur = do {
     c \<leftarrow> m cur;
     (if hdr_size c < n
      then (case p_next c of None \<Rightarrow> Some (prev, cur) | Some nx \<Rightarrow> fit_loop m n cur nx)
      else Some (prev, cur))
   }"

text \<open>The size asked of the heap, as a \<open>uint16_t\<close>.\<close>

definition block_size :: "nat \<Rightarrow> nat" where
  "block_size n =
     (if n > 0
      then let n1 = (n + POOL_HDR_SIZE) mod 2 ^ 16
           in if n1 mod 8 \<noteq> 0 then ((n1 + 7) div 8 * 8) mod 2 ^ 16 else n1
      else n)"

text \<open>Where the block is taken from: header before it, header, and the new search pointer.\<close>

definition find_block :: "nat \<Rightarrow> media_pool \<Rightarrow> ((nat \<times> nat) \<times> nat option) option" where
  "find_block n p = do {
     h \<leftarrow> mem p (pool_start p);
     r \<leftarrow> (case next_free_block_after_get p of
             None \<Rightarrow> Some (None, None)
           | Some nf \<Rightarrow>
               if nf = p_pool_end p then Some (None, Some nf)
               else (case p_next h of None \<Rightarrow> None
                     | Some first \<Rightarrow> do {
                         r \<leftarrow> check_loop (mem p) nf (p_pool_end p) n (pool_start p) first;
                         Some (case r of None \<Rightarrow> (None, None) | Some pc \<Rightarrow> (Some pc, Some nf))
                       }));
     (case r of
        (Some pc, nf) \<Rightarrow> Some (pc, nf)
      | (None, nf) \<Rightarrow>
          (case p_next h of None \<Rightarrow> None
           | Some first \<Rightarrow> do { pc \<leftarrow> fit_loop (mem p) n (pool_start p) first; Some (pc, nf) }))
   }"

definition pool_get :: "nat \<Rightarrow> media_pool \<Rightarrow> (nat option \<times> media_pool) option" where
  "pool_get buf_size p =
     (if pool_flags p AND MEDIA_POOL_CREATED = 0 then Some (None, p)
      else let n = block_size buf_size in
        if n = 0 \<or> n > heap_size_unused p then Some (None, p)
        else do {
          ((prev, cur), nf) \<leftarrow> find_block n p;
          if cur = p_pool_end p then Some (None, p\<lparr>next_free_block_after_get := nf\<rparr>)
          else do {
            pr \<leftarrow> mem p prev;
            nx \<leftarrow> p_next pr;
            let buf = nx + POOL_HDR_SIZE;
            c \<leftarrow> mem p cur;
            (m1, unused) \<leftarrow>
              (if hdr_size c \<ge> n \<and> hdr_size c - n \<ge> POOL_BUFFER_MINI_SIZE then do {
                 let tmp = nx + n;
                 ma \<leftarrow> hdr_upd tmp (\<lambda>t. \<lparr>p_next = p_next c, hdr_size = hdr_size c - n, hdr_flags = 0\<rparr>) (mem p);
                 mb \<leftarrow> hdr_upd prev (\<lambda>h. h\<lparr>p_next := Some tmp\<rparr>) ma;
                 mc \<leftarrow> hdr_upd cur (\<lambda>h. h\<lparr>hdr_size := n\<rparr>) mb;
                 Some (mc, sub32 (heap_size_unused p) n)
               } else do {
                 ma \<leftarrow> hdr_upd prev (\<lambda>h. h\<lparr>p_next := p_next c\<rparr>) (mem p);
                 Some (ma, sub32 (heap_size_unused p) (hdr_size c))
               });
            m2 \<leftarrow> hdr_upd cur (\<lambda>h. h\<lparr>p_next := None, hdr_flags := MEDIA_POOL_BUFFER_ALLOCATED\<rparr>) m1;
            pr' \<leftarrow> m2 prev;
            Some (Some buf, p\<lparr>mem := m2, heap_size_unused := unused,
              heap_size_mark := (if unused < heap_size_mark p then unused else heap_size_mark p),
              next_free_block_after_get := p_next pr'\<rparr>)
          }
        })"

definition media_buffer_get :: "media_pool option \<Rightarrow> nat \<Rightarrow> (nat option \<times> media_pool option) option" where
  "media_buffer_get handle buf_size =
     (case handle of
        None \<Rightarrow> Some (None, None)
      | Some p \<Rightarrow> map_option (\<lambda>(r, p'). (r, Some p')) (pool_get buf_size p))"

section \<open>Giving a buffer back\<close>

text \<open>\<open>NULL\<close> compares below every header, so the code would follow it.\<close>

partial_function (option) put_loop :: "store \<Rightarrow> nat \<Rightarrow> nat \<Rightarrow> nat option" where
  "put_loop m hdr cur = do {
     c \<leftarrow> m cur;
     (case p_next c of None \<Rightarrow> None
      | Some nx \<Rightarrow> if nx < hdr then put_loop m hdr nx else Some cur)
   }"

definition merge_left :: "nat \<Rightarrow> nat \<Rightarrow> store \<Rightarrow> (nat \<times> store) option" where
  "merge_left hdr cur m = do {
     h \<leftarrow> m hdr;
     c \<leftarrow> m cur;
     (if cur + hdr_size c = hdr
      then do {
        m' \<leftarrow> hdr_upd cur (\<lambda>c. c\<lparr>hdr_size := (hdr_size c + hdr_size h) mod 2 ^ 16\<rparr>) m;
        Some (cur, m')
      } else Some (hdr, m))
   }"

definition merge_right ::
    "nat \<Rightarrow> nat \<Rightarrow> nat \<Rightarrow> nat option \<Rightarrow> store \<Rightarrow> (nat option \<times> store) option" where
  "merge_right e hdr cur nf m = do {
     h \<leftarrow> m hdr;
     c \<leftarrow> m cur;
     (case p_next c of
        Some nx \<Rightarrow>
          if hdr + hdr_size h = nx then do {
            m' \<leftarrow> (if nx \<noteq> e then do {
                     r \<leftarrow> m nx;
                     hdr_upd hdr (\<lambda>h. h\<lparr>hdr_size := (hdr_size h + hdr_size r) mod 2 ^ 16, p_next := p_next r\<rparr>) m
                   } else hdr_upd hdr (\<lambda>h. h\<lparr>p_next := Some e\<rparr>) m);
            c' \<leftarrow> m' cur;
            Some (if nf = p_next c' then Some hdr else nf, m')
          } else do {
            m' \<leftarrow> hdr_upd hdr (\<lambda>h. h\<lparr>p_next := Some nx\<rparr>) m;
            Some (nf, m')
          }
      | None \<Rightarrow> do {
          m' \<leftarrow> hdr_upd hdr (\<lambda>h. h\<lparr>p_next := None\<rparr>) m;
          Some (nf, m')
        })
   }"

definition pool_put :: "nat option \<Rightarrow> media_pool \<Rightarrow> (bool \<times> media_pool) option" where
  "pool_put buf p =
     (if pool_flags p AND MEDIA_POOL_CREATED = 0 then Some (False, p)
      else case buf of
        None \<Rightarrow> Some (False, p)
      | Some b \<Rightarrow>
          if b mod 4 \<noteq> 0 then Some (False, p)
          else do {
            let hdr = b - POOL_HDR_SIZE;
            h \<leftarrow> mem p hdr;
            if hdr_flags h AND MEDIA_POOL_BUFFER_ALLOCATED = 0 then Some (False, p)
            else do {
              m1 \<leftarrow> hdr_upd hdr (\<lambda>h. h\<lparr>hdr_flags := 0\<rparr>) (mem p);
              let unused = add32 (heap_size_unused p) (hdr_size h);
              cur \<leftarrow> put_loop m1 hdr (pool_start p);
              (hdr2, m2) \<leftarrow> merge_left hdr cur m1;
              (nf, m3) \<leftarrow> merge_right (p_pool_end p) hdr2 cur (next_free_block_after_get p) m2;
              m4 \<leftarrow> (if cur \<noteq> hdr2 then hdr_upd cur (\<lambda>c. c\<lparr>p_next := Some hdr2\<rparr>) m3 else Some m3);
              Some (True, p\<lparr>mem := m4, heap_size_unused := unused, next_free_block_after_get := nf\<rparr>)
            }
          })"

definition media_buffer_put :: "media_pool option \<Rightarrow> nat option \<Rightarrow> (bool \<times> media_pool option) option" where
  "media_buffer_put handle buf =
     (case handle of
        None \<Rightarrow> Some (False, None)
      | Some p \<Rightarrow> map_option (\<lambda>(r, p'). (r, Some p')) (pool_put buf p))"

section \<open>Releasing the pool\<close>

text \<open>The blocks handed to \<open>free\<close>, in order: the heap, then the pool record itself.\<close>

definition media_pool_destroy :: "media_pool option \<Rightarrow> nat list" where
  "media_pool_destroy handle =
     (case handle of None \<Rightarrow> []
      | Some p \<Rightarrow> (case heap_addr p of None \<Rightarrow> [] | Some a \<Rightarrow> [a]) @ [pool_start p])"

section \<open>The heap as a list of blocks\<close>

text \<open>Address, size (with the header) and whether the block is in use.\<close>

type_synonym block = "nat \<times> nat \<times> bool"

fun tile :: "nat \<Rightarrow> block list \<Rightarrow> nat \<Rightarrow> bool" where
  "tile a [] e \<longleftrightarrow> a = e"
| "tile a ((b, s, u) # R) e \<longleftrightarrow> b = a \<and> 8 \<le> s \<and> s mod 8 = 0 \<and> tile (a + s) R e"

fun first_free :: "block list \<Rightarrow> nat \<Rightarrow> nat" where
  "first_free [] n = n"
| "first_free ((a, s, u) # R) n = (if u then first_free R n else a)"

fun last_free :: "block list \<Rightarrow> nat \<Rightarrow> nat" where
  "last_free [] p = p"
| "last_free ((a, s, u) # R) p = last_free R (if u then p else a)"

fun linked :: "store \<Rightarrow> block list \<Rightarrow> nat \<Rightarrow> bool" where
  "linked m [] n \<longleftrightarrow> True"
| "linked m ((a, s, u) # R) n \<longleftrightarrow>
     (\<exists>h. m a = Some h \<and> hdr_size h = s \<and> (u \<longrightarrow> hdr_flags h AND MEDIA_POOL_BUFFER_ALLOCATED \<noteq> 0)
        \<and> (\<not> u \<longrightarrow> p_next h = Some (first_free R n))) \<and> linked m R n"

definition free_total :: "block list \<Rightarrow> nat" where
  "free_total B = (\<Sum>(a, s, u) \<leftarrow> B. if u then 0 else s)"

fun no_adj :: "block list \<Rightarrow> bool" where
  "no_adj ((a, s, u) # (b, t, v) # R) \<longleftrightarrow> (u \<or> v) \<and> no_adj ((b, t, v) # R)"
| "no_adj _ \<longleftrightarrow> True"

fun coalesce :: "block list \<Rightarrow> block list" where
  "coalesce ((a, s, u) # (b, t, v) # R) =
     (if \<not> u \<and> \<not> v then coalesce ((a, s + t, False) # R) else (a, s, u) # coalesce ((b, t, v) # R))"
| "coalesce B = B"

lemma first_free_append [simp]: "first_free (L @ R) n = first_free L (first_free R n)"
  by (induction L) auto

lemma last_free_append [simp]: "last_free (L @ R) p = last_free R (last_free L p)"
  by (induction L arbitrary: p) auto

lemma linked_append [simp]: "linked m (L @ R) n \<longleftrightarrow> linked m L (first_free R n) \<and> linked m R n"
  by (induction L) auto

lemma free_total_simps [simp]:
  "free_total [] = 0" "free_total ((a, s, u) # B) = (if u then 0 else s) + free_total B"
  "free_total (L @ R) = free_total L + free_total R"
  by (simp_all add: free_total_def)

lemma free_le_total: "(a, s, False) \<in> set B \<Longrightarrow> s \<le> free_total B"
  by (induction B) auto

lemma tile_append: "tile a (L @ R) e \<longleftrightarrow> (\<exists>b. tile a L b \<and> tile b R e)"
  by (induction L arbitrary: a) auto

lemma tile_le: "tile a B e \<Longrightarrow> a \<le> e"
  by (induction B arbitrary: a) (auto, fastforce)

lemma tile_bounds: "tile a B e \<Longrightarrow> (b, s, u) \<in> set B \<Longrightarrow> a \<le> b \<and> b + s \<le> e \<and> 8 \<le> s \<and> b mod 8 = a mod 8"
proof (induction B arbitrary: a)
  case (Cons x B)
  obtain c t v where x: "x = (c, t, v)" by (cases x)
  show ?case
  proof (cases "(b, s, u) = x")
    case True
    then show ?thesis using Cons.prems x tile_le by auto
  next
    case False
    then have "a + t \<le> b \<and> b + s \<le> e \<and> 8 \<le> s \<and> b mod 8 = (a + t) mod 8"
      using Cons x by auto
    moreover have "(a + t) mod 8 = a mod 8" using Cons.prems(1) x by (simp add: mod_add_eq [symmetric])
    ultimately show ?thesis by simp
  qed
qed simp

lemma tile_last: "tile a (L @ (b, s, u) # R) e \<Longrightarrow> tile a L b \<and> tile (b + s) R e \<and> 8 \<le> s \<and> s mod 8 = 0"
  by (auto simp: tile_append)

lemma tile_distinct: "tile a B e \<Longrightarrow> distinct (map fst B)"
proof (induction B arbitrary: a)
  case (Cons x B)
  obtain c t v where x: "x = (c, t, v)" by (cases x)
  then have t: "tile (a + t) B e" "c = a" "8 \<le> t" using Cons.prems by auto
  then have "c \<notin> fst ` set B" using tile_bounds [OF t(1)] by fastforce
  then show ?case using Cons.IH [OF t(1)] x by simp
qed simp

fun has_free :: "block list \<Rightarrow> bool" where
  "has_free [] \<longleftrightarrow> False"
| "has_free ((a, s, u) # R) \<longleftrightarrow> \<not> u \<or> has_free R"

lemma has_free_append [simp]: "has_free (L @ R) \<longleftrightarrow> has_free L \<or> has_free R"
  by (induction L rule: has_free.induct) auto

lemma has_free_in: "has_free B \<longleftrightarrow> (\<exists>a s. (a, s, False) \<in> set B)"
  by (induction B rule: has_free.induct) auto

lemma first_free_in: "has_free B \<Longrightarrow> first_free B n \<in> fst ` set B"
  by (induction B rule: has_free.induct) auto

lemma last_free_in: "has_free B \<Longrightarrow> last_free B p \<in> fst ` set B"
proof (induction B arbitrary: p rule: has_free.induct)
  case (2 a s u R)
  show ?case
  proof (cases "has_free R")
    case True
    then show ?thesis using "2.IH" by simp
  next
    case False
    then have "last_free R q = q" for q by (induction R arbitrary: q rule: has_free.induct) auto
    then show ?thesis using "2.prems" False by simp
  qed
qed simp

lemma no_free: "\<not> has_free B \<Longrightarrow> linked m B n' = linked m B n \<and> first_free B n = n \<and> last_free B p = p"
  by (induction B arbitrary: p rule: has_free.induct) auto

lemma linked_frame: "(\<And>a. a \<in> fst ` set B \<Longrightarrow> m' a = m a) \<Longrightarrow> linked m' B n = linked m B n"
  by (induction B rule: has_free.induct) auto

lemma first_free_has: "has_free B \<Longrightarrow> first_free B n = first_free B n'"
  by (induction B rule: has_free.induct) auto

lemma last_free_has: "has_free B \<Longrightarrow> last_free B p = last_free B q"
  by (induction B arbitrary: p q rule: has_free.induct) auto

lemma last_free_or: "last_free B p = p \<or> last_free B p \<in> fst ` set B"
  using last_free_in [of B p] no_free [of B] by blast

text \<open>Redirecting the last free header before a point redirects the list at that point.\<close>

lemma linked_relink:
  assumes "linked m B n" "distinct (map fst B)" "p \<notin> fst ` set B" "m (last_free B p) = Some h"
  shows "linked (m(last_free B p \<mapsto> h\<lparr>p_next := Some n'\<rparr>)) B n'"
  using assms
proof (induction B arbitrary: p)
  case (Cons x B)
  obtain a s u where x: "x = (a, s, u)" by (cases x)
  have d: "distinct (map fst B)" "a \<notin> fst ` set B" "linked m B n" using Cons.prems x by auto
  let ?l = "last_free (x # B) p"
  have l: "?l = last_free B (if u then p else a)" by (simp add: x)
  define m' where "m' = m(?l \<mapsto> h\<lparr>p_next := Some n'\<rparr>)"
  have tail: "linked m' B n'"
    unfolding l m'_def
  proof (rule Cons.IH)
    show "(if u then p else a) \<notin> fst ` set B" using Cons.prems(3) d(2) x by auto
    show "m (last_free B (if u then p else a)) = Some h" using Cons.prems(4) x by simp
  qed (use d in auto)
  show ?case
  proof (cases "u \<or> has_free B")
    case True
    have "a \<noteq> ?l"
    proof (cases "has_free B")
      case True
      then show ?thesis using last_free_in d(2) by (metis l)
    next
      case False
      then show ?thesis using True no_free [of B] Cons.prems(3) x by (auto simp: l)
    qed
    moreover have "\<not> u \<Longrightarrow> first_free B n' = first_free B n" using True first_free_has by simp
    moreover have "m' a = m a" if "a \<noteq> ?l" using that by (simp add: m'_def)
    ultimately have "linked m' (x # B) n'" using Cons.prems(1) tail unfolding x by (simp del: last_free.simps)
    then show ?thesis by (simp only: m'_def)
  next
    case False
    then have "?l = a" "first_free B n' = n'" using no_free [of B] by (simp_all add: l)
    then have "linked m' (x # B) n'" using Cons.prems(1,4) tail False
      unfolding x by (simp del: last_free.simps add: m'_def [unfolded x])
    then show ?thesis by (simp only: m'_def)
  qed
qed simp

section \<open>The loops over the free list\<close>

lemma put_loop_eq:
  assumes "m q = Some h" "p_next h = Some (first_free L N)" "linked m L N"
    "\<forall>a \<in> fst ` set L. a < d" "d \<le> N"
  shows "put_loop m d q = Some (last_free L q)"
  using assms
proof (induction L arbitrary: q h rule: has_free.induct)
  case 1
  then show ?case by (subst put_loop.simps) simp
next
  case (2 a s u R)
  show ?case
  proof (cases u)
    case True
    then show ?thesis using "2.IH" [of q h] "2.prems" by simp
  next
    case False
    then have "put_loop m d q = put_loop m d a" using "2.prems" by (subst put_loop.simps) simp
    then show ?thesis using "2.IH" [of a] "2.prems" False by auto
  qed
qed

lemma fit_loop_eq:
  assumes "linked m L N" "\<forall>(a, s, u) \<in> set L. \<not> u \<longrightarrow> s < n"
    "m N = Some c" "n \<le> hdr_size c \<or> p_next c = None"
  shows "fit_loop m n q (first_free L N) = Some (last_free L q, N)"
  using assms
proof (induction L arbitrary: q rule: has_free.induct)
  case 1
  then show ?case by (subst fit_loop.simps) (auto simp: not_less)
next
  case (2 a s u R)
  show ?case
  proof (cases u)
    case True
    then show ?thesis using "2.IH" [of q] "2.prems" by simp
  next
    case False
    then have "fit_loop m n q a = fit_loop m n a (first_free R N)"
      using "2.prems" by (subst fit_loop.simps) auto
    then show ?thesis using "2.IH" [of a] "2.prems" False by simp
  qed
qed

lemma check_loop_eq:
  assumes "linked m L N" "\<forall>(a, s, u) \<in> set L. \<not> u \<longrightarrow> a \<noteq> nf" "e \<notin> fst ` set L" "N = e \<or> N = nf"
    "N = nf \<Longrightarrow> m N = Some c"
  shows "check_loop m nf e n q (first_free L N)
    = Some (if N = e \<or> hdr_size c < n then None else Some (last_free L q, N))"
  using assms
proof (induction L arbitrary: q rule: has_free.induct)
  case 1
  then show ?case by (subst check_loop.simps) auto
next
  case (2 a s u R)
  show ?case
  proof (cases u)
    case True
    then show ?thesis using "2.IH" [of q] "2.prems" by simp
  next
    case False
    then have "check_loop m nf e n q a = check_loop m nf e n a (first_free R N)"
      using "2.prems" by (subst check_loop.simps) auto
    then show ?thesis using "2.IH" [of a] "2.prems" False by simp
  qed
qed

section \<open>What a pool is\<close>

definition heap_start :: "media_pool \<Rightarrow> nat" where
  "heap_start p = align_up (case heap_addr p of None \<Rightarrow> 0 | Some a \<Rightarrow> a)"

definition pool_rel :: "media_pool \<Rightarrow> block list \<Rightarrow> bool" where
  "pool_rel p B \<longleftrightarrow> pool_flags p AND MEDIA_POOL_CREATED \<noteq> 0
     \<and> tile (heap_start p) B (p_pool_end p) \<and> heap_start p mod 8 = 0
     \<and> p_pool_end p < heap_start p + 2 ^ 16 \<and> p_pool_end p + 8 \<le> 2 ^ 32
     \<and> pool_start p \<notin> {heap_start p..p_pool_end p}
     \<and> (\<forall>a. heap_start p \<le> a \<and> a \<le> p_pool_end p \<and> a mod 8 = 0 \<longrightarrow> mem p a \<noteq> None)
     \<and> linked (mem p) B (p_pool_end p)
     \<and> (\<exists>h. mem p (p_pool_end p) = Some h \<and> p_next h = None \<and> hdr_size h = 0)
     \<and> (\<exists>h. mem p (pool_start p) = Some h \<and> p_next h = Some (first_free B (p_pool_end p)) \<and> hdr_size h = 0)
     \<and> no_adj B \<and> heap_size_unused p = free_total B \<and> heap_size_mark p \<le> heap_size_unused p"

lemma pool_relD:
  assumes "pool_rel p B"
  shows "pool_flags p AND MEDIA_POOL_CREATED \<noteq> 0"
    "tile (heap_start p) B (p_pool_end p)" "heap_start p mod 8 = 0"
    "p_pool_end p < heap_start p + 2 ^ 16" "p_pool_end p + 8 \<le> 2 ^ 32"
    "pool_start p \<notin> fst ` set B" "pool_start p \<noteq> p_pool_end p" "p_pool_end p \<notin> fst ` set B"
    "\<And>a. heap_start p \<le> a \<Longrightarrow> a \<le> p_pool_end p \<Longrightarrow> a mod 8 = 0 \<Longrightarrow> \<exists>h. mem p a = Some h"
    "linked (mem p) B (p_pool_end p)"
    "\<exists>h. mem p (p_pool_end p) = Some h \<and> p_next h = None \<and> hdr_size h = 0"
    "\<exists>h. mem p (pool_start p) = Some h \<and> p_next h = Some (first_free B (p_pool_end p)) \<and> hdr_size h = 0"
    "no_adj B" "heap_size_unused p = free_total B" "heap_size_mark p \<le> heap_size_unused p"
    "distinct (map fst B)" "\<And>a s u. (a, s, u) \<in> set B \<Longrightarrow> heap_start p \<le> a \<and> a + s \<le> p_pool_end p \<and> 8 \<le> s \<and> a mod 8 = 0"
    "pool_start p \<notin> {heap_start p..p_pool_end p}"
proof -
  note r = assms [unfolded pool_rel_def]
  show t: "tile (heap_start p) B (p_pool_end p)" and m8: "heap_start p mod 8 = 0" using r by blast+
  show b: "heap_start p \<le> a \<and> a + s \<le> p_pool_end p \<and> 8 \<le> s \<and> a mod 8 = 0" if "(a, s, u) \<in> set B" for a s u
    using tile_bounds [OF t that] m8 by simp
  then show "pool_start p \<notin> fst ` set B" "p_pool_end p \<notin> fst ` set B" using r by fastforce+
  show "pool_start p \<noteq> p_pool_end p" using r tile_le [OF t] by auto
  show "distinct (map fst B)" by (rule tile_distinct [OF t])
  have mp: "\<forall>a. heap_start p \<le> a \<and> a \<le> p_pool_end p \<and> a mod 8 = 0 \<longrightarrow> mem p a \<noteq> None"
    by (insert r, elim conjE, assumption)
  show "\<exists>h. mem p a = Some h" if "heap_start p \<le> a" "a \<le> p_pool_end p" "a mod 8 = 0" for a
    using mp [rule_format, of a] that by simp
qed (insert assms [unfolded pool_rel_def], (elim conjE, assumption)+)

lemma sum_sizes: "tile a B e \<Longrightarrow> a + free_total B \<le> e"
  by (induction B arbitrary: a rule: has_free.induct) (auto, fastforce+)

lemma prefix_addr: "tile a (L @ (b, s, u) # R) e \<Longrightarrow> x \<in> fst ` set L \<Longrightarrow> x < b"
  using tile_bounds [of a L b] by (fastforce simp: tile_append)

lemma suffix_addr: "tile a (L @ (b, s, u) # R) e \<Longrightarrow> x \<in> fst ` set R \<Longrightarrow> b + s \<le> x \<and> b < x"
  using tile_bounds [of "b + s" R e] by (fastforce simp: tile_append)

section \<open>Joining free neighbours\<close>

lemma no_adj_append: "no_adj (L @ R) \<Longrightarrow> no_adj L \<and> no_adj R"
proof (induction L rule: no_adj.induct, goal_cases)
  case (3 x)
  then show ?case by (cases x; cases R) (auto simp: no_adj.simps)
qed auto

lemma coalesce_id: "no_adj B \<Longrightarrow> coalesce B = B"
  by (induction B rule: no_adj.induct) auto

text \<open>A list that does not end in a free block is not changed by what follows.\<close>

lemma coalesce_after:
  "no_adj L \<Longrightarrow> (L = [] \<or> snd (snd (last L))) \<Longrightarrow> coalesce (L @ Y) = L @ coalesce Y"
proof (induction L rule: no_adj.induct, goal_cases)
  case (3 x)
  then show ?case by (cases x; cases Y) auto
qed auto

lemma join_right:
  assumes "no_adj R"
  obtains (none) "R = []" "coalesce ((a, s, False) # R) = [(a, s, False)]"
  | (free) r t R' where "R = (r, t, False) # R'" "coalesce ((a, s, False) # R) = (a, s + t, False) # R'"
      "no_adj ((a, s + t, False) # R')"
  | (used) r t R' where "R = (r, t, True) # R'" "coalesce ((a, s, False) # R) = (a, s, False) # R"
proof (cases R)
  case Nil
  then show ?thesis using none by simp
next
  case (Cons x R')
  obtain r t u where x: "x = (r, t, u)" by (cases x)
  show ?thesis
  proof (cases u)
    case True
    then show ?thesis using used [of r t R'] assms coalesce_id [of R] by (simp add: Cons x)
  next
    case False
    then have "no_adj ((a, s + t, False) # R')" using assms Cons x by (cases R') auto
    then show ?thesis using free [of r t R'] False coalesce_id by (simp add: Cons x)
  qed
qed

lemma no_adj_coalesce: "no_adj (coalesce B)"
proof (induction B rule: coalesce.induct)
  case (1 a s u b t v R)
  show ?case
  proof (cases "\<not> u \<and> \<not> v")
    case True
    then show ?thesis using "1.IH" by simp
  next
    case False
    have hd: "\<exists>t' R'. coalesce ((b, t, v) # R) = (b, t', v) # R'" for R
    proof (induction R arbitrary: t)
      case (Cons y R)
      then show ?case by (cases y) auto
    qed simp
    obtain t' R' where "coalesce ((b, t, v) # R) = (b, t', v) # R'" using hd by blast
    then show ?thesis using "1.IH" False by auto
  qed
qed simp_all

lemma free_total_coalesce: "free_total (coalesce B) = free_total B"
  by (induction B rule: coalesce.induct) auto

lemma tile_coalesce: "tile a B e \<Longrightarrow> tile a (coalesce B) e"
proof (induction B arbitrary: a rule: coalesce.induct)
  case (1 a s u b t v R)
  then show ?case by (auto simp: add.assoc)
qed simp_all

lemma used_coalesce: "(x, y, True) \<in> set (coalesce B) \<longleftrightarrow> (x, y, True) \<in> set B"
  by (induction B rule: coalesce.induct) auto

lemma last_link:
  assumes "linked m L N" "m q = Some h" "p_next h = Some (first_free L N)"
  shows "\<exists>c. m (last_free L q) = Some c \<and> p_next c = Some N"
  using assms
proof (induction L arbitrary: q h rule: has_free.induct)
  case (2 a s u R)
  then show ?case by (cases u) auto
qed simp

lemma hdr_eta: "hdr_size h = s \<Longrightarrow> h\<lparr>hdr_size := s, p_next := n\<rparr> = h\<lparr>p_next := n\<rparr>"
  by (cases h) simp

lemma merge_right_eq:
  assumes nR: "no_adj R" and tR: "tile (x + sx) R e"
    and h: "m x = Some h" "hdr_size h = sx" and c: "m cur = Some c" "p_next c = Some (first_free R e)"
    and lk: "linked m R e" and small: "x + 2 ^ 16 > e"
  obtains s' R' nf' where "coalesce ((x, sx, False) # R) = (x, s', False) # R'"
    "merge_right e x cur nf m = Some (nf', m(x \<mapsto> h\<lparr>hdr_size := s', p_next := Some (first_free R' e)\<rparr>))"
    "set R' \<subseteq> set R" "linked m R' e"
proof (rule join_right [OF nR, of x sx])
  assume "R = []" "coalesce ((x, sx, False) # R) = [(x, sx, False)]"
  then show thesis using that [of sx "[]"] tR h c
    by (cases "cur = x") (simp_all add: merge_right_def hdr_upd_def hdr_eta)
next
  fix r t R' assume R: "R = (r, t, False) # R'" "coalesce ((x, sx, False) # R) = (x, sx + t, False) # R'"
  obtain hr where hr: "m r = Some hr" "hdr_size hr = t" "p_next hr = Some (first_free R' e)" "linked m R' e"
    using lk R(1) by auto
  have "r \<noteq> e" "(sx + t) mod 65536 = sx + t"
    using tR R(1) tile_le [of "x + sx + t" R' e] small by auto
  then show thesis using that [of "sx + t" R'] R tR h c hr
    by (cases "cur = x") (auto simp: merge_right_def hdr_upd_def)
next
  fix r t R' assume R: "R = (r, t, True) # R'" "coalesce ((x, sx, False) # R) = (x, sx, False) # R"
  have "x + sx \<noteq> first_free R e"
  proof (cases "has_free R'")
    case True
    then obtain y u v where "first_free R' e = y" "(y, u, v) \<in> set R'" using first_free_in by fastforce
    then show ?thesis using tR R(1) tile_bounds [of "x + sx + t" R' e] by fastforce
  next
    case False
    then show ?thesis using tR R(1) no_free [of R' undefined e e] tile_le [of "x + sx + t" R' e] by simp
  qed
  then show thesis using that [of sx R nf] R h c lk
    by (simp add: merge_right_def hdr_upd_def hdr_eta)
qed

section \<open>Giving a buffer back\<close>

lemma linked_fresh [simp]: "x \<notin> fst ` set B \<Longrightarrow> linked (m(x := v)) B n = linked m B n"
  by (rule linked_frame) auto

lemma pool_rel_change:
  assumes rel: "pool_rel p B"
    and "tile (heap_start p) B' (p_pool_end p)" "no_adj B'" "linked m' B' (p_pool_end p)"
    and "m' (p_pool_end p) = mem p (p_pool_end p)" "\<And>a. mem p a \<noteq> None \<Longrightarrow> m' a \<noteq> None"
    and "\<exists>h. m' (pool_start p) = Some h \<and> p_next h = Some (first_free B' (p_pool_end p)) \<and> hdr_size h = 0"
    and "unused = free_total B'" "mark \<le> unused"
  shows "pool_rel (p\<lparr>mem := m', heap_size_unused := unused, heap_size_mark := mark,
      next_free_block_after_get := nf\<rparr>) B'"
proof -
  let ?p = "p\<lparr>mem := m', heap_size_unused := unused, heap_size_mark := mark, next_free_block_after_get := nf\<rparr>"
  have "heap_start ?p = heap_start p" by (simp add: heap_start_def)
  moreover have "\<forall>a. heap_start p \<le> a \<and> a \<le> p_pool_end p \<and> a mod 8 = 0 \<longrightarrow> m' a \<noteq> None"
    using pool_relD(9) [OF rel] assms(6) by (metis option.distinct(1))
  ultimately show ?thesis
    using rel assms(2-5,7-) pool_relD(11) [OF rel] unfolding pool_rel_def by simp
qed

lemma no_adj_last: "no_adj (L @ [(x, y, False)]) \<Longrightarrow> L = [] \<or> snd (snd (last L))"
proof (cases L rule: rev_cases)
  case (snoc M z)
  assume "no_adj (L @ [(x, y, False)])"
  then show ?thesis using no_adj_append [of M "[z, (x, y, False)]"] by (cases z) (simp add: snoc)
qed simp

lemma last_used_no_merge:
  assumes "tile s0 (L @ [(a, s, u)]) b" "linked m L N" "m (last_free L q) = Some c" "L = [] \<or> snd (snd (last L))"
    "q \<notin> fst ` set L" "has_free L"
  shows "last_free L q + hdr_size c \<noteq> a"
proof -
  obtain l t where l: "(l, t, False) \<in> set L" "last_free L q = l" "hdr_size c = t"
  proof -
    have "\<exists>l t. (l, t, False) \<in> set L \<and> last_free L q = l \<and> hdr_size c = t"
      using assms(2,3,6)
    proof (induction L arbitrary: q rule: has_free.induct)
      case (2 x y u R)
      show ?case
      proof (cases "has_free R")
        case True
        then show ?thesis using "2.IH" [of q] "2.IH" [of x] "2.prems" by (cases u) auto
      next
        case False
        then have "\<not> u" "last_free R x = x" using "2.prems"(3) no_free [of R] by auto
        then show ?thesis using "2.prems" by auto
      qed
    qed simp
    then show thesis using that by blast
  qed
  obtain M where L: "L = M @ [last L]" using assms(6) by (cases L rule: rev_cases) auto
  obtain y z where la: "last L = (y, z, True)" using assms(4,6) by (cases "last L") auto
  have "(l, t, False) \<in> set M" using l(1) la by (subst (asm) L) auto
  moreover have "tile s0 (M @ (y, z, True) # [(a, s, u)]) b"
    using assms(1) by (subst (asm) L) (simp add: la)
  ultimately have "l + t \<le> y" "y + z = a" "8 \<le> z"
    using tile_bounds [of s0 M y l t False] by (auto simp: tile_append)
  then show ?thesis using l by simp
qed

lemma pool_put_block:
  assumes rel: "pool_rel p (L @ (a, s, True) # R)"
  shows "\<exists>p'. pool_put (Some (a + 8)) p = Some (True, p') \<and> pool_rel p' (coalesce (L @ (a, s, False) # R))
    \<and> heap_start p' = heap_start p \<and> p_pool_end p' = p_pool_end p
    \<and> (\<exists>h. mem p' a = Some h \<and> hdr_flags h = 0)"
proof -
  let ?B = "L @ (a, s, True) # R"
  let ?e = "p_pool_end p" and ?ps = "pool_start p"
  note r = pool_relD [OF rel]
  note t = r(2)
  have tl: "tile (heap_start p) L a" "tile (a + s) R ?e" "8 \<le> s" "s mod 8 = 0" using tile_last [OF t] by auto
  have a: "heap_start p \<le> a" "a + s \<le> ?e" "a mod 8 = 0" "a \<notin> fst ` set L" "a \<notin> fst ` set R" "a \<noteq> ?e" "?ps \<noteq> a"
    using r(17) [of a s True] r(8,16,6) by auto
  have nadj: "no_adj L" "no_adj R" using no_adj_append [OF r(13)] no_adj_append [of "[(a, s, True)]" R] by auto
  have lk: "linked (mem p) L (first_free R ?e)" "linked (mem p) R ?e" using r(10) by auto
  obtain h where h: "mem p a = Some h" "hdr_size h = s" "hdr_flags h AND MEDIA_POOL_BUFFER_ALLOCATED \<noteq> 0"
    using r(10) by auto
  define m1 where "m1 = (mem p)(a \<mapsto> h\<lparr>hdr_flags := 0\<rparr>)"
  have lk1: "linked m1 L (first_free R ?e)" "linked m1 R ?e"
    using lk a(4,5) by (simp_all add: m1_def)
  obtain hs where hs: "mem p ?ps = Some hs" "p_next hs = Some (first_free L (first_free R ?e))" "hdr_size hs = 0"
    using r(12) by auto
  have hs1: "m1 ?ps = Some hs" using hs(1) a(7) by (simp add: m1_def)
  define cur where "cur = last_free L ?ps"
  obtain c where c: "m1 cur = Some c" "p_next c = Some (first_free R ?e)"
    using last_link [OF lk1(1) hs1 hs(2)] by (auto simp: cur_def)
  have cur_ne: "cur \<noteq> a" "cur \<notin> fst ` set R" "cur \<noteq> ?e"
  proof -
    have "?ps \<notin> fst ` set L" "?ps \<notin> fst ` set R" "?e \<notin> fst ` set L" "fst ` set L \<inter> fst ` set R = {}"
      using r(6,8,16) by auto
    then show "cur \<noteq> a" "cur \<notin> fst ` set R" "cur \<noteq> ?e"
      using last_free_or [of L ?ps] a(4,7) r(7) unfolding cur_def by (metis, metis disjoint_iff, metis)
  qed
  have ff: "a \<le> first_free R ?e"
    using first_free_in [of R ?e] no_free [of R undefined ?e ?e] suffix_addr [OF t, of "first_free R ?e"] a(2)
    by (cases "has_free R") (auto intro: less_imp_le)
  have loop: "put_loop m1 a ?ps = Some cur"
    unfolding cur_def using prefix_addr [OF t]
    by (intro put_loop_eq [OF hs1 hs(2) lk1(1) _ ff]) auto
  have small: "\<And>x. heap_start p \<le> x \<Longrightarrow> x + 2 ^ 16 > ?e" using r(4) by simp
  have un: "add32 (heap_size_unused p) s = free_total ?B + s"
  proof -
    have "free_total ?B + s \<le> ?e" using sum_sizes [of "heap_start p" "L @ (a, s, False) # R" ?e] tl
      by (auto simp: tile_append)
    then show ?thesis using r(5,14) by (simp add: add32_small)
  qed
  have dom: "\<And>x. mem p x \<noteq> None \<Longrightarrow> m1 x \<noteq> None" by (simp add: m1_def)
  have b4: "(a + 8) mod 4 = 0" using a(3) by presburger
  have fl: "hdr_flags (h\<lparr>hdr_flags := 0\<rparr>) AND MEDIA_POOL_BUFFER_ALLOCATED = 0" by simp
  show ?thesis
  proof (cases "L \<noteq> [] \<and> \<not> snd (snd (last L))")
    case False
    then have last: "L = [] \<or> snd (snd (last L))" by blast
    have co: "coalesce (L @ (a, s, False) # R) = L @ coalesce ((a, s, False) # R)"
      using coalesce_after [OF nadj(1) last] .
    have nm: "cur + hdr_size c \<noteq> a"
    proof (cases "has_free L")
      case True
      then show ?thesis
        using last_used_no_merge [of "heap_start p" L a s True "a + s" m1, OF _ lk1(1) c(1) [unfolded cur_def] last] tl r(6) a
        by (auto simp: cur_def tile_append)
    next
      case False
      then have "cur = ?ps" using no_free [of L] by (simp add: cur_def)
      then show ?thesis using c(1) hs1 hs(3) a(7) by simp
    qed
    have ml: "merge_left a cur m1 = Some (a, m1)"
      using c nm by (simp add: merge_left_def m1_def)
    obtain s' R' nf' where mr: "coalesce ((a, s, False) # R) = (a, s', False) # R'"
      "merge_right ?e a cur (next_free_block_after_get p) m1
         = Some (nf', m1(a \<mapsto> h\<lparr>hdr_flags := 0, hdr_size := s', p_next := Some (first_free R' ?e)\<rparr>))"
      "set R' \<subseteq> set R" "linked m1 R' ?e"
      by (rule merge_right_eq [OF nadj(2) tl(2) _ _ c lk1(2), of "h\<lparr>hdr_flags := 0\<rparr>"])
        (use h(2) small a in \<open>auto simp: m1_def\<close>)
    define m3 where "m3 = m1(a \<mapsto> h\<lparr>hdr_flags := 0, hdr_size := s', p_next := Some (first_free R' ?e)\<rparr>)"
    define m4 where "m4 = m3(cur \<mapsto> c\<lparr>p_next := Some a\<rparr>)"
    have c3: "m3 cur = Some c" using c(1) cur_ne(1) by (simp add: m3_def)
    let ?p = "p\<lparr>mem := m4, heap_size_unused := free_total ?B + s, heap_size_mark := heap_size_mark p,
      next_free_block_after_get := nf'\<rparr>"
    have "pool_put (Some (a + 8)) p = Some (True, ?p)"
      using r(1) b4 h c3 cur_ne(1) loop ml mr(2) un
      by (simp add: pool_put_def hdr_upd_def Let_def m1_def [symmetric] m3_def [symmetric] m4_def)
    moreover have "pool_rel ?p (L @ (a, s', False) # R')"
    proof (rule pool_rel_change [OF rel])
      have B': "coalesce (L @ (a, s, False) # R) = L @ (a, s', False) # R'" by (simp add: co mr(1))
      have "tile (heap_start p) (L @ (a, s, False) # R) ?e" using t by (auto simp: tile_append)
      from tile_coalesce [OF this] show "tile (heap_start p) (L @ (a, s', False) # R') ?e" by (simp add: B')
      show "no_adj (L @ (a, s', False) # R')" using no_adj_coalesce [of "L @ (a, s, False) # R"] by (simp add: B')
      show "free_total ?B + s = free_total (L @ (a, s', False) # R')"
        using free_total_coalesce [of "L @ (a, s, False) # R"] by (simp add: B')
      show "heap_size_mark p \<le> free_total ?B + s" using r(14,15) by simp
      have "linked m3 L (first_free R ?e)"
        using lk1(1) a(4) by (simp add: m3_def)
      then have "linked m4 L a"
        unfolding m4_def cur_def using c3 r(6,16) by (intro linked_relink) (auto simp: cur_def)
      moreover have "m4 a = Some (h\<lparr>hdr_flags := 0, hdr_size := s', p_next := Some (first_free R' ?e)\<rparr>)"
        using cur_ne(1) by (simp add: m4_def m3_def)
      moreover have "linked m4 R' ?e"
      proof -
        have "a \<notin> fst ` set R'" "cur \<notin> fst ` set R'" using mr(3) a(5) cur_ne(2) by auto
        then show ?thesis using mr(4) by (simp add: m4_def m3_def)
      qed
      ultimately show "linked m4 (L @ (a, s', False) # R') ?e" by simp
      show "m4 ?e = mem p ?e" using cur_ne(3) a(6) by (simp add: m4_def m3_def m1_def)
      show "\<And>x. mem p x \<noteq> None \<Longrightarrow> m4 x \<noteq> None" using dom by (simp add: m4_def m3_def)
      show "\<exists>h. m4 ?ps = Some h \<and> p_next h = Some (first_free (L @ (a, s', False) # R') ?e) \<and> hdr_size h = 0"
      proof (cases "has_free L")
        case True
        have "?ps \<notin> fst ` set L" using r(6) by auto
        then have "cur \<noteq> ?ps" using last_free_in [OF True, of ?ps] unfolding cur_def by metis
        then show ?thesis using hs1 hs(2,3) first_free_has [OF True, of "first_free R ?e" a] a(7)
          by (simp add: m4_def m3_def)
      next
        case False
        then have "cur = ?ps" "first_free L a = a" using no_free [of L] by (simp_all add: cur_def)
        then show ?thesis using c(1) hs1 hs(3) by (simp add: m4_def)
      qed
    qed
    ultimately show ?thesis using cur_ne(1) by (intro exI [of _ ?p]) (simp add: co mr(1) heap_start_def m4_def m3_def)
  next
    case True
    then obtain L1 l t0 where L: "L = L1 @ [(l, t0, False)]"
    proof -
      have "L = butlast L @ [(fst (last L), fst (snd (last L)), False)]"
        using True by (metis append_butlast_last_id prod.collapse)
      then show ?thesis using that by blast
    qed
    have llast: "cur = l" by (simp add: L cur_def)
    have lm: "tile (heap_start p) L1 l" "l + t0 = a" "8 \<le> t0" "t0 mod 8 = 0"
      using tl(1) by (auto simp: L tile_append)
    have l: "l \<notin> fst ` set L1" "l \<noteq> ?ps" "l \<noteq> ?e" "l \<notin> fst ` set R" "?ps \<notin> fst ` set L1" "a \<notin> fst ` set L1"
      using r(6,8,16) a(4) by (auto simp: L)
    have lkl: "linked m1 L1 l" "hdr_size c = t0" using lk1(1) c(1) by (auto simp: L llast)
    have st: "(t0 + s) mod 65536 = t0 + s"
      using r(4) lm tile_le [OF lm(1)] a(2) by simp
    define m2 where "m2 = m1(l \<mapsto> c\<lparr>hdr_size := t0 + s\<rparr>)"
    have ml: "merge_left a cur m1 = Some (l, m2)"
      using c lm(2) lkl(2) st h(2) by (simp add: merge_left_def hdr_upd_def m2_def llast) (simp add: m1_def st)
    have co: "coalesce (L @ (a, s, False) # R) = L1 @ coalesce ((l, t0 + s, False) # R)"
    proof -
      have n1: "no_adj L1" "L1 = [] \<or> snd (snd (last L1))"
        using nadj(1) no_adj_append [of L1 "[(l, t0, False)]"] no_adj_last [of L1 l t0] unfolding L
        by blast+
      show ?thesis using coalesce_after [OF n1] by (simp add: L)
    qed
    obtain s' R' nf' where mr: "coalesce ((l, t0 + s, False) # R) = (l, s', False) # R'"
      "merge_right ?e l l (next_free_block_after_get p) m2
         = Some (nf', m2(l \<mapsto> c\<lparr>hdr_size := t0 + s, hdr_size := s', p_next := Some (first_free R' ?e)\<rparr>))"
      "set R' \<subseteq> set R" "linked m2 R' ?e"
    proof (rule merge_right_eq [OF nadj(2), of l "t0 + s" ?e m2 "c\<lparr>hdr_size := t0 + s\<rparr>" l "c\<lparr>hdr_size := t0 + s\<rparr>"
          "next_free_block_after_get p"])
      show "tile (l + (t0 + s)) R ?e" using tl(2) lm(2) by (simp add: add.assoc [symmetric])
      show "linked m2 R ?e" using lk1(2) l(4) by (simp add: m2_def)
      show "?e < l + 2 ^ 16" using small tile_le [OF lm(1)] .
    qed (use c(2) in \<open>auto simp: m2_def\<close>)
    define m4 where "m4 = m2(l \<mapsto> c\<lparr>hdr_size := t0 + s, hdr_size := s', p_next := Some (first_free R' ?e)\<rparr>)"
    let ?p = "p\<lparr>mem := m4, heap_size_unused := free_total ?B + s, heap_size_mark := heap_size_mark p,
      next_free_block_after_get := nf'\<rparr>"
    have B': "coalesce (L @ (a, s, False) # R) = L1 @ (l, s', False) # R'" by (simp add: co mr(1))
    have "pool_put (Some (a + 8)) p = Some (True, ?p)"
      using r(1) b4 h loop ml mr(2) un
      by (simp add: pool_put_def hdr_upd_def Let_def m1_def [symmetric] m4_def llast)
    moreover have "pool_rel ?p (L1 @ (l, s', False) # R')"
    proof (rule pool_rel_change [OF rel])
      have "tile (heap_start p) (L @ (a, s, False) # R) ?e" using t by (auto simp: tile_append)
      from tile_coalesce [OF this] show "tile (heap_start p) (L1 @ (l, s', False) # R') ?e" by (simp add: B')
      show "no_adj (L1 @ (l, s', False) # R')" using no_adj_coalesce [of "L @ (a, s, False) # R"] by (simp add: B')
      show "free_total ?B + s = free_total (L1 @ (l, s', False) # R')"
        using free_total_coalesce [of "L @ (a, s, False) # R"] by (simp add: B')
      show "heap_size_mark p \<le> free_total ?B + s" using r(14,15) by simp
      have "linked m4 L1 l" using lkl(1) l(1) by (simp add: m4_def m2_def)
      moreover have "linked m4 R' ?e"
      proof -
        have "l \<notin> fst ` set R'" using mr(3) l(4) by auto
        then show ?thesis using mr(4) by (simp add: m4_def)
      qed
      ultimately show "linked m4 (L1 @ (l, s', False) # R') ?e" by (simp add: m4_def)
      show "m4 ?e = mem p ?e" using l(3) a(6) by (simp add: m4_def m2_def m1_def)
      show "\<And>x. mem p x \<noteq> None \<Longrightarrow> m4 x \<noteq> None" using dom by (simp add: m4_def m2_def)
      show "\<exists>h. m4 ?ps = Some h \<and> p_next h = Some (first_free (L1 @ (l, s', False) # R') ?e) \<and> hdr_size h = 0"
        using hs1 hs(2,3) l(2) by (simp add: m4_def m2_def L)
    qed
    ultimately show ?thesis using lm(2,3) by (intro exI [of _ ?p]) (simp add: B' heap_start_def m4_def m2_def m1_def)
  qed
qed

section \<open>Taking a buffer\<close>

lemma block_size_facts: "block_size n mod 8 = 0" "block_size n < 2 ^ 16" if "n < 2 ^ 16"
proof -
  have 8: "k * 8 mod 65536 mod 8 = 0" for k :: nat by (simp add: mod_mod_cancel)
  show "block_size n mod 8 = 0" "block_size n < 2 ^ 16"
    using that 8 by (auto simp: block_size_def Let_def)
qed

text \<open>Where the search ends: at a free block that is large enough, or at the end when there is none.\<close>

lemma find_block_spec:
  assumes rel: "pool_rel p B"
  shows "(\<exists>L a s R nf. B = L @ (a, s, False) # R \<and> n \<le> s
        \<and> find_block n p = Some ((last_free L (pool_start p), a), nf))
    \<or> (\<forall>(a, s, u) \<in> set B. \<not> u \<longrightarrow> s < n)
      \<and> (\<exists>nf. find_block n p = Some ((last_free B (pool_start p), p_pool_end p), nf))"
proof -
  let ?e = "p_pool_end p" and ?ps = "pool_start p" and ?m = "mem p"
  note r = pool_relD [OF rel]
  obtain hs where hs: "?m ?ps = Some hs" "p_next hs = Some (first_free B ?e)" using r(12) by auto
  obtain he where he: "?m ?e = Some he" "p_next he = None" using r(11) by auto
  have lkp: "linked ?m L a" "\<exists>c. ?m a = Some c \<and> hdr_size c = s" "first_free B ?e = first_free L a"
    if "B = L @ (a, s, u) # R" "\<not> u" for L a s u R
    using that r(10) by auto
  text \<open>The scan from the start.\<close>
  have fit: "(\<exists>L a s R. B = L @ (a, s, False) # R \<and> n \<le> s
        \<and> fit_loop ?m n ?ps (first_free B ?e) = Some (last_free L ?ps, a))
    \<or> (\<forall>(a, s, u) \<in> set B. \<not> u \<longrightarrow> s < n) \<and> fit_loop ?m n ?ps (first_free B ?e) = Some (last_free B ?ps, ?e)"
  proof (cases "\<exists>x \<in> set B. \<not> snd (snd x) \<and> n \<le> fst (snd x)")
    case True
    then obtain L x R where x: "B = L @ x # R" "\<not> snd (snd x) \<and> n \<le> fst (snd x)"
        "\<forall>y \<in> set L. \<not> (\<not> snd (snd y) \<and> n \<le> fst (snd y))"
      using split_list_first_prop [of B "\<lambda>x. \<not> snd (snd x) \<and> n \<le> fst (snd x)"] by blast
    obtain a s where as: "x = (a, s, False)" using x(2) by (cases x) auto
    obtain c where "?m a = Some c" "hdr_size c = s" using lkp(2) [of L a s False R] x(1) as by auto
    then have "fit_loop ?m n ?ps (first_free L a) = Some (last_free L ?ps, a)"
      using lkp(1) [of L a s False R] x as by (intro fit_loop_eq) auto
    then show ?thesis using x as by auto
  next
    case False
    then have all: "\<forall>(a, s, u) \<in> set B. \<not> u \<longrightarrow> s < n" by fastforce
    show ?thesis using fit_loop_eq [OF r(10) all he(1)] he(2) all by blast
  qed
  have scan: ?thesis if "find_block n p = map_option (\<lambda>pc. (pc, nf)) (fit_loop ?m n ?ps (first_free B ?e))" for nf
    using fit that by auto
  show ?thesis
  proof (cases "next_free_block_after_get p")
    case None
    then have "find_block n p = map_option (\<lambda>pc. (pc, None)) (fit_loop ?m n ?ps (first_free B ?e))"
      using hs by (simp add: find_block_def map_conv_bind_option comp_def)
    then show ?thesis by (rule scan)
  next
    case (Some f)
    show ?thesis
    proof (cases "f = ?e")
      case True
      then have "find_block n p = map_option (\<lambda>pc. (pc, Some f)) (fit_loop ?m n ?ps (first_free B ?e))"
        using hs Some by (simp add: find_block_def map_conv_bind_option comp_def)
      then show ?thesis by (rule scan)
    next
      case fe: False
      show ?thesis
      proof (cases "\<exists>s. (f, s, False) \<in> set B")
        case True
        then obtain s where "(f, s, False) \<in> set B" by blast
        then obtain L R where B: "B = L @ (f, s, False) # R" by (auto dest: split_list)
        obtain c where c: "?m f = Some c" "hdr_size c = s" using lkp(2) [OF B] by auto
        have "\<forall>(a, s, u) \<in> set L. \<not> u \<longrightarrow> a \<noteq> f"
        proof -
          have "f \<notin> fst ` set L" using r(16) B by simp
          then show ?thesis by force
        qed
        moreover have "?e \<notin> fst ` set L" using r(8) B by auto
        ultimately have "check_loop ?m f ?e n ?ps (first_free L f)
            = Some (if f = ?e \<or> hdr_size c < n then None else Some (last_free L ?ps, f))"
          using lkp(1) [OF B] c(1) by (intro check_loop_eq) auto
        then have ck: "check_loop ?m f ?e n ?ps (first_free B ?e)
            = Some (if s < n then None else Some (last_free L ?ps, f))"
          using fe c(2) lkp(3) [OF B] by simp
        show ?thesis
        proof (cases "s < n")
          case True
          then have "find_block n p = map_option (\<lambda>pc. (pc, None)) (fit_loop ?m n ?ps (first_free B ?e))"
            using hs Some fe ck by (simp add: find_block_def map_conv_bind_option comp_def)
          then show ?thesis by (rule scan)
        next
          case False
          then have "find_block n p = Some ((last_free L ?ps, f), Some f)"
            using hs Some fe ck by (simp add: find_block_def)
          then show ?thesis using B False by (metis not_less)
        qed
      next
        case False
        then have "\<forall>(a, s, u) \<in> set B. \<not> u \<longrightarrow> a \<noteq> f" by auto
        then have "check_loop ?m f ?e n ?ps (first_free B ?e) = Some None"
          using check_loop_eq [OF r(10) _ r(8), of f _ n ?ps] fe by simp
        then have "find_block n p = map_option (\<lambda>pc. (pc, None)) (fit_loop ?m n ?ps (first_free B ?e))"
          using hs Some fe by (simp add: find_block_def map_conv_bind_option comp_def)
        then show ?thesis by (rule scan)
      qed
    qed
  qed
qed

definition carve :: "nat \<Rightarrow> nat \<Rightarrow> nat \<Rightarrow> block list" where
  "carve a s k = (if s - k \<ge> POOL_BUFFER_MINI_SIZE then [(a, k, True), (a + k, s - k, False)] else [(a, s, True)])"

lemma no_adj_take:
  "no_adj (L @ (a, s, False) # R) \<Longrightarrow> no_adj (L @ (a, t, True) # R) \<and> no_adj (L @ (a, t, True) # (b, v, False) # R)"
proof (induction L rule: no_adj.induct, goal_cases)
  case 2
  then show ?case by (cases R) auto
next
  case (3 x)
  then show ?case by (cases x; cases R) auto
qed auto

lemma pool_get_none:
  assumes rel: "pool_rel p B" and "block_size n = 0 \<or> (\<forall>(a, s, u) \<in> set B. \<not> u \<longrightarrow> s < block_size n)"
  shows "\<exists>p'. pool_get n p = Some (None, p') \<and> pool_rel p' B \<and> heap_start p' = heap_start p \<and> p_pool_end p' = p_pool_end p"
proof (cases "block_size n = 0 \<or> block_size n > heap_size_unused p")
  case True
  then show ?thesis using rel pool_relD(1) [OF rel] by (auto simp: pool_get_def Let_def)
next
  case False
  then have all: "\<forall>(a, s, u) \<in> set B. \<not> u \<longrightarrow> s < block_size n" using assms(2) by simp
  obtain nf where "find_block (block_size n) p = Some ((last_free B (pool_start p), p_pool_end p), nf)"
    using find_block_spec [OF rel, of "block_size n"] all by fastforce
  then have "pool_get n p = Some (None, p\<lparr>next_free_block_after_get := nf\<rparr>)"
    using False pool_relD(1) [OF rel] by (simp add: pool_get_def Let_def)
  moreover have "pool_rel (p\<lparr>next_free_block_after_get := nf\<rparr>) B"
    using rel by (simp add: pool_rel_def heap_start_def)
  ultimately show ?thesis by (intro exI [of _ "p\<lparr>next_free_block_after_get := nf\<rparr>"]) (simp add: heap_start_def)
qed

lemma relink_before:
  fixes N' :: nat
  assumes "linked m L N" "distinct (map fst L)" "q \<notin> fst ` set L" "m q = Some h" "p_next h = Some (first_free L N)"
    "m (last_free L q) = Some pr" "hdr_size h = 0"
  defines "m' \<equiv> m(last_free L q \<mapsto> pr\<lparr>p_next := Some N'\<rparr>)"
  shows "linked m' L N' \<and> (\<exists>h. m' q = Some h \<and> p_next h = Some (first_free L N') \<and> hdr_size h = 0)"
proof -
  have "linked m' L N'" unfolding m'_def by (rule linked_relink [OF assms(1-3,6)])
  moreover have "\<exists>h. m' q = Some h \<and> p_next h = Some (first_free L N') \<and> hdr_size h = 0"
  proof (cases "has_free L")
    case True
    then have "last_free L q \<noteq> q" using last_free_in [OF True, of q] assms(3) by metis
    then show ?thesis using assms(4,5,7) first_free_has [OF True, of N N'] by (simp add: m'_def)
  next
    case False
    then show ?thesis using no_free [OF False] assms(4,6,7) by (simp add: m'_def)
  qed
  ultimately show ?thesis by blast
qed

lemma pool_get_some:
  assumes rel: "pool_rel p B" and n: "n < 2 ^ 16" "block_size n \<noteq> 0"
    and ex: "\<exists>(a, s, u) \<in> set B. \<not> u \<and> block_size n \<le> s"
  shows "\<exists>p' L a s R. B = L @ (a, s, False) # R \<and> block_size n \<le> s
    \<and> pool_get n p = Some (Some (a + 8), p') \<and> pool_rel p' (L @ carve a s (block_size n) @ R)
    \<and> heap_start p' = heap_start p \<and> p_pool_end p' = p_pool_end p"
proof -
  let ?e = "p_pool_end p" and ?ps = "pool_start p" and ?m = "mem p"
  define k where "k = block_size n"
  note r = pool_relD [OF rel]
  obtain L a s R nf where B: "B = L @ (a, s, False) # R" and ks: "k \<le> s"
      and fb: "find_block k p = Some ((last_free L ?ps, a), nf)"
    using find_block_spec [OF rel, of k] ex by (auto simp: k_def)
  have k8: "k mod 8 = 0" "k \<noteq> 0" using block_size_facts [OF n(1)] n(2) by (simp_all add: k_def)
  have k0: "8 \<le> k" using k8 by (metis mod_less not_less)
  have a: "heap_start p \<le> a" "a + s \<le> ?e" "a mod 8 = 0" "8 \<le> s" using r(17) [of a s False] B by auto
  have t: "tile (heap_start p) L a" "tile (a + s) R ?e" "s mod 8 = 0" using tile_last r(2) unfolding B by blast+
  have dj: "a \<notin> fst ` set L" "a \<notin> fst ` set R" "distinct (map fst L)" "?ps \<notin> fst ` set L" "?ps \<notin> fst ` set R"
      "?ps \<noteq> a" "a \<noteq> ?e" "?e \<notin> fst ` set L" "fst ` set L \<inter> fst ` set R = {}" "?ps \<noteq> ?e"
    using r(6,7,8,16) B by auto
  have lk: "linked ?m L a" "linked ?m R ?e" using r(10) by (auto simp: B)
  obtain c where c: "?m a = Some c" "hdr_size c = s" "p_next c = Some (first_free R ?e)"
    using r(10) by (auto simp: B)
  obtain hs where hs: "?m ?ps = Some hs" "p_next hs = Some (first_free L a)" "hdr_size hs = 0"
    using r(12) by (auto simp: B)
  define prev where "prev = last_free L ?ps"
  obtain pr where pr: "?m prev = Some pr" "p_next pr = Some a"
    using last_link [OF lk(1) hs(1,2)] by (auto simp: prev_def)
  have prev: "prev \<noteq> a" "prev \<notin> fst ` set R" "prev \<noteq> ?e" "prev = ?ps \<or> prev < a"
    using last_free_or [of L ?ps] dj prefix_addr [OF r(2) [unfolded B]] unfolding prev_def by (metis, metis disjoint_iff, metis, metis)
  have kt: "k \<le> free_total B" "s \<le> free_total B" using ks free_le_total [of a s B] by (auto simp: B)
  have tot: "free_total B < 2 ^ 32" using sum_sizes [OF r(2)] r(5) by simp
  have guard: "\<not> (k = 0 \<or> k > heap_size_unused p)" using k8(2) kt r(14) by simp
  have nadj: "no_adj L" "no_adj R" "no_adj (L @ [(a, s, False)])" "no_adj ((a, s, False) # R)"
    using r(13) no_adj_append [of L "(a, s, False) # R"] no_adj_append [of "L @ [(a, s, False)]" R]
      no_adj_append [of "[(a, s, False)]" R] by (simp_all add: B)
  show ?thesis
  proof (cases "s - k \<ge> POOL_BUFFER_MINI_SIZE")
    case True
    define tmp where "tmp = a + k"
    have tmp: "tmp < a + s" "a < tmp" "tmp mod 8 = 0" "tmp \<le> ?e" "heap_start p \<le> tmp"
      using True k0 k8(1) a by (auto simp: tmp_def mod_add_eq [symmetric])
    obtain ht where ht: "?m tmp = Some ht" using r(9) [OF tmp(5,4,3)] by blast
    have tn: "tmp \<noteq> ?ps" "tmp \<noteq> ?e" "tmp \<notin> fst ` set R" "tmp \<noteq> prev"
      using tmp a r(18) suffix_addr [OF r(2) [unfolded B], of tmp] prev(4) by auto
    have tL: "tmp \<notin> fst ` set L" using prefix_addr [OF r(2) [unfolded B], of tmp] tmp by auto
    define m1 where "m1 = ?m(tmp \<mapsto> \<lparr>p_next = p_next c, hdr_size = s - k, hdr_flags = 0\<rparr>)"
    define m2 where "m2 = m1(prev \<mapsto> pr\<lparr>p_next := Some tmp\<rparr>)"
    define m3 where "m3 = m2(a \<mapsto> c\<lparr>hdr_size := k, p_next := None, hdr_flags := MEDIA_POOL_BUFFER_ALLOCATED\<rparr>)"
    define un where "un = heap_size_unused p - k"
    define mk where "mk = (if un < heap_size_mark p then un else heap_size_mark p)"
    have un: "sub32 (heap_size_unused p) k = un" using kt tot r(14) by (simp add: un_def sub32_small)
    have L2: "linked m2 L tmp \<and> (\<exists>h. m2 ?ps = Some h \<and> p_next h = Some (first_free L tmp) \<and> hdr_size h = 0)"
      unfolding m2_def prev_def
    proof (rule relink_before [of m1 L a])
      show "m1 (last_free L ?ps) = Some pr" using pr(1) tn by (simp add: m1_def prev_def [symmetric])
    qed (use lk hs tL tn dj in \<open>auto simp: m1_def\<close>)
    let ?p = "p\<lparr>mem := m3, heap_size_unused := un, heap_size_mark := mk, next_free_block_after_get := Some tmp\<rparr>"
    have "pool_get n p = Some (Some (a + 8), ?p)"
      using r(1) guard fb dj(7) pr c ks True ht tn prev(1) tmp
      unfolding pool_get_def k_def [symmetric] Let_def
      by (simp add: prev_def [symmetric] hdr_upd_def un mk_def tmp_def [symmetric] m1_def m2_def m3_def)
    moreover have "pool_rel ?p (L @ carve a s k @ R)"
    proof (rule pool_rel_change [OF rel])
      have B': "L @ carve a s k @ R = L @ (a, k, True) # (tmp, s - k, False) # R"
        using True by (simp add: carve_def tmp_def)
      show "tile (heap_start p) (L @ carve a s k @ R) ?e"
        unfolding B' using t True k0 k8(1) by (auto simp: tile_append tmp_def)
      show "no_adj (L @ carve a s k @ R)"
        unfolding B' using r(13) no_adj_take unfolding B by blast
      have "m3 tmp = Some \<lparr>p_next = Some (first_free R ?e), hdr_size = s - k, hdr_flags = 0\<rparr>"
        using tn tmp c by (simp add: m3_def m2_def m1_def)
      moreover have "linked m3 L tmp" using L2 dj(1) by (simp add: m3_def)
      moreover have "linked m3 R ?e" using lk(2) dj(2) prev(2) tn by (simp add: m3_def m2_def m1_def)
      ultimately show "linked m3 (L @ carve a s k @ R) ?e" unfolding B' by (simp add: m3_def)
      show "m3 ?e = mem p ?e" using dj(7) tn prev(3) by (simp add: m3_def m2_def m1_def)
      show "\<And>x. mem p x \<noteq> None \<Longrightarrow> m3 x \<noteq> None" by (simp add: m3_def m2_def m1_def)
      show "\<exists>h. m3 ?ps = Some h \<and> p_next h = Some (first_free (L @ carve a s k @ R) ?e) \<and> hdr_size h = 0"
        using L2 dj(6) unfolding B' by (simp add: m3_def)
      show "un = free_total (L @ carve a s k @ R)" unfolding B' using r(14) ks by (simp add: un_def B)
      show "mk \<le> un" by (simp add: mk_def)
    qed
    ultimately show ?thesis using B ks unfolding k_def [symmetric]
      by (intro exI [of _ ?p] exI [of _ L] exI [of _ a] exI [of _ s] exI [of _ R]) (simp add: heap_start_def)
  next
    case False
    define m2 where "m2 = ?m(prev \<mapsto> pr\<lparr>p_next := Some (first_free R ?e)\<rparr>)"
    define m3 where "m3 = m2(a \<mapsto> c\<lparr>p_next := None, hdr_flags := MEDIA_POOL_BUFFER_ALLOCATED\<rparr>)"
    define un where "un = heap_size_unused p - s"
    define mk where "mk = (if un < heap_size_mark p then un else heap_size_mark p)"
    have un: "sub32 (heap_size_unused p) s = un" using kt tot r(14) by (simp add: un_def sub32_small)
    have L2: "linked m2 L (first_free R ?e)
        \<and> (\<exists>h. m2 ?ps = Some h \<and> p_next h = Some (first_free L (first_free R ?e)) \<and> hdr_size h = 0)"
      unfolding m2_def prev_def
      by (rule relink_before [of ?m L a]) (use lk hs dj pr in \<open>auto simp: prev_def\<close>)
    let ?p = "p\<lparr>mem := m3, heap_size_unused := un, heap_size_mark := mk,
      next_free_block_after_get := Some (first_free R ?e)\<rparr>"
    have "pool_get n p = Some (Some (a + 8), ?p)"
      using r(1) guard fb dj(7) pr c False prev(1)
      unfolding pool_get_def k_def [symmetric] Let_def
      by (simp add: prev_def [symmetric] hdr_upd_def un mk_def m2_def m3_def)
    moreover have "pool_rel ?p (L @ carve a s k @ R)"
    proof (rule pool_rel_change [OF rel])
      have B': "L @ carve a s k @ R = L @ (a, s, True) # R"
        using False by (simp add: carve_def)
      show "tile (heap_start p) (L @ carve a s k @ R) ?e"
        unfolding B' using r(2) by (simp add: B tile_append)
      show "no_adj (L @ carve a s k @ R)"
        unfolding B' using r(13) no_adj_take unfolding B by blast
      have "linked m3 L (first_free R ?e)" using L2 dj(1) by (simp add: m3_def)
      moreover have "linked m3 R ?e" using lk(2) dj(2) prev(2) by (simp add: m3_def m2_def)
      ultimately show "linked m3 (L @ carve a s k @ R) ?e" unfolding B' using c(2) by (simp add: m3_def)
      show "m3 ?e = mem p ?e" using dj(7) prev(3) by (simp add: m3_def m2_def)
      show "\<And>x. mem p x \<noteq> None \<Longrightarrow> m3 x \<noteq> None" by (simp add: m3_def m2_def)
      show "\<exists>h. m3 ?ps = Some h \<and> p_next h = Some (first_free (L @ carve a s k @ R) ?e) \<and> hdr_size h = 0"
        using L2 dj(6) unfolding B' by (simp add: m3_def)
      show "un = free_total (L @ carve a s k @ R)" unfolding B' using r(14) by (simp add: un_def B)
      show "mk \<le> un" by (simp add: mk_def)
    qed
    ultimately show ?thesis using B ks unfolding k_def [symmetric]
      by (intro exI [of _ ?p] exI [of _ L] exI [of _ a] exI [of _ s] exI [of _ R]) (simp add: heap_start_def)
  qed
qed

section \<open>Setting up\<close>

lemma align_up_facts: "align_up a mod 8 = 0" "a \<le> align_up a" "align_up a \<le> a + 7"
proof -
  have "a mod 8 = 0 \<Longrightarrow> a \<le> a + 7" "(a + 7) div 8 * 8 \<le> a + 7" "a \<le> (a + 7) div 8 * 8"
    by presburger+
  then show "align_up a mod 8 = 0" "a \<le> align_up a" "align_up a \<le> a + 7"
    by (simp_all add: align_up_def)
qed

lemma align_down_facts: "align_down a mod 8 = 0" "align_down a \<le> a" "a \<le> align_down a + 7"
proof -
  have "a div 8 * 8 \<le> a" "a \<le> a div 8 * 8 + 7" by presburger+
  then show "align_down a mod 8 = 0" "align_down a \<le> a" "a \<le> align_down a + 7"
    by (simp_all add: align_down_def)
qed

lemma lay_out_spec:
  assumes "heap_addr p = Some addr" "pool_flags p AND MEDIA_POOL_CREATED \<noteq> 0"
    and sz: "30 \<le> heap_size p" "heap_size p < 2 ^ 16" "addr + heap_size p \<le> 2 ^ 32"
    and ps: "mem p (pool_start p) \<noteq> None" "pool_start p \<notin> {addr..<addr + heap_size p}"
    and mp: "\<And>a. addr \<le> a \<Longrightarrow> a < addr + heap_size p \<Longrightarrow> a mod 8 = 0 \<Longrightarrow> mem p a \<noteq> None"
  defines "e \<equiv> align_down (addr + heap_size p - 8)"
  shows "\<exists>p'. lay_out addr p = Some p' \<and> heap_start p' = align_up addr \<and> p_pool_end p' = e
     \<and> heap_addr p' = Some addr \<and> pool_rel p' [(align_up addr, e - align_up addr, False)]"
proof -
  define start where "start = align_up addr"
  have st: "start mod 8 = 0" "addr \<le> start" "start \<le> addr + 7" using align_up_facts by (simp_all add: start_def)
  have en: "e mod 8 = 0" "e \<le> addr + heap_size p - 8" "addr + heap_size p - 8 \<le> e + 7"
    using align_down_facts by (simp_all add: e_def)
  have le: "start + 8 \<le> e" using st en sz by simp
  have hs: "sub32 (heap_size p) (start - addr) = heap_size p - (start - addr)"
    using st sz by (intro sub32_small) auto
  have add: "add32 start (heap_size p - (start - addr)) = (addr + heap_size p) mod 2 ^ 32"
    using st sz by (simp add: add32_def add.commute)
  have ee: "sub32 ((addr + heap_size p) mod 2 ^ 32) 8 = addr + heap_size p - 8"
  proof (cases "addr + heap_size p = 2 ^ 32")
    case True
    then show ?thesis by (simp add: sub32_def)
  next
    case False
    then have "addr + heap_size p < 2 ^ 32" using sz by simp
    then show ?thesis using sz by (simp add: sub32_small)
  qed
  have size: "sub32 e start mod 65536 = e - start"
    using le en sz st by (subst sub32_small) auto
  have ne: "pool_start p \<noteq> e" "pool_start p \<noteq> start" "start \<noteq> e" using ps(2) st en sz le by auto
  obtain hp where hp: "mem p (pool_start p) = Some hp" using ps(1) by blast
  obtain he where he: "mem p e = Some he" 
  proof -
    have "e < addr + heap_size p" "addr \<le> e" using en(2) st le sz by simp_all
    then show thesis using mp [of e] en(1) that by blast
  qed
  obtain hb where hb: "mem p start = Some hb" using mp [of start] st en le sz by auto
  define m where "m = (mem p)(pool_start p \<mapsto> hp\<lparr>p_next := Some start, hdr_size := 0\<rparr>,
    e \<mapsto> he\<lparr>p_next := None, hdr_size := 0\<rparr>, start \<mapsto> hb\<lparr>p_next := Some e, hdr_size := e - start\<rparr>)"
  let ?p = "p\<lparr>p_pool_end := e, mem := m, heap_size_unused := e - start, heap_size_mark := e - start,
             next_free_block_after_get := None\<rparr>"
  have "lay_out addr p = Some ?p"
    using hp he hb ne
    by (simp add: lay_out_def Let_def start_def [symmetric] hs add ee [simplified] size e_def [symmetric] hdr_upd_def m_def)
  moreover have "pool_rel ?p [(start, e - start, False)]"
    unfolding pool_rel_def
  proof (intro conjI)
    have h: "heap_start ?p = start" using assms(1) by (simp add: heap_start_def start_def)
    show "tile (heap_start ?p) [(start, e - start, False)] (p_pool_end ?p)"
      using le st(1) en(1) by (simp add: h mod_diff_eq [symmetric]) presburger
    show "heap_start ?p mod 8 = 0" by (simp add: h st)
    show "p_pool_end ?p < heap_start ?p + 2 ^ 16" "p_pool_end ?p + 8 \<le> 2 ^ 32" using h en sz st by simp_all
    show "pool_start ?p \<notin> {heap_start ?p..p_pool_end ?p}" using ps(2) h st en sz by auto
    show "\<forall>a. heap_start ?p \<le> a \<and> a \<le> p_pool_end ?p \<and> a mod 8 = 0 \<longrightarrow> mem ?p a \<noteq> None"
      using mp h st en sz by (auto simp: m_def)
  qed (use assms(2) ne in \<open>auto simp: m_def\<close>)
  ultimately show ?thesis using assms(1)
    by (intro exI [of _ ?p]) (simp add: heap_start_def start_def)
qed

section \<open>The pool and its clients\<close>

text \<open>What clients do: take a buffer, give one back, write an 8-byte word into one they hold.\<close>

datatype pool_op = Get_Buffer nat | Put_Buffer nat | User_Write nat pool_hdr

datatype pool_ret = Buffer "nat option" | Status bool

fun pool_exec :: "pool_op \<Rightarrow> media_pool \<Rightarrow> (pool_ret \<times> media_pool) option" where
  "pool_exec (Get_Buffer n) p = map_option (\<lambda>(r, p'). (Buffer r, p')) (pool_get n p)"
| "pool_exec (Put_Buffer b) p = map_option (\<lambda>(r, p'). (Status r, p')) (pool_put (Some b) p)"
| "pool_exec (User_Write a v) p = map_option (\<lambda>m. (Status True, p\<lparr>mem := m\<rparr>)) (hdr_upd a (\<lambda>_. v) (mem p))"

fun pool_pre :: "pool_op \<Rightarrow> block list \<Rightarrow> bool" where
  "pool_pre (Get_Buffer n) B \<longleftrightarrow> n < 2 ^ 16"
| "pool_pre (Put_Buffer b) B \<longleftrightarrow> (\<exists>a s. (a, s, True) \<in> set B \<and> b = a + 8)"
| "pool_pre (User_Write x v) B \<longleftrightarrow> (\<exists>a s. (a, s, True) \<in> set B \<and> a + 8 \<le> x \<and> x + 8 \<le> a + s \<and> x mod 8 = 0)"

fun pool_spec :: "pool_op \<Rightarrow> block list \<Rightarrow> pool_ret \<Rightarrow> block list \<Rightarrow> bool" where
  "pool_spec (Get_Buffer n) B r B' \<longleftrightarrow>
     (let k = block_size n in
      if k = 0 \<or> (\<forall>(a, s, u) \<in> set B. \<not> u \<longrightarrow> s < k) then r = Buffer None \<and> B' = B
      else (\<exists>L a s R. B = L @ (a, s, False) # R \<and> k \<le> s \<and> r = Buffer (Some (a + 8)) \<and> B' = L @ carve a s k @ R))"
| "pool_spec (Put_Buffer b) B r B' \<longleftrightarrow>
     (\<exists>L a s R. B = L @ (a, s, True) # R \<and> b = a + 8 \<and> r = Status True \<and> B' = coalesce (L @ (a, s, False) # R))"
| "pool_spec (User_Write x v) B r B' \<longleftrightarrow> r = Status True \<and> B' = B"

lemma user_write_rel:
  assumes rel: "pool_rel p B" and x: "(a, s, True) \<in> set B" "a + 8 \<le> x" "x + 8 \<le> a + s" "x mod 8 = 0"
  shows "\<exists>m. hdr_upd x (\<lambda>_. v) (mem p) = Some m \<and> pool_rel (p\<lparr>mem := m\<rparr>) B"
proof -
  note r = pool_relD [OF rel]
  obtain L R where B: "B = L @ (a, s, True) # R" using x(1) by (auto dest: split_list)
  have b: "heap_start p \<le> x" "x \<le> p_pool_end p" "x \<noteq> p_pool_end p" using r(17) [OF x(1)] x by auto
  obtain h where h: "mem p x = Some h" using r(9) [OF b(1,2) x(4)] by blast
  have f: "x \<notin> fst ` set B"
    using prefix_addr [OF r(2) [unfolded B], of x] suffix_addr [OF r(2) [unfolded B], of x] x(2,3)
    by (auto simp: B)
  have ps: "pool_start p \<noteq> x" using r(18) b by auto
  have "pool_rel (p\<lparr>mem := (mem p)(x \<mapsto> v), heap_size_unused := heap_size_unused p,
      heap_size_mark := heap_size_mark p, next_free_block_after_get := next_free_block_after_get p\<rparr>) B"
    by (rule pool_rel_change [OF rel]) (use r b(3) f ps in auto)
  then show ?thesis using h by (simp add: hdr_upd_def)
qed

lemma pool_step:
  assumes rel: "pool_rel p B" and pre: "pool_pre a B"
  shows "\<exists>r p' B'. pool_exec a p = Some (r, p') \<and> pool_rel p' B' \<and> pool_spec a B r B'"
proof (cases a)
  case (Get_Buffer n)
  show ?thesis
  proof (cases "block_size n = 0 \<or> (\<forall>(a, s, u) \<in> set B. \<not> u \<longrightarrow> s < block_size n)")
    case True
    then show ?thesis using pool_get_none [OF rel True] by (auto simp: Get_Buffer Let_def)
  next
    case False
    then have ex: "\<exists>(a, s, u) \<in> set B. \<not> u \<and> block_size n \<le> s" by (simp add: not_less case_prod_beta)
    have n: "n < 2 ^ 16" "block_size n \<noteq> 0" using pre False by (simp_all add: Get_Buffer)
    obtain p' L a s R where g: "B = L @ (a, s, False) # R" "block_size n \<le> s"
      "pool_get n p = Some (Some (a + 8), p')" "pool_rel p' (L @ carve a s (block_size n) @ R)"
      using pool_get_some [OF rel n ex] by blast
    then show ?thesis using False
      by (intro exI [of _ "Buffer (Some (a + 8))"] exI [of _ p'] exI [of _ "L @ carve a s (block_size n) @ R"])
        (auto simp: Get_Buffer Let_def)
  qed
next
  case (Put_Buffer b)
  then obtain x s where "(x, s, True) \<in> set B" "b = x + 8" using pre by auto
  then obtain L R where B: "B = L @ (x, s, True) # R" "b = x + 8" by (auto dest: split_list)
  obtain p' where p': "pool_put (Some b) p = Some (True, p')" "pool_rel p' (coalesce (L @ (x, s, False) # R))"
    using pool_put_block [OF rel [unfolded B(1)]] B(2) by blast
  show ?thesis
    by (intro exI [of _ "Status True"] exI [of _ p'] exI [of _ "coalesce (L @ (x, s, False) # R)"])
      (use p' B in \<open>auto simp: Put_Buffer\<close>)
next
  case (User_Write x v)
  then obtain b s where "(b, s, True) \<in> set B" "b + 8 \<le> x" "x + 8 \<le> b + s" "x mod 8 = 0" using pre by auto
  from user_write_rel [OF rel this, of v] show ?thesis by (auto simp: User_Write)
qed

interpretation pool: simulation pool_exec pool_rel pool_pre pool_spec
  by unfold_locales (rule pool_step)

section \<open>Properties\<close>

lemma tile_disjoint:
  "tile a B e \<Longrightarrow> (x, s, u) \<in> set B \<Longrightarrow> (y, t, v) \<in> set B \<Longrightarrow> x < y \<Longrightarrow> x + s \<le> y"
proof (induction B arbitrary: a)
  case (Cons z B)
  obtain c l w where z: "z = (c, l, w)" by (cases z)
  have tB: "tile (a + l) B e" "c = a" using Cons.prems(1) by (simp_all add: z)
  show ?case
  proof (cases "(x, s, u) = z")
    case True
    then have "(y, t, v) \<in> set B" using Cons.prems(3,4) by auto
    then show ?thesis using tile_bounds [OF tB(1)] True z tB(2) by fastforce
  next
    case False
    then have x: "(x, s, u) \<in> set B" using Cons.prems(2) by simp
    then have "y \<noteq> c" using tile_bounds [OF tB(1) x] Cons.prems(4) tB(2) by auto
    then have "(y, t, v) \<in> set B" using Cons.prems(3) z by auto
    then show ?thesis using Cons.IH [OF tB(1) x _ Cons.prems(4)] by simp
  qed
qed simp

text \<open>The state of a pool made on a heap of 64 bytes at address \<open>0x1000\<close>.\<close>

definition demo_mem :: store where
  "demo_mem a = (if a mod 8 = 0 \<and> (0x1000 \<le> a \<and> a < 0x1040 \<or> a = 0x800)
     then Some \<lparr>p_next = None, hdr_size = 0xbeef, hdr_flags = 0xff\<rparr> else None)"

text \<open>C24: a pool made on a heap of at least 30 bytes is one free block, and from then on any client
  that only returns buffers it holds and only writes inside them is served for ever as the list of
  blocks says: a buffer is refused only if no free block is large enough, a returned one is joined with
  its free neighbours, and no loop runs for ever or leaves the heap.\<close>

theorem media_pool_serves:
  assumes "30 \<le> sz" "sz < 2 ^ 16" "addr + sz \<le> 2 ^ 32" "ps \<notin> {addr..<addr + sz}" "m ps \<noteq> None"
    and "\<forall>a. addr \<le> a \<and> a < addr + sz \<and> a mod 8 = 0 \<longrightarrow> m a \<noteq> None"
  shows "\<exists>p B. media_pool_create (Some ps) (Some addr) m sz = Some (Some p) \<and> pool_rel p B
     \<and> B = [(align_up addr, align_down (addr + sz - 8) - align_up addr, False)]
     \<and> (\<forall>tr p' B' op. client_run pool_exec pool_pre pool_spec pool_rel p B tr p' B' \<and> pool_pre op B'
          \<longrightarrow> (\<exists>r p'' B''. pool_exec op p' = Some (r, p'') \<and> pool_spec op B' r B''
               \<and> client_run pool_exec pool_pre pool_spec pool_rel p B (tr @ [(op, r)]) p'' B''))"
proof -
  let ?p0 = "\<lparr>pool_flags = MEDIA_POOL_CREATED, pool_start = ps, p_pool_end = 0, heap_addr = Some addr,
             heap_size = sz, heap_size_unused = 0, heap_size_mark = 0,
             next_free_block_after_get = None, mem = m\<rparr>"
  let ?B = "[(align_up addr, align_down (addr + sz - 8) - align_up addr, False)]"
  obtain p where p: "lay_out addr ?p0 = Some p" "pool_rel p ?B"
    using lay_out_spec [of ?p0 addr] assms by auto
  have "\<exists>r p'' B''. pool_exec op p' = Some (r, p'') \<and> pool_spec op B' r B''
      \<and> client_run pool_exec pool_pre pool_spec pool_rel p ?B (tr @ [(op, r)]) p'' B''"
    if run: "client_run pool_exec pool_pre pool_spec pool_rel p ?B tr p' B'" and op: "pool_pre op B'" for tr p' B' op
  proof -
    obtain r p'' B'' where s: "pool_exec op p' = Some (r, p'')" "pool_rel p'' B''" "pool_spec op B' r B''"
      using pool.sim [OF pool.run_related [OF run p(2)] op] by blast
    then show ?thesis using client_run.call [OF run op s(1,3,2)] by blast
  qed
  then show ?thesis using p by (intro exI [of _ p] exI [of _ ?B]) (auto simp: media_pool_create_def)
qed

lemma media_pool_serves_witness:
  "\<exists>p B r p'. media_pool_create (Some 0x800) (Some 0x1000) demo_mem 64 = Some (Some p)
    \<and> B = [(0x1000, 56, False)] \<and> pool_rel p B \<and> pool_exec (Get_Buffer 20) p = Some (r, p')
    \<and> r = Buffer (Some 0x1008)"
proof -
  have "\<exists>p B. media_pool_create (Some 0x800) (Some 0x1000) demo_mem 64 = Some (Some p) \<and> pool_rel p B
     \<and> B = [(align_up 0x1000, align_down (0x1000 + 64 - 8) - align_up 0x1000, False)]
     \<and> (\<forall>tr p' B' op. client_run pool_exec pool_pre pool_spec pool_rel p B tr p' B' \<and> pool_pre op B'
          \<longrightarrow> (\<exists>r p'' B''. pool_exec op p' = Some (r, p'') \<and> pool_spec op B' r B''
               \<and> client_run pool_exec pool_pre pool_spec pool_rel p B (tr @ [(op, r)]) p'' B''))"
    by (rule media_pool_serves) (simp_all add: demo_mem_def)
  then obtain p B where p: "media_pool_create (Some 0x800) (Some 0x1000) demo_mem 64 = Some (Some p)"
      "pool_rel p B" "B = [(0x1000, 56, False)]"
      "\<And>tr p' B' op. client_run pool_exec pool_pre pool_spec pool_rel p B tr p' B' \<and> pool_pre op B'
          \<Longrightarrow> (\<exists>r p'' B''. pool_exec op p' = Some (r, p'') \<and> pool_spec op B' r B''
               \<and> client_run pool_exec pool_pre pool_spec pool_rel p B (tr @ [(op, r)]) p'' B'')"
    by (auto simp: align_up_def align_down_def)
  obtain r p'' B'' where "pool_exec (Get_Buffer 20) p = Some (r, p'')" "pool_spec (Get_Buffer 20) B r B''"
    using p(4) [of "[]" p B "Get_Buffer 20"] client_run.start by fastforce
  then show ?thesis using p
    by (intro exI [of _ p] exI [of _ B] exI [of _ r] exI [of _ p''])
      (auto simp: block_size_def Cons_eq_append_conv)
qed



text \<open>A buffer that has just been returned is refused if it is returned again, and the pool does
  not change.\<close>

theorem media_pool_double_put:
  assumes "pool_rel p B" "(a, s, True) \<in> set B" "pool_put (Some (a + 8)) p = Some (ok, p')"
  shows "ok \<and> pool_put (Some (a + 8)) p' = Some (False, p')"
proof -
  obtain L R where B: "B = L @ (a, s, True) # R" using assms(2) by (auto dest: split_list)
  obtain h where p': "ok" "pool_rel p' (coalesce (L @ (a, s, False) # R))" "mem p' a = Some h" "hdr_flags h = 0"
    using pool_put_block [OF assms(1) [unfolded B]] assms(3) by auto
  have "a mod 8 = 0" using pool_relD(17) [OF assms(1,2)] by simp
  then have "(a + 8) mod 4 = 0" by presburger
  then show ?thesis using p' pool_relD(1) [OF p'(2)] by (simp add: pool_put_def Let_def)
qed

text \<open>C27: a buffer of at most 65520 bytes has that many bytes after its header, with less than 8 to spare;
  for 65521 to 65528 bytes the size wraps around to 0 and the call fails; for more it wraps around to 8,
  and the call can succeed with a buffer that has no room at all.\<close>

theorem media_pool_sizes:
  "(0 < n \<and> n \<le> 65520 \<longrightarrow> n + 8 \<le> block_size n \<and> block_size n < n + 16)
   \<and> (65521 \<le> n \<and> n \<le> 65528 \<longrightarrow> block_size n = 0)
   \<and> (65529 \<le> n \<and> n \<le> 65535 \<longrightarrow> block_size n = 8)"
proof (intro conjI impI)
  assume n: "0 < n \<and> n \<le> 65520"
  have b: "n + 8 \<le> (n + 15) div 8 * 8" "(n + 15) div 8 * 8 < n + 16" by presburger+
  moreover have "(n + 15) div 8 * 8 < 65536" using n by presburger
  moreover have "(n + 15) div 8 * 8 = n + 8" if "(n + 8) mod 8 = 0" using that by presburger
  ultimately show "n + 8 \<le> block_size n" "block_size n < n + 16"
    using n by (auto simp: block_size_def Let_def add.assoc)
next
  assume n: "65521 \<le> n \<and> n \<le> 65528"
  show "block_size n = 0"
  proof (cases "n = 65528")
    case False
    then have "(n + 15) div 8 = 8192" "(n + 8) mod 8 \<noteq> 0" "n + 8 < 65536" using n by presburger+
    then show ?thesis by (simp add: block_size_def Let_def add.assoc)
  qed (simp add: block_size_def)
next
  assume n: "65529 \<le> n \<and> n \<le> 65535"
  define j where "j = n - 65528"
  have j: "n = 65528 + j" "1 \<le> j" "j \<le> 7" unfolding j_def using n by presburger+
  then have "(n + 8) mod 65536 = j" by simp
  moreover have "(j + 7) div 8 = 1" "j mod 8 \<noteq> 0" using j(2,3) by presburger+
  ultimately show "block_size n = 8" using n by (simp add: block_size_def Let_def)
qed

lemma media_pool_sizes_witness:
  "block_size 100 < 116 \<and> block_size 65521 = 0 \<and> block_size 65535 = 8"
  using media_pool_sizes [of 100] media_pool_sizes [of 65521] media_pool_sizes [of 65535] by simp

text \<open>Witnesses for the properties of running pools: the pool above, with one buffer taken.\<close>

lemma demo_pool:
  obtains p r p1 where "pool_rel p [(0x1000, 56, False)]"
    "client_run pool_exec pool_pre pool_spec pool_rel p [(0x1000, 56, False)]
       [(Get_Buffer 20, Buffer (Some 0x1008))] p1 [(0x1000, 32, True), (0x1020, 24, False)]"
    "pool_rel p1 [(0x1000, 32, True), (0x1020, 24, False)]"
proof -
  let ?p0 = "\<lparr>pool_flags = MEDIA_POOL_CREATED, pool_start = 0x800, p_pool_end = 0, heap_addr = Some 0x1000,
             heap_size = 64, heap_size_unused = 0, heap_size_mark = 0,
             next_free_block_after_get = None, mem = demo_mem\<rparr>"
  obtain p where p: "pool_rel p [(0x1000, 56, False)]"
    using lay_out_spec [of ?p0 "0x1000"] by (auto simp: demo_mem_def align_up_def align_down_def)
  obtain r p1 B1 where s: "pool_exec (Get_Buffer 20) p = Some (r, p1)" "pool_rel p1 B1"
      "pool_spec (Get_Buffer 20) [(0x1000, 56, False)] r B1"
  proof -
    have "pool_pre (Get_Buffer 20) [(0x1000, 56, False)]" by simp
    then show thesis using pool.sim [OF p] that by blast
  qed
  have r: "r = Buffer (Some 0x1008)" "B1 = [(0x1000, 32, True), (0x1020, 24, False)]"
    using s(3) by (auto simp: block_size_def Cons_eq_append_conv carve_def)
  have "client_run pool_exec pool_pre pool_spec pool_rel p [(0x1000, 56, False)] ([] @ [(Get_Buffer 20, r)]) p1 B1"
    using pool.run_call [OF pool.run_start _ s(1,3,2)] by simp
  then show thesis using that p s(2) r by simp
qed


lemma media_pool_double_put_witness:
  "\<exists>p1 p2. pool_rel p1 [(0x1000, 32, True), (0x1020, 24, False)] \<and> pool_put (Some 0x1008) p1 = Some (True, p2)
     \<and> pool_put (Some 0x1008) p2 = Some (False, p2)"
proof (rule demo_pool)
  fix p1 assume p1: "pool_rel p1 [(0x1000, 32, True), (0x1020, 24, False)]"
  then obtain p2 where p2: "pool_put (Some (0x1000 + 8)) p1 = Some (True, p2)"
    using pool_put_block [of p1 "[]" "0x1000" 32 "[(0x1020, 24, False)]"] by auto
  have "pool_put (Some (0x1000 + 8)) p2 = Some (False, p2)"
    using media_pool_double_put [OF p1 _ p2, of 32] by simp
  then show ?thesis using p1 p2 by auto
qed


end
