(* ===== verification/Vector.thy ===== *)
theory Vector
  imports Prelude "HOL-Library.Multiset"
begin

text \<open>
  The growing array of \<open>src/mcu/module/vector/vector.c\<close>: a bag of pointers with holes, its
  iterators, the two sorts and the set operations built on them.

  An element is the address of a client's object, \<open>NULL\<close> is \<^const>\<open>None\<close>. \<open>depth\<close> counts the
  elements; \<open>array_size\<close> is the length of the list \<open>array\<close>. Whether the heap can provide an array is
  an argument: \<open>grow\<close> tells it for the array of a given size, a \<open>bool\<close> for a single allocation.
  A comparison function (\<open>V_CMP\<close>) is a client's: the locale \<open>comparison\<close> is what the sorts and the
  search rely on.
\<close>

section \<open>Data\<close>

type_synonym vector_ele = "nat option"

record vector =
  depth :: nat
  capacity :: nat
  array :: "vector_ele list"

record vector_iterator =
  idx :: u8
  it_size :: u8
  it_array :: "vector_ele list"

section \<open>The vector\<close>

text \<open>The compacting loop of \<open>vector_resize\<close>: the new array and the index it stopped at.\<close>

function compact_loop :: "vector_ele list \<Rightarrow> nat \<Rightarrow> vector_ele list \<Rightarrow> nat \<Rightarrow> nat \<Rightarrow> (vector_ele list \<times> nat) option" where
  "compact_loop old old_idx new new_idx new_size =
     (if old_idx < length old \<and> new_idx < new_size then do {
        e \<leftarrow> arr_get old old_idx;
        (if e \<noteq> None then do {
           new' \<leftarrow> arr_set new new_idx e;
           compact_loop old (Suc old_idx) new' (Suc new_idx) new_size
         } else compact_loop old (Suc old_idx) new new_idx new_size)
      } else Some (new, old_idx))"
  by pat_completeness auto
termination
  by (relation "measure (\<lambda>(old, old_idx, _). length old - old_idx)") auto

declare compact_loop.simps [simp del]

definition vector_resize :: "bool \<Rightarrow> nat \<Rightarrow> vector \<Rightarrow> (bool \<times> vector) option" where
  "vector_resize alloc new_size v =
     (if \<not> alloc then Some (True, v)
      else if new_size \<ge> length (array v) then
        Some (True, v\<lparr>array := array v @ replicate (new_size - length (array v)) None\<rparr>)
      else do {
        (new, old_idx) \<leftarrow> compact_loop (array v) 0 (replicate new_size None) 0 new_size;
        Some (if old_idx \<noteq> length (array v) then (False, v) else (True, v\<lparr>array := new\<rparr>))
      })"

definition vector_create :: "bool \<Rightarrow> bool \<Rightarrow> nat \<Rightarrow> vector option" where
  "vector_create alloc_vec alloc_arr cap =
     (if cap = 0 \<or> \<not> alloc_vec \<or> \<not> alloc_arr then None
      else Some \<lparr>depth = 0, capacity = cap, array = [None]\<rparr>)"

definition vector_delete :: "vector option \<Rightarrow> bool" where
  "vector_delete v = (v \<noteq> None)"

definition vector_depth :: "vector option \<Rightarrow> nat" where
  "vector_depth v = (case v of None \<Rightarrow> 0 | Some v \<Rightarrow> depth v)"

definition vector_add :: "(nat \<Rightarrow> bool) \<Rightarrow> vector_ele \<Rightarrow> vector \<Rightarrow> (bool \<times> vector) option" where
  "vector_add grow e v =
     (if depth v = capacity v then Some (False, v)
      else do {
        (_, v1) \<leftarrow> (if depth v = length (array v)
                    then vector_resize (grow (length (array v) * 2)) (length (array v) * 2) v
                    else Some (True, v));
        Some (case first_index (\<lambda>x. x = None) (array v1) of
                Some i \<Rightarrow> (True, v1\<lparr>array := (array v1)[i := e], depth := depth v1 + 1\<rparr>)
              | None \<Rightarrow> (False, v1))
      })"

definition vector_remove :: "(nat \<Rightarrow> bool) \<Rightarrow> vector_ele \<Rightarrow> vector \<Rightarrow> (bool \<times> vector) option" where
  "vector_remove grow e v =
     (if depth v = 0 then Some (False, v)
      else case first_index (\<lambda>x. x = e) (array v) of
        None \<Rightarrow> Some (False, v)
      | Some i \<Rightarrow> do {
          let v1 = v\<lparr>array := (array v)[i := None], depth := depth v - 1\<rparr>;
          (_, v2) \<leftarrow> (if depth v1 > 0 \<and> depth v1 = length (array v1) div 4
                      then vector_resize (grow (length (array v1) div 2)) (length (array v1) div 2) v1
                      else Some (True, v1));
          Some (True, v2)
        })"

text \<open>The loops of \<open>vector_search\<close> and \<open>vector_mapping\<close> over the rest of the array.\<close>

fun search_loop :: "(nat \<Rightarrow> bool) \<Rightarrow> vector_ele list \<Rightarrow> nat \<Rightarrow> vector_ele" where
  "search_loop P [] d = None"
| "search_loop P (x # xs) d =
     (if d = 0 then None
      else case x of None \<Rightarrow> search_loop P xs d
           | Some e \<Rightarrow> if P e then Some e else search_loop P xs (d - 1))"

definition vector_search :: "(nat \<Rightarrow> bool) option \<Rightarrow> vector \<Rightarrow> vector_ele" where
  "vector_search predicate v =
     (if depth v = 0 then None
      else case predicate of None \<Rightarrow> None | Some P \<Rightarrow> search_loop P (array v) (depth v))"

text \<open>The elements the mapper is called on, in order.\<close>

fun mapping_loop :: "vector_ele list \<Rightarrow> nat \<Rightarrow> nat list" where
  "mapping_loop [] d = []"
| "mapping_loop (x # xs) d =
     (if d = 0 then []
      else case x of None \<Rightarrow> mapping_loop xs d | Some e \<Rightarrow> e # mapping_loop xs (d - 1))"

definition vector_mapping :: "bool \<Rightarrow> vector \<Rightarrow> bool \<times> nat list" where
  "vector_mapping has_mapper v =
     (if depth v = 0 \<or> \<not> has_mapper then (False, []) else (True, mapping_loop (array v) (depth v)))"

section \<open>Iterators\<close>

fun collect_loop :: "vector_ele list \<Rightarrow> nat \<Rightarrow> vector_ele list" where
  "collect_loop [] n = []"
| "collect_loop (x # xs) n =
     (if n = 0 then [] else case x of None \<Rightarrow> collect_loop xs n | Some e \<Rightarrow> Some e # collect_loop xs (n - 1))"

text \<open>\<open>size\<close> of an iterator is a \<open>uint8_t\<close>; the array is allocated, cleared, with \<open>depth\<close> places.\<close>

definition vector_iterator_create :: "bool \<Rightarrow> vector \<Rightarrow> vector_iterator option" where
  "vector_iterator_create alloc v =
     (if \<not> alloc then None
      else let es = collect_loop (array v) (depth v)
           in Some \<lparr>idx = 0, it_size = of_nat (depth v),
                    it_array = es @ replicate (depth v - length es) None\<rparr>)"

definition vector_iterator_step :: "vector_iterator \<Rightarrow> (vector_ele option \<times> vector_iterator) option" where
  "vector_iterator_step it =
     (if idx it = it_size it then Some (None, it\<lparr>idx := 0\<rparr>)
      else do {
        e \<leftarrow> arr_get (it_array it) (unat (idx it));
        Some (Some e, it\<lparr>idx := idx it + 1\<rparr>)
      })"

definition vector_update_by_iterator :: "vector_iterator \<Rightarrow> vector \<Rightarrow> vector option" where
  "vector_update_by_iterator it v =
     (let n = unat (it_size it)
      in if length (it_array it) < n \<or> length (array v) < n then None
         else Some (v\<lparr>array := take n (it_array it) @ replicate (length (array v) - n) None\<rparr>))"

section \<open>Sorting\<close>

type_synonym v_cmp = "vector_ele \<Rightarrow> vector_ele \<Rightarrow> int"

text \<open>The loops of \<open>vector_merge\<close>: taking the smaller head, copying a rest, copying back.\<close>

function merge_loop ::
    "v_cmp \<Rightarrow> vector_ele list \<Rightarrow> vector_ele list \<Rightarrow> nat \<Rightarrow> nat \<Rightarrow> nat \<Rightarrow> nat \<Rightarrow> nat
      \<Rightarrow> (nat \<times> nat \<times> nat \<times> vector_ele list) option" where
  "merge_loop cmp ori tmp lpos leftend rpos rightend tmp_pos =
     (if lpos \<le> leftend \<and> rpos \<le> rightend then do {
        x \<leftarrow> arr_get ori lpos;
        y \<leftarrow> arr_get ori rpos;
        (if cmp x y < 0 then do {
           tmp' \<leftarrow> arr_set tmp tmp_pos x;
           merge_loop cmp ori tmp' (Suc lpos) leftend rpos rightend (Suc tmp_pos)
         } else do {
           tmp' \<leftarrow> arr_set tmp tmp_pos y;
           merge_loop cmp ori tmp' lpos leftend (Suc rpos) rightend (Suc tmp_pos)
         })
      } else Some (lpos, rpos, tmp_pos, tmp))"
  by pat_completeness auto
termination
  by (relation "measure (\<lambda>(_, _, _, l, le, r, re, _). (Suc le - l) + (Suc re - r))") auto

function copy_loop ::
    "vector_ele list \<Rightarrow> vector_ele list \<Rightarrow> nat \<Rightarrow> nat \<Rightarrow> nat \<Rightarrow> (nat \<times> vector_ele list) option" where
  "copy_loop ori tmp pos stop tmp_pos =
     (if pos \<le> stop then do {
        x \<leftarrow> arr_get ori pos;
        tmp' \<leftarrow> arr_set tmp tmp_pos x;
        copy_loop ori tmp' (Suc pos) stop (Suc tmp_pos)
      } else Some (tmp_pos, tmp))"
  by pat_completeness auto
termination
  by (relation "measure (\<lambda>(_, _, p, e, _). Suc e - p)") auto

fun back_loop :: "nat \<Rightarrow> vector_ele list \<Rightarrow> vector_ele list \<Rightarrow> nat \<Rightarrow> vector_ele list option" where
  "back_loop 0 ori tmp rightend = Some ori"
| "back_loop (Suc n) ori tmp rightend = do {
     x \<leftarrow> arr_get tmp rightend;
     ori' \<leftarrow> arr_set ori rightend x;
     back_loop n ori' tmp (rightend - 1)
   }"

declare merge_loop.simps [simp del] copy_loop.simps [simp del] back_loop.simps [simp del]

definition vector_merge ::
    "v_cmp \<Rightarrow> vector_ele list \<Rightarrow> vector_ele list \<Rightarrow> nat \<Rightarrow> nat \<Rightarrow> nat
      \<Rightarrow> (vector_ele list \<times> vector_ele list) option" where
  "vector_merge cmp ori tmp lpos rpos rightend = do {
     let leftend = rpos - 1;
     let N = rightend - lpos + 1;
     (l, r, tp, tmp1) \<leftarrow> merge_loop cmp ori tmp lpos leftend rpos rightend lpos;
     (tp2, tmp2) \<leftarrow> copy_loop ori tmp1 l leftend tp;
     (_, tmp3) \<leftarrow> copy_loop ori tmp2 r rightend tp2;
     ori' \<leftarrow> back_loop N ori tmp3 rightend;
     Some (ori', tmp3)
   }"

function vector_msort ::
    "v_cmp \<Rightarrow> vector_ele list \<Rightarrow> vector_ele list \<Rightarrow> nat \<Rightarrow> nat
      \<Rightarrow> (vector_ele list \<times> vector_ele list) option" where
  "vector_msort cmp ori tmp left right =
     (if left < right then do {
        let center = (left + right) div 2;
        (ori1, tmp1) \<leftarrow> vector_msort cmp ori tmp left center;
        (ori2, tmp2) \<leftarrow> vector_msort cmp ori1 tmp1 (center + 1) right;
        vector_merge cmp ori2 tmp2 left (center + 1) right
      } else Some (ori, tmp))"
  by pat_completeness auto
termination
  by (relation "measure (\<lambda>(_, _, _, l, r). r - l)") auto

declare vector_msort.simps [simp del]

text \<open>\<open>iterator->size - 1\<close> is passed as a \<open>uint32_t\<close>.\<close>

definition vector_iterator_merge_sort :: "v_cmp \<Rightarrow> bool \<Rightarrow> vector_iterator \<Rightarrow> vector_iterator option" where
  "vector_iterator_merge_sort cmp alloc it =
     (if \<not> alloc then Some it
      else do {
        let n = unat (it_size it);
        (ori, _) \<leftarrow> vector_msort cmp (it_array it) (replicate n None) 0 ((n + 2 ^ 32 - 1) mod 2 ^ 32);
        Some (it\<lparr>it_array := ori\<rparr>)
      })"

text \<open>The insertion sort compares the pointers themselves (\<open>NULL\<close> is the smallest).\<close>

definition ptr_less :: "vector_ele \<Rightarrow> vector_ele \<Rightarrow> bool" where
  "ptr_less x y = (case (x, y) of (_, None) \<Rightarrow> False | (None, Some _) \<Rightarrow> True | (Some a, Some b) \<Rightarrow> a < b)"

fun shift_loop :: "vector_ele list \<Rightarrow> vector_ele \<Rightarrow> nat \<Rightarrow> (vector_ele list \<times> nat) option" where
  "shift_loop a tmp 0 = Some (a, 0)"
| "shift_loop a tmp (Suc j) = do {
     x \<leftarrow> arr_get a j;
     (if ptr_less tmp x then do {
        a' \<leftarrow> arr_set a (Suc j) x;
        shift_loop a' tmp j
      } else Some (a, Suc j))
   }"

function isort_loop :: "vector_ele list \<Rightarrow> nat \<Rightarrow> nat \<Rightarrow> vector_ele list option" where
  "isort_loop a p N =
     (if p < N then do {
        tmp \<leftarrow> arr_get a p;
        (a1, j) \<leftarrow> shift_loop a tmp p;
        a2 \<leftarrow> arr_set a1 j tmp;
        isort_loop a2 (Suc p) N
      } else Some a)"
  by pat_completeness auto
termination
  by (relation "measure (\<lambda>(_, p, N). N - p)") auto

declare isort_loop.simps [simp del]

definition vector_isort :: "vector_ele list \<Rightarrow> nat \<Rightarrow> vector_ele list option" where
  "vector_isort a N = isort_loop a 1 N"

definition vector_iterator_insert_sort :: "vector_iterator \<Rightarrow> vector_iterator option" where
  "vector_iterator_insert_sort it =
     map_option (\<lambda>a. it\<lparr>it_array := a\<rparr>) (vector_isort (it_array it) (unat (it_size it)))"

function vector_iterator_binary_search ::
    "v_cmp \<Rightarrow> vector_ele \<Rightarrow> vector_ele list \<Rightarrow> int \<Rightarrow> int \<Rightarrow> int option" where
  "vector_iterator_binary_search cmp t a low high =
     (if low > high then Some (- 1)
      else do {
        let mid = (low + high) div 2;
        x \<leftarrow> (if mid < 0 then None else arr_get a (nat mid));
        (if cmp t x = 0 then Some mid
         else if cmp t x < 0 then vector_iterator_binary_search cmp t a low (mid - 1)
         else vector_iterator_binary_search cmp t a (mid + 1) high)
      })"
  by pat_completeness auto
termination
  by (relation "measure (\<lambda>(_, _, _, low, high). nat (high - low + 1))") auto

declare vector_iterator_binary_search.simps [simp del]

section \<open>Set operations\<close>

datatype vector_set_op_type = VECTOR_UNION | VECTOR_INTERSECTION | VECTOR_DIFFERENCE

text \<open>What the heap provides in one set operation.\<close>

record set_op_heap =
  it_alloc :: bool    \<comment> \<open>both iterators\<close>
  tmp_alloc :: bool   \<comment> \<open>the scratch arrays of the merge sorts\<close>
  vec_alloc :: bool   \<comment> \<open>the new vector and its array\<close>
  grow_alloc :: "nat \<Rightarrow> bool"

definition sort_method :: "v_cmp \<Rightarrow> set_op_heap \<Rightarrow> bool \<Rightarrow> vector_iterator \<Rightarrow> vector_iterator option" where
  "sort_method cmp hp small it =
     (if small then vector_iterator_insert_sort it else vector_iterator_merge_sort cmp (tmp_alloc hp) it)"

definition vector_set_op_prepare ::
    "v_cmp \<Rightarrow> set_op_heap \<Rightarrow> vector_set_op_type \<Rightarrow> vector \<Rightarrow> vector
      \<Rightarrow> (vector option \<times> vector_iterator \<times> vector_iterator \<times> vector \<times> vector) option" where
  "vector_set_op_prepare cmp hp op va vb = do {
     ia \<leftarrow> vector_iterator_create (it_alloc hp) va;
     ib \<leftarrow> vector_iterator_create (it_alloc hp) vb;
     let small = (unat (it_size ia) < 20 \<and> unat (it_size ib) < 20);
     ia1 \<leftarrow> sort_method cmp hp small ia;
     ib1 \<leftarrow> sort_method cmp hp small ib;
     let n = (case op of
                VECTOR_UNION \<Rightarrow> unat (it_size ia1) + unat (it_size ib1)
              | VECTOR_INTERSECTION \<Rightarrow> (if it_size ia1 < it_size ib1 then unat (it_size ia1) else unat (it_size ib1))
              | VECTOR_DIFFERENCE \<Rightarrow> unat (it_size ia1));
     let vc = vector_create (vec_alloc hp) (vec_alloc hp) n;
     va1 \<leftarrow> vector_update_by_iterator ia1 va;
     vb1 \<leftarrow> vector_update_by_iterator ib1 vb;
     Some (vc, ia1, ib1, va1, vb1)
   }"

text \<open>\<open>vector_add\<close> on a vector that may be \<open>NULL\<close>.\<close>

definition vector_add_opt :: "(nat \<Rightarrow> bool) \<Rightarrow> vector_ele \<Rightarrow> vector option \<Rightarrow> vector option option" where
  "vector_add_opt grow e vo =
     (case vo of None \<Rightarrow> Some None
      | Some v \<Rightarrow> map_option (\<lambda>(_, v'). Some v') (vector_add grow e v))"

text \<open>
  \<open>while (vector_iterator_step(it, &ele)) if (keep(ele)) vector_add(vectorC, ele);\<close> started with
  \<open>idx = 0\<close>: the elements before \<open>size\<close>, in order.
\<close>

function filter_loop ::
    "(vector_ele \<Rightarrow> bool option) \<Rightarrow> (nat \<Rightarrow> bool) \<Rightarrow> vector_iterator \<Rightarrow> vector option \<Rightarrow> vector option option" where
  "filter_loop keep grow it vo =
     (if idx it \<noteq> it_size it then do {
        r \<leftarrow> vector_iterator_step it;
        (case r of
           (None, _) \<Rightarrow> Some vo
         | (Some e, it') \<Rightarrow> do {
             k \<leftarrow> keep e;
             vo' \<leftarrow> (if k then vector_add_opt grow e vo else Some vo);
             filter_loop keep grow it' vo'
           })
      } else Some vo)"
  by pat_completeness auto
termination
proof (relation "measure (\<lambda>(_, _, it, _). unat (it_size it - idx it))", goal_cases)
  case (2 keep grow it vo a x it' e k vo')
  then have it': "idx it' = idx it + 1" "it_size it' = it_size it" "it_size it - idx it \<noteq> 0"
    by (auto simp: vector_iterator_step_def split: bind_splits)
  then have "unat (it_size it - idx it - 1) < unat (it_size it - idx it)"
    using measure_unat by blast
  then show ?case by (simp add: it' diff_diff_add)
qed simp

declare filter_loop.simps [simp del]

definition search_in :: "v_cmp \<Rightarrow> vector_iterator \<Rightarrow> vector_ele \<Rightarrow> int option" where
  "search_in cmp it e = vector_iterator_binary_search cmp e (it_array it) 0 (int (unat (it_size it)) - 1)"

definition vector_union ::
    "v_cmp \<Rightarrow> set_op_heap \<Rightarrow> vector \<Rightarrow> vector \<Rightarrow> (vector option \<times> vector \<times> vector) option" where
  "vector_union cmp hp va vb = do {
     (vc, ia, ib, va1, vb1) \<leftarrow> vector_set_op_prepare cmp hp VECTOR_UNION va vb;
     vc1 \<leftarrow> filter_loop (\<lambda>_. Some True) (grow_alloc hp) ia vc;
     vc2 \<leftarrow> filter_loop (\<lambda>e. map_option (\<lambda>r. r = - 1) (search_in cmp ia e)) (grow_alloc hp) ib vc1;
     Some (vc2, va1, vb1)
   }"

definition vector_intersection ::
    "v_cmp \<Rightarrow> set_op_heap \<Rightarrow> vector \<Rightarrow> vector \<Rightarrow> (vector option \<times> vector \<times> vector) option" where
  "vector_intersection cmp hp va vb = do {
     (vc, ia, ib, va1, vb1) \<leftarrow> vector_set_op_prepare cmp hp VECTOR_INTERSECTION va vb;
     let (base, other) = (if it_size ia \<le> it_size ib then (ia, ib) else (ib, ia));
     vc1 \<leftarrow> filter_loop (\<lambda>e. map_option (\<lambda>r. r \<ge> 0) (search_in cmp other e)) (grow_alloc hp) base vc;
     Some (vc1, va1, vb1)
   }"

definition vector_difference ::
    "v_cmp \<Rightarrow> set_op_heap \<Rightarrow> vector \<Rightarrow> vector \<Rightarrow> (vector option \<times> vector \<times> vector) option" where
  "vector_difference cmp hp va vb = do {
     (vc, ia, ib, va1, vb1) \<leftarrow> vector_set_op_prepare cmp hp VECTOR_DIFFERENCE va vb;
     vc1 \<leftarrow> filter_loop (\<lambda>e. map_option (\<lambda>r. r = - 1) (search_in cmp ib e)) (grow_alloc hp) ia vc;
     Some (vc1, va1, vb1)
   }"

section \<open>The vector as a bag\<close>

fun somes :: "'a option list \<Rightarrow> 'a list" where
  "somes [] = []"
| "somes (None # xs) = somes xs"
| "somes (Some x # xs) = x # somes xs"

lemma somes_append [simp]: "somes (xs @ ys) = somes xs @ somes ys"
  by (induction xs rule: somes.induct) auto

lemma somes_replicate [simp]: "somes (replicate n None) = []"
  by (induction n) auto

lemma somes_map_Some [simp]: "somes (map Some xs) = xs"
  by (induction xs) auto

lemma length_somes: "length (somes xs) \<le> length xs"
  by (induction xs rule: somes.induct) auto

lemma somes_full: "None \<notin> set xs \<Longrightarrow> length (somes xs) = length xs"
  by (induction xs rule: somes.induct) auto

lemma set_somes: "x \<in> set (somes xs) \<longleftrightarrow> Some x \<in> set xs"
  by (induction xs rule: somes.induct) auto

lemma somes_fill:
  "first_index (\<lambda>x. x = None) xs = Some i \<Longrightarrow> mset (somes (xs[i := Some e])) = add_mset e (mset (somes xs))"
  by (induction xs arbitrary: i rule: somes.induct) (auto split: nat.splits)

lemma somes_clear:
  "first_index (\<lambda>x. x = Some e) xs = Some i \<Longrightarrow> somes (xs[i := None]) = remove1 e (somes xs) \<and> e \<in> set (somes xs)"
  by (induction xs arbitrary: i rule: somes.induct) (auto split: if_splits)

definition vec_ok :: "vector \<Rightarrow> bool" where
  "vec_ok v \<longleftrightarrow> depth v = length (somes (array v)) \<and> depth v \<le> capacity v \<and> array v \<noteq> []"

text \<open>
  The length of the array is a power of two, and less than four times the number of elements unless it
  is at most two.
\<close>

definition vec_tight :: "vector \<Rightarrow> bool" where
  "vec_tight v \<longleftrightarrow> (\<exists>k. length (array v) = 2 ^ k) \<and> (length (array v) < 4 * depth v \<or> length (array v) \<le> 2)"

lemma compact_loop_eq:
  assumes "ni + length (somes (drop oi old)) < ns" "oi \<le> length old" "length new = ns"
  shows "compact_loop old oi new ni ns =
    Some (take ni new @ map Some (somes (drop oi old)) @ drop (ni + length (somes (drop oi old))) new, length old)"
  using assms
proof (induction old oi new ni ns rule: compact_loop.induct)
  case (1 old oi new ni ns)
  show ?case
  proof (cases "oi < length old")
    case False
    then show ?thesis using "1.prems" by (subst compact_loop.simps) simp
  next
    case True
    then have dr: "drop oi old = old ! oi # drop (Suc oi) old" by (simp add: Cons_nth_drop_Suc)
    have lt: "ni < ns" using "1.prems"(1) by simp
    show ?thesis
    proof (cases "old ! oi")
      case None
      then show ?thesis
        using "1.IH"(2) [of "old ! oi"] "1.prems" True lt dr
        by (subst compact_loop.simps) (simp add: arr_simps)
    next
      case (Some x)
      let ?new = "new[ni := Some x]"
      have "take (Suc ni) ?new = take ni new @ [Some x]" using lt "1.prems"(3) by (simp add: take_Suc_conv_app_nth)
      moreover have "compact_loop old (Suc oi) ?new (Suc ni) ns =
          Some (take (Suc ni) ?new @ map Some (somes (drop (Suc oi) old))
            @ drop (Suc ni + length (somes (drop (Suc oi) old))) ?new, length old)"
        using "1.IH"(1) [of "old ! oi" ?new] "1.prems" True lt dr Some by (simp add: arr_simps)
      ultimately show ?thesis
        using "1.prems" True lt dr Some
        by (subst compact_loop.simps) (simp add: arr_simps)
    qed
  qed
qed

lemma resize_ok:
  assumes "vec_ok v" "depth v < n"
  shows "\<exists>v'. vector_resize alloc n v = Some (True, v') \<and> vec_ok v'
    \<and> somes (array v') = somes (array v) \<and> depth v' = depth v \<and> capacity v' = capacity v
    \<and> length (array v') = (if alloc then n else length (array v))"
proof (cases "alloc \<and> n < length (array v)")
  case True
  define new where "new = map Some (somes (array v)) @ replicate (n - depth v) None"
  have "compact_loop (array v) 0 (replicate n None) 0 n = Some (new, length (array v))"
    using compact_loop_eq [of 0 0 "array v" n "replicate n None"] assms
    by (simp add: new_def vec_ok_def)
  then have "vector_resize alloc n v = Some (True, v\<lparr>array := new\<rparr>)"
    using True by (simp add: vector_resize_def)
  moreover have "length new = n" "somes new = somes (array v)"
    using assms by (simp_all add: new_def vec_ok_def)
  moreover have "new \<noteq> []" using assms(2) \<open>length new = n\<close> by auto
  ultimately show ?thesis using assms True by (auto simp: vec_ok_def)
next
  case False
  then show ?thesis using assms by (auto simp: vector_resize_def vec_ok_def)
qed

lemma add_spec:
  assumes ok: "vec_ok v"
  shows "\<exists>r v'. vector_add grow (Some e) v = Some (r, v') \<and> vec_ok v' \<and> capacity v' = capacity v
    \<and> mset (somes (array v')) = (if r then add_mset e (mset (somes (array v))) else mset (somes (array v)))
    \<and> (r \<longleftrightarrow> depth v < capacity v \<and> (depth v < length (array v) \<or> grow (2 * length (array v))))
    \<and> (vec_tight v \<longrightarrow> r \<longrightarrow> vec_tight v')"
proof (cases "depth v = capacity v")
  case True
  then show ?thesis using ok by (intro exI [of _ False] exI [of _ v]) (simp add: vector_add_def)
next
  case False
  then have lt: "depth v < capacity v" using ok by (simp add: vec_ok_def)
  have dl: "depth v \<le> length (array v)" "array v \<noteq> []" using ok length_somes by (auto simp: vec_ok_def)
  obtain v1 where v1: "(if depth v = length (array v)
        then vector_resize (grow (length (array v) * 2)) (length (array v) * 2) v else Some (True, v)) = Some (True, v1)"
      "vec_ok v1" "somes (array v1) = somes (array v)" "depth v1 = depth v" "capacity v1 = capacity v"
      "length (array v1) = (if depth v = length (array v) \<and> grow (length (array v) * 2)
         then length (array v) * 2 else length (array v))"
  proof (cases "depth v = length (array v)")
    case True
    then have "depth v < length (array v) * 2" using dl by (cases "array v") auto
    from resize_ok [OF ok this, of "grow (length (array v) * 2)"] show thesis using that True by auto
  next
    case False
    then show thesis using that [of v] ok by simp
  qed
  have add: "vector_add grow (Some e) v = Some (case first_index (\<lambda>x. x = None) (array v1) of
      Some i \<Rightarrow> (True, v1\<lparr>array := (array v1)[i := Some e], depth := depth v1 + 1\<rparr>) | None \<Rightarrow> (False, v1))"
    using v1(1) False by (simp add: vector_add_def)
  show ?thesis
  proof (cases "first_index (\<lambda>x. x = None) (array v1)")
    case None
    then have "depth v1 = length (array v1)"
      using v1(2) somes_full [of "array v1"] by (auto simp: first_index_None vec_ok_def)
    then have "depth v = length (array v) \<and> \<not> grow (2 * length (array v))"
      using v1(4,6) dl by (auto simp: mult.commute split: if_splits)
    then show ?thesis using add None v1 lt by (intro exI [of _ False] exI [of _ v1]) (simp add: mult.commute)
  next
    case (Some i)
    let ?v = "v1\<lparr>array := (array v1)[i := Some e], depth := depth v1 + 1\<rparr>"
    have m: "mset (somes (array ?v)) = add_mset e (mset (somes (array v)))"
      using somes_fill [OF Some] v1(3) by simp
    then have "length (somes (array ?v)) = Suc (depth v)"
      using ok by (metis size_add_mset size_mset vec_ok_def)
    then have "vec_ok ?v" using lt v1(2,4,5) by (auto simp: vec_ok_def)
    moreover have "depth v < length (array v) \<or> grow (2 * length (array v))"
    proof (rule ccontr)
      assume "\<not> ?thesis"
      then have "length (array v1) = depth v1" using v1(4,6) dl by (auto simp: mult.commute)
      moreover have "None \<in> set (array v1)" using Some nth_mem [of i "array v1"] by (simp add: first_index_Some)
      then have "length (somes (array v1)) < length (array v1)"
      proof -
        have "None \<in> set xs \<Longrightarrow> length (somes xs) < length xs" for xs :: "nat option list"
          by (induction xs rule: somes.induct) (auto simp: less_Suc_eq_le length_somes)
        then show ?thesis using \<open>None \<in> set (array v1)\<close> by blast
      qed
      ultimately show False using v1(2) by (simp add: vec_ok_def)
    qed
    moreover have "vec_tight ?v" if "vec_tight v"
    proof -
      obtain k where "length (array v) = 2 ^ k" using \<open>vec_tight v\<close> by (auto simp: vec_tight_def)
      then have "\<exists>k. length (array v1) = 2 ^ k"
        using v1(6) by (auto intro: exI [of _ k] exI [of _ "Suc k"])
      then show ?thesis using \<open>vec_tight v\<close> v1(4,6) by (auto simp: vec_tight_def split: if_splits)
    qed
    ultimately show ?thesis using add Some m lt v1(5) by (intro exI [of _ True] exI [of _ ?v]) auto
  qed
qed

lemma remove_spec:
  assumes ok: "vec_ok v"
  shows "\<exists>v'. vector_remove grow (Some e) v = Some (e \<in> set (somes (array v)), v') \<and> vec_ok v'
    \<and> capacity v' = capacity v \<and> somes (array v') = remove1 e (somes (array v))
    \<and> (vec_tight v \<longrightarrow> (\<forall>n. grow n) \<longrightarrow> vec_tight v')"
proof (cases "first_index (\<lambda>x. x = Some e) (array v)")
  case None
  then have "e \<notin> set (somes (array v))" by (auto simp: first_index_None set_somes)
  then show ?thesis using ok None by (auto simp: vector_remove_def remove1_idem)
next
  case (Some i)
  note sc = somes_clear [OF Some]
  let ?v1 = "v\<lparr>array := (array v)[i := None], depth := depth v - 1\<rparr>"
  have d0: "depth v \<noteq> 0" using sc ok by (auto simp: vec_ok_def)
  have ok1: "vec_ok ?v1" using ok sc by (auto simp: vec_ok_def length_remove1)
  obtain v2 where v2: "(if depth ?v1 > 0 \<and> depth ?v1 = length (array ?v1) div 4
        then vector_resize (grow (length (array ?v1) div 2)) (length (array ?v1) div 2) ?v1
        else Some (True, ?v1)) = Some (True, v2)"
      "vec_ok v2" "somes (array v2) = somes (array ?v1)" "depth v2 = depth ?v1" "capacity v2 = capacity v"
      "vec_tight v \<longrightarrow> (\<forall>n. grow n) \<longrightarrow> vec_tight v2"
  proof (cases "depth ?v1 > 0 \<and> depth ?v1 = length (array ?v1) div 4")
    case True
    then have "depth ?v1 < length (array ?v1) div 2" by auto
    have p: "\<exists>j. length (array v) div 2 = 2 ^ j" if h: "\<exists>k. length (array v) = 2 ^ k" "0 < length (array v) div 4"
    proof -
      obtain k where k: "length (array v) = 2 ^ k" using h(1) by blast
      then show ?thesis using h(2) by (cases k) auto
    qed
    have d1: "0 < depth v - 1" and d2: "depth v - 1 = length (array v) div 4" using True by auto
    have d4: "0 < length (array v) div 4" using d1 unfolding d2 .
    have q: "0 < N div 4 \<Longrightarrow> N div 2 < 4 * (N div 4)" for N :: nat by presburger
    from resize_ok [OF ok1 \<open>depth ?v1 < length (array ?v1) div 2\<close>, of "grow (length (array ?v1) div 2)"]
    show thesis using that True q [of "length (array v)"] p [OF _ d4] by (auto simp: vec_tight_def)
  next
    case False
    have "vec_tight ?v1" if t: "vec_tight v"
    proof -
      obtain k where k: "length (array v) = 2 ^ k" using t by (auto simp: vec_tight_def)
      have "length (array v) \<noteq> 3"
      proof
        assume "length (array v) = 3"
        then show False using k by (cases k) (auto, presburger)
      qed
      then show ?thesis using t False d0 k by (cases "depth v = 1") (auto simp: vec_tight_def)
    qed
    then show thesis
      by (intro that [of ?v1], intro if_not_P [OF False]) (use ok1 in simp_all)
  qed
  then have "vector_remove grow (Some e) v = Some (True, v2)"
    using d0 unfolding vector_remove_def Let_def Some
    by (simp only: v2(1) if_False option.case bind.bind_lunit prod.case)
  then show ?thesis using v2 sc by simp
qed

section \<open>Searching, mapping, iterating\<close>

lemma search_loop_eq: "length (somes xs) \<le> d \<Longrightarrow> search_loop P xs d = find P (somes xs)"
  by (induction xs arbitrary: d rule: somes.induct) auto

lemma mapping_loop_eq: "length (somes xs) \<le> d \<Longrightarrow> mapping_loop xs d = somes xs"
  by (induction xs arbitrary: d rule: somes.induct) auto

lemma collect_loop_eq: "length (somes xs) \<le> n \<Longrightarrow> collect_loop xs n = map Some (somes xs)"
  by (induction xs arbitrary: n rule: somes.induct) auto

lemma iterator_create_ok:
  "vec_ok v \<Longrightarrow> vector_iterator_create True v =
     Some \<lparr>idx = 0, it_size = of_nat (depth v), it_array = map Some (somes (array v))\<rparr>"
  by (simp add: vector_iterator_create_def vec_ok_def collect_loop_eq Let_def)

section \<open>Merging\<close>

text \<open>On equal heads the code takes the one on the right.\<close>

fun merge2 :: "('a \<Rightarrow> 'a \<Rightarrow> int) \<Rightarrow> 'a list \<Rightarrow> 'a list \<Rightarrow> 'a list" where
  "merge2 cmp [] ys = ys"
| "merge2 cmp xs [] = xs"
| "merge2 cmp (x # xs) (y # ys) =
     (if cmp x y < 0 then x # merge2 cmp xs (y # ys) else y # merge2 cmp (x # xs) ys)"

lemma merge2_Nil2 [simp]: "merge2 cmp xs [] = xs"
  by (cases xs) auto

lemma length_merge2 [simp]: "length (merge2 cmp xs ys) = length xs + length ys"
  by (induction cmp xs ys rule: merge2.induct) auto

lemma mset_merge2 [simp]: "mset (merge2 cmp xs ys) = mset xs + mset ys"
  by (induction cmp xs ys rule: merge2.induct) auto

text \<open>The part of an array from \<open>l\<close> up to, not including, \<open>r\<close>.\<close>

definition slice :: "nat \<Rightarrow> nat \<Rightarrow> 'a list \<Rightarrow> 'a list" where
  "slice l r xs = take (r - l) (drop l xs)"

lemma slice_Cons: "l < r \<Longrightarrow> r \<le> length xs \<Longrightarrow> slice l r xs = xs ! l # slice (Suc l) r xs"
  by (simp add: slice_def Cons_nth_drop_Suc [symmetric] take_Cons' )

lemma slice_Nil [simp]: "r \<le> l \<Longrightarrow> slice l r xs = []"
  by (simp add: slice_def)

lemma length_slice [simp]: "r \<le> length xs \<Longrightarrow> length (slice l r xs) = r - l"
  by (simp add: slice_def)

lemma slice_append: "l \<le> m \<Longrightarrow> m \<le> r \<Longrightarrow> slice l m xs @ slice m r xs = slice l r xs"
proof -
  assume "l \<le> m" "m \<le> r"
  then have "drop m xs = drop (m - l) (drop l xs)" "r - l = (m - l) + (r - m)" by simp_all
  then show ?thesis by (simp add: slice_def take_add)
qed

lemma splice_slice: "l \<le> r \<Longrightarrow> take l xs @ slice l r xs @ drop r xs = xs"
  using slice_append [of 0 l r xs] by (simp add: slice_def) (metis append_assoc append_take_drop_id)

lemma put_seq:
  assumes "tp < length tmp" "tmp' = tmp[tp := x]"
  shows "take (Suc tp) tmp' = take tp tmp @ [x]" "drop (Suc tp) tmp' = drop (Suc tp) tmp" "length tmp' = length tmp"
  using assms by (simp_all add: take_Suc_conv_app_nth)

lemma copy_loop_eq:
  assumes "stop < length ori" "pos \<le> Suc stop" "tp + (Suc stop - pos) \<le> length tmp"
  shows "copy_loop ori tmp pos stop tp =
    Some (tp + (Suc stop - pos), take tp tmp @ slice pos (Suc stop) ori @ drop (tp + (Suc stop - pos)) tmp)"
  using assms
proof (induction ori tmp pos stop tp rule: copy_loop.induct)
  case (1 ori tmp pos stop tp)
  show ?case
  proof (cases "pos \<le> stop")
    case False
    then show ?thesis using "1.prems" by (subst copy_loop.simps) simp
  next
    case True
    define tmp' where "tmp' = tmp[tp := ori ! pos]"
    have tp: "tp < length tmp" using "1.prems"(3) True by simp
    note p = put_seq [OF tp tmp'_def]
    have "copy_loop ori tmp' (Suc pos) stop (Suc tp) =
        Some (Suc tp + (stop - pos), take (Suc tp) tmp' @ slice (Suc pos) (Suc stop) ori @ drop (Suc tp + (stop - pos)) tmp')"
      using "1.IH" [OF True, of "ori ! pos" tmp'] "1.prems" True tp p(3)
      by (simp add: arr_simps tmp'_def)
    moreover have "drop (Suc tp + (stop - pos)) tmp' = drop (Suc tp + (stop - pos)) tmp"
      by (simp add: tmp'_def)
    moreover have "copy_loop ori tmp pos stop tp = copy_loop ori tmp' (Suc pos) stop (Suc tp)"
      using "1.prems" True tp by (subst copy_loop.simps) (simp add: arr_simps tmp'_def)
    ultimately show ?thesis using "1.prems" True p(1) by (simp add: slice_Cons Suc_diff_le)
  qed
qed

text \<open>The three loops together.\<close>

lemma merge_loops:
  assumes "le < length ori" "re < length ori" "l \<le> Suc le" "r \<le> Suc re"
    "tp + (Suc le - l) + (Suc re - r) \<le> length tmp"
  shows "do { (l', r', tp', tmp1) \<leftarrow> merge_loop cmp ori tmp l le r re tp;
              (tp2, tmp2) \<leftarrow> copy_loop ori tmp1 l' le tp';
              (_, tmp3) \<leftarrow> copy_loop ori tmp2 r' re tp2;
              Some tmp3 }
    = Some (take tp tmp @ merge2 cmp (slice l (Suc le) ori) (slice r (Suc re) ori)
        @ drop (tp + (Suc le - l) + (Suc re - r)) tmp)"
  using assms
proof (induction cmp ori tmp l le r re tp rule: merge_loop.induct)
  case (1 cmp ori tmp l le r re tp)
  show ?case
  proof (cases "l \<le> le \<and> r \<le> re")
    case False
    define tmp2 where "tmp2 = take tp tmp @ slice l (Suc le) ori @ drop (tp + (Suc le - l)) tmp"
    have len: "length tmp2 = length tmp" using "1.prems" by (simp add: tmp2_def)
    have "copy_loop ori tmp l le tp = Some (tp + (Suc le - l), tmp2)"
      using "1.prems" copy_loop_eq [of le ori l tp tmp] by (simp add: tmp2_def)
    moreover have "copy_loop ori tmp2 r re (tp + (Suc le - l)) = Some (tp + (Suc le - l) + (Suc re - r),
        take (tp + (Suc le - l)) tmp2 @ slice r (Suc re) ori @ drop (tp + (Suc le - l) + (Suc re - r)) tmp2)"
      using "1.prems" len copy_loop_eq [of re ori r "tp + (Suc le - l)" tmp2] by simp
    moreover have "take (tp + (Suc le - l)) tmp2 = take tp tmp @ slice l (Suc le) ori"
      "drop (tp + (Suc le - l) + (Suc re - r)) tmp2 = drop (tp + (Suc le - l) + (Suc re - r)) tmp"
      using "1.prems" unfolding tmp2_def by (simp, subst drop_append, simp add: ac_simps)
    moreover have "merge2 cmp (slice l (Suc le) ori) (slice r (Suc re) ori)
        = slice l (Suc le) ori @ slice r (Suc re) ori"
      using False "1.prems"(3,4) by (cases "l \<le> le") auto
    moreover have "merge_loop cmp ori tmp l le r re tp = Some (l, r, tp, tmp)"
      using False by (subst merge_loop.simps) auto
    ultimately show ?thesis by simp
  next
    case True
    define x where "x = ori ! l" define y where "y = ori ! r"
    have tp: "tp < length tmp" using "1.prems"(5) True by linarith
    have sl: "slice l (Suc le) ori = x # slice (Suc l) (Suc le) ori" "slice r (Suc re) ori = y # slice (Suc r) (Suc re) ori"
      using True "1.prems"(1,2) by (simp_all add: slice_Cons x_def y_def)
    have xy: "arr_get ori l = Some x" "arr_get ori r = Some y"
      using True "1.prems"(1,2) by (simp_all add: arr_simps x_def y_def)
    show ?thesis
    proof (cases "cmp x y < 0")
      case c: True
      define tmp' where "tmp' = tmp[tp := x]"
      note p = put_seq [OF tp tmp'_def]
      have st: "merge_loop cmp ori tmp l le r re tp = merge_loop cmp ori tmp' (Suc l) le r re (Suc tp)"
        using True c xy tp by (subst merge_loop.simps) (simp add: arr_simps tmp'_def)
      have d: "drop (tp + (Suc le - l) + (Suc re - r)) tmp' = drop (tp + (Suc le - l) + (Suc re - r)) tmp"
        unfolding tmp'_def by (rule drop_update_cancel) (use True in linarith)
      have "Suc tp + (Suc le - Suc l) + (Suc re - r) = tp + (Suc le - l) + (Suc re - r)" using True by linarith
      moreover have "Suc (Suc (tp + le + re) - (l + r)) = Suc (Suc (tp + le + re)) - (l + r)"
        by (rule Suc_diff_le [symmetric]) (use True in linarith)
      ultimately show ?thesis
        unfolding st using "1.IH"(1) [OF True xy c, of tmp'] "1.prems" True tp p(1,3) d c
        by (simp add: arr_simps tmp'_def [symmetric] sl)
    next
      case c: False
      define tmp' where "tmp' = tmp[tp := y]"
      note p = put_seq [OF tp tmp'_def]
      have st: "merge_loop cmp ori tmp l le r re tp = merge_loop cmp ori tmp' l le (Suc r) re (Suc tp)"
        using True c xy tp by (subst merge_loop.simps) (simp add: arr_simps tmp'_def)
      have d: "drop (tp + (Suc le - l) + (Suc re - r)) tmp' = drop (tp + (Suc le - l) + (Suc re - r)) tmp"
        unfolding tmp'_def by (rule drop_update_cancel) (use True in linarith)
      have "Suc tp + (Suc le - l) + (Suc re - Suc r) = tp + (Suc le - l) + (Suc re - r)" using True by linarith
      moreover have "Suc (Suc (tp + le + re) - (l + r)) = Suc (Suc (tp + le + re)) - (l + r)"
        by (rule Suc_diff_le [symmetric]) (use True in linarith)
      ultimately show ?thesis
        unfolding st using "1.IH"(2) [OF True xy c, of tmp'] "1.prems" True tp p(1,3) d c
        by (simp add: arr_simps tmp'_def [symmetric] sl)
    qed
  qed
qed

lemma back_loop_eq:
  assumes "n \<le> Suc re" "re < length ori" "length tmp = length ori"
  shows "back_loop n ori tmp re = Some (take (Suc re - n) ori @ slice (Suc re - n) (Suc re) tmp @ drop (Suc re) ori)"
  using assms
proof (induction n arbitrary: ori re)
  case 0
  then show ?case by (simp add: back_loop.simps)
next
  case (Suc n)
  define ori' where "ori' = ori[re := tmp ! re]"
  have step: "back_loop (Suc n) ori tmp re = back_loop n ori' tmp (re - 1)"
    using Suc.prems by (simp add: back_loop.simps arr_simps ori'_def)
  show ?case
  proof (cases re)
    case 0
    then have "n = 0" using Suc.prems by simp
    then show ?thesis
      using step 0 Suc.prems by (cases ori; cases tmp) (auto simp: back_loop.simps ori'_def slice_def)
  next
    case (Suc k)
    have "back_loop n ori' tmp k =
        Some (take (Suc k - n) ori' @ slice (Suc k - n) (Suc k) tmp @ drop (Suc k) ori')"
      using Suc.IH [of k ori'] Suc.prems Suc by (simp add: ori'_def)
    moreover have "take (Suc k - n) ori' = take (Suc k - n) ori" using Suc by (simp add: ori'_def)
    moreover have "drop (Suc k) ori' = tmp ! re # drop (Suc re) ori"
      using Suc Suc.prems by (simp add: ori'_def drop_update_swap Cons_nth_drop_Suc [symmetric])
    moreover have "slice (Suc k - n) (Suc re) tmp = slice (Suc k - n) re tmp @ slice re (Suc re) tmp"
      by (rule slice_append [symmetric]) (use Suc in simp_all)
    moreover have "slice re (Suc re) tmp = [tmp ! re]" using Suc.prems by (simp add: slice_Cons)
    ultimately show ?thesis using step Suc by simp
  qed
qed

lemma slice_put: "l \<le> length xs \<Longrightarrow> slice l (l + length ys) (take l xs @ ys @ zs) = ys"
  by (simp add: slice_def)

lemma vector_merge_eq:
  assumes "lpos < rpos" "rpos \<le> rightend" "rightend < length ori" "length tmp = length ori"
  shows "\<exists>tmp'. length tmp' = length ori \<and> vector_merge cmp ori tmp lpos rpos rightend =
    Some (take lpos ori @ merge2 cmp (slice lpos rpos ori) (slice rpos (Suc rightend) ori) @ drop (Suc rightend) ori, tmp')"
proof -
  let ?m = "merge2 cmp (slice lpos rpos ori) (slice rpos (Suc rightend) ori)"
  have len: "length ?m = Suc rightend - lpos" using assms by simp
  define tmp3 where "tmp3 = take lpos tmp @ ?m @ drop (Suc rightend) tmp"
  have l3: "length tmp3 = length ori" using assms len by (simp add: tmp3_def)
  have rp: "Suc (rpos - 1) = rpos" "lpos + (rpos - lpos) + (Suc rightend - rpos) = Suc rightend"
    using assms by simp_all
  have loops: "do { (l', r', tp', tmp1) \<leftarrow> merge_loop cmp ori tmp lpos (rpos - 1) rpos rightend lpos;
        (tp2, tmp2) \<leftarrow> copy_loop ori tmp1 l' (rpos - 1) tp';
        (_, tmp3) \<leftarrow> copy_loop ori tmp2 r' rightend tp2;
        Some tmp3 } = Some tmp3"
    using merge_loops [of "rpos - 1" ori rightend lpos rpos lpos tmp cmp] assms unfolding rp tmp3_def
    by simp
  have sl: "slice lpos (Suc rightend) tmp3 = ?m"
    using slice_put [of lpos tmp ?m "drop (Suc rightend) tmp"] assms len by (simp add: tmp3_def)
  have "back_loop (rightend - lpos + 1) ori tmp3 rightend = Some (take lpos ori @ ?m @ drop (Suc rightend) ori)"
    using back_loop_eq [of "rightend - lpos + 1" rightend ori tmp3] assms l3 sl by simp
  then show ?thesis
    using loops l3 by (auto simp: vector_merge_def Let_def split: bind_splits intro!: exI [of _ tmp3])
qed

lemma slice_take: "r \<le> n \<Longrightarrow> slice l r (take n xs) = slice l r xs"
  by (simp add: slice_def drop_take min_def)

lemma take_slice_cong: "take n xs = take n ys \<Longrightarrow> r \<le> n \<Longrightarrow> slice l r xs = slice l r ys"
  by (metis slice_take)

lemma slice_drop: "n \<le> l \<Longrightarrow> slice l r xs = take (r - l) (drop (l - n) (drop n xs))"
  by (simp add: slice_def)

lemma drop_slice_cong: "drop n xs = drop n ys \<Longrightarrow> n \<le> l \<Longrightarrow> slice l r xs = slice l r ys"
  by (simp add: slice_drop)

text \<open>
  What the sorts and the search need of a comparison function: the sign says which of two elements is
  the smaller one, and being not greater is transitive. The order is on the objects, so two different
  elements may be equal.
\<close>

locale comparison =
  fixes cmp :: v_cmp
  assumes swap: "cmp x y < 0 \<longleftrightarrow> 0 < cmp y x"
    and trans: "cmp x y \<le> 0 \<Longrightarrow> cmp y z \<le> 0 \<Longrightarrow> cmp x z \<le> 0"
begin

definition ascending :: "vector_ele list \<Rightarrow> bool" where
  "ascending = sorted_wrt (\<lambda>x y. cmp x y \<le> 0)"

lemma total: "\<not> cmp x y < 0 \<Longrightarrow> cmp y x \<le> 0"
  using swap by fastforce

lemma eq_sym: "cmp x y = 0 \<longleftrightarrow> cmp y x = 0"
  using swap [of x y] swap [of y x] by linarith

lemma set_merge2: "set (merge2 f us vs) = set us \<union> set vs"
  using mset_merge2 [of f us vs] by (metis set_mset_mset set_mset_union)

lemma ascending_merge2:
  "ascending xs \<Longrightarrow> ascending ys \<Longrightarrow> ascending (merge2 cmp xs ys)"
proof (induction "length xs + length ys" arbitrary: xs ys rule: less_induct)
  case less
  show ?case
  proof (cases "xs = [] \<or> ys = []")
    case True
    then show ?thesis using less.prems by auto
  next
    case False
    then obtain x xs' y ys' where xy: "xs = x # xs'" "ys = y # ys'" by (meson neq_Nil_conv)
    note pr = less.prems [unfolded ascending_def xy sorted_wrt.simps]
    show ?thesis
    proof (cases "cmp x y < 0")
      case True
      have "ascending (merge2 cmp xs' ys)" using less.hyps [of xs' ys] less.prems xy by (simp add: ascending_def)
      moreover have "cmp x z \<le> 0" if "z \<in> set (merge2 cmp xs' ys)" for z
        using that pr True trans [of x y z] by (auto simp: set_merge2 xy)
      ultimately show ?thesis using True xy by (simp add: ascending_def)
    next
      case False
      have "ascending (merge2 cmp xs ys')" using less.hyps [of xs ys'] less.prems xy by (simp add: ascending_def)
      moreover have "cmp y z \<le> 0" if "z \<in> set (merge2 cmp xs ys')" for z
        using that pr total [OF False] trans [of y x z] by (auto simp: set_merge2 xy)
      ultimately show ?thesis using False xy by (simp add: ascending_def)
    qed
  qed
qed

lemma msort_sorts:
  assumes "left \<le> right" "right < length ori" "length tmp = length ori"
  shows "\<exists>xs tmp'. vector_msort cmp ori tmp left right = Some (take left ori @ xs @ drop (Suc right) ori, tmp')
    \<and> length tmp' = length ori \<and> ascending xs \<and> mset xs = mset (slice left (Suc right) ori)"
  using assms
proof (induction "right - left" arbitrary: ori tmp left right rule: less_induct)
  case less
  show ?case
  proof (cases "left < right")
    case False
    then have "left = right" using less.prems(1) by simp
    then show ?thesis using less.prems
      by (subst vector_msort.simps)
        (auto simp: slice_Cons ascending_def id_take_nth_drop [symmetric] intro!: exI [of _ "[ori ! right]"])
  next
    case True
    define c where "c = (left + right) div 2"
    have c: "left \<le> c" "c < right" using True by (simp_all add: c_def)
    obtain xs tmp1 where 1: "vector_msort cmp ori tmp left c = Some (take left ori @ xs @ drop (Suc c) ori, tmp1)"
        "length tmp1 = length ori" "ascending xs" "mset xs = mset (slice left (Suc c) ori)"
      using less.hyps [of c left ori tmp] c less.prems by (auto simp: diff_less_mono)
    define ori1 where "ori1 = take left ori @ xs @ drop (Suc c) ori"
    have lx: "length xs = Suc c - left" using 1(4) less.prems c by (metis length_slice mset_eq_length Suc_leI le_less_trans less_imp_le_nat)
    have l1: "length ori1 = length ori" "take (Suc c) ori1 = take left ori @ xs" "drop (Suc c) ori1 = drop (Suc c) ori"
      using lx c less.prems by (simp_all add: ori1_def)
    obtain ys tmp2 where 2: "vector_msort cmp ori1 tmp1 (Suc c) right =
          Some (take (Suc c) ori1 @ ys @ drop (Suc right) ori1, tmp2)"
        "length tmp2 = length ori" "ascending ys" "mset ys = mset (slice (Suc c) (Suc right) ori1)"
      using less.hyps [of right "Suc c" ori1 tmp1] c less.prems 1(2) l1 by (auto simp: diff_less_mono2)
    have dr: "drop (Suc right) ori1 = drop (Suc right) ori"
      using l1(3) c by (metis drop_drop le_add_diff_inverse2 Suc_leI less_imp_le_nat Suc_le_mono)
    have sy: "slice (Suc c) (Suc right) ori1 = slice (Suc c) (Suc right) ori"
      using drop_slice_cong [OF l1(3)] by simp
    have ly: "length ys = right - c" using 2(4) sy less.prems c by (metis length_slice mset_eq_length Suc_leI diff_Suc_Suc)
    define ori2 where "ori2 = take left ori @ xs @ ys @ drop (Suc right) ori"
    have o2: "ori2 = take (Suc c) ori1 @ ys @ drop (Suc right) ori1" using l1(2) dr by (simp add: ori2_def)
    have l2: "length ori2 = length ori" using lx ly c less.prems by (simp add: ori2_def)
    obtain tmp3 where 3: "length tmp3 = length ori" "vector_merge cmp ori2 tmp2 left (Suc c) right =
        Some (take left ori2 @ merge2 cmp (slice left (Suc c) ori2) (slice (Suc c) (Suc right) ori2)
          @ drop (Suc right) ori2, tmp3)"
      using vector_merge_eq [of left "Suc c" right ori2 tmp2 cmp] c less.prems l2 2(2) by auto
    have "slice left (Suc c) ori2 = xs" using slice_put [of left ori xs] lx c less.prems by (simp add: ori2_def)
    moreover have "slice (Suc c) (Suc right) ori2 = ys"
      using slice_put [of "Suc c" ori1 ys] ly l1(1) c less.prems by (simp add: o2)
    moreover have "take left ori2 = take left ori" "drop (Suc right) ori2 = drop (Suc right) ori"
      using lx ly c less.prems by (simp_all add: ori2_def)
    ultimately have res: "vector_msort cmp ori tmp left right =
        Some (take left ori @ merge2 cmp xs ys @ drop (Suc right) ori, tmp3)"
      using True 1(1) 2(1) 3(2) o2
      by (subst vector_msort.simps) (simp add: c_def [symmetric] ori1_def [symmetric] Let_def)
    have "mset (merge2 cmp xs ys) = mset (slice left (Suc c) ori @ slice (Suc c) (Suc right) ori)"
      using 1(4) 2(4) sy by simp
    also have "\<dots> = mset (slice left (Suc right) ori)" by (subst slice_append) (use c in simp_all)
    finally show ?thesis using res ascending_merge2 [OF 1(3) 2(3)] 3(1) by blast
  qed
qed

lemma merge_sort_sorts:
  assumes "0 < it_size it" "length (it_array it) = unat (it_size it)"
  shows "\<exists>xs. vector_iterator_merge_sort cmp True it = Some (it\<lparr>it_array := xs\<rparr>)
    \<and> ascending xs \<and> mset xs = mset (it_array it)"
proof -
  let ?n = "unat (it_size it)"
  have "0 < ?n" "?n < 256" using assms(1) unsigned_less [of "it_size it"] by (auto simp: unat_gt_0)
  then have "(?n + 2 ^ 32 - 1) mod 2 ^ 32 = ?n - 1" by (simp add: mod_if)
  moreover obtain xs tmp' where "vector_msort cmp (it_array it) (replicate ?n None) 0 (?n - 1) = Some (xs, tmp')"
      "ascending xs" "mset xs = mset (it_array it)"
    using msort_sorts [of 0 "?n - 1" "it_array it" "replicate ?n None"] assms(2) \<open>0 < ?n\<close> by (auto simp: slice_def)
  ultimately show ?thesis by (auto simp: vector_iterator_merge_sort_def)
qed

lemma binary_search_correct:
  assumes "ascending a" "0 \<le> low" "high < int (length a)"
  shows "\<exists>r. vector_iterator_binary_search cmp t a low high = Some r \<and>
    (r = - 1 \<and> (\<forall>i. low \<le> int i \<and> int i \<le> high \<longrightarrow> cmp t (a ! i) \<noteq> 0)
     \<or> low \<le> r \<and> r \<le> high \<and> cmp t (a ! nat r) = 0)"
  using assms
proof (induction "nat (high - low + 1)" arbitrary: low high rule: less_induct)
  case less
  show ?case
  proof (cases "low > high")
    case True
    then show ?thesis by (subst vector_iterator_binary_search.simps) auto
  next
    case False
    define m where "m = nat ((low + high) div 2)"
    have m: "(low + high) div 2 = int m" "low \<le> int m" "int m \<le> high" "m < length a"
      using False less.prems by (auto simp: m_def)
    have le: "cmp (a ! i) (a ! j) \<le> 0" if "i < j" "j < length a" for i j
      using less.prems(1) that unfolding ascending_def by (rule sorted_wrt_nth_less)
    have step: "vector_iterator_binary_search cmp t a low high =
        (if cmp t (a ! m) = 0 then Some (int m)
         else if cmp t (a ! m) < 0 then vector_iterator_binary_search cmp t a low (int m - 1)
         else vector_iterator_binary_search cmp t a (int m + 1) high)"
      using False m by (subst vector_iterator_binary_search.simps) (simp add: arr_simps)
    consider "cmp t (a ! m) = 0" | "cmp t (a ! m) < 0" | "0 < cmp t (a ! m)" by linarith
    then show ?thesis
    proof cases
      case 1
      then show ?thesis using step m by auto
    next
      case 2
      have out: "cmp t (a ! i) \<noteq> 0" if "int m \<le> int i" "int i \<le> high" for i
      proof
        assume "cmp t (a ! i) = 0"
        then have "cmp (a ! i) t \<le> 0" using eq_sym [of t "a ! i"] by simp
        moreover have "m < i" using that 2 \<open>cmp t (a ! i) = 0\<close> by (cases "m = i") auto
        then have "cmp (a ! m) (a ! i) \<le> 0" using le that less.prems(3) by simp
        ultimately have "cmp (a ! m) t \<le> 0" using trans by blast
        then show False using 2 swap by fastforce
      qed
      obtain r where r: "vector_iterator_binary_search cmp t a low (int m - 1) = Some r"
          "r = - 1 \<and> (\<forall>i. low \<le> int i \<and> int i \<le> int m - 1 \<longrightarrow> cmp t (a ! i) \<noteq> 0)
           \<or> low \<le> r \<and> r \<le> int m - 1 \<and> cmp t (a ! nat r) = 0"
        using less.hyps [of "int m - 1" low] less.prems m by auto
      have "\<forall>i. low \<le> int i \<and> int i \<le> high \<longrightarrow> cmp t (a ! i) \<noteq> 0"
        if "\<forall>i. low \<le> int i \<and> int i \<le> int m - 1 \<longrightarrow> cmp t (a ! i) \<noteq> 0"
        using that out by (metis linorder_not_le zle_diff1_eq)
      then show ?thesis using step 2 r m by auto
    next
      case 3
      have out: "cmp t (a ! i) \<noteq> 0" if "low \<le> int i" "int i \<le> int m" for i
      proof
        assume "cmp t (a ! i) = 0"
        then have "cmp t (a ! i) \<le> 0" by simp
        moreover have "i < m" using that 3 \<open>cmp t (a ! i) = 0\<close> by (cases "m = i") auto
        then have "cmp (a ! i) (a ! m) \<le> 0" using le m(4) by simp
        ultimately have "cmp t (a ! m) \<le> 0" using trans by blast
        then show False using 3 by simp
      qed
      obtain r where r: "vector_iterator_binary_search cmp t a (int m + 1) high = Some r"
          "r = - 1 \<and> (\<forall>i. int m + 1 \<le> int i \<and> int i \<le> high \<longrightarrow> cmp t (a ! i) \<noteq> 0)
           \<or> int m + 1 \<le> r \<and> r \<le> high \<and> cmp t (a ! nat r) = 0"
        using less.hyps [of high "int m + 1"] less.prems m by auto
      have "\<forall>i. low \<le> int i \<and> int i \<le> high \<longrightarrow> cmp t (a ! i) \<noteq> 0"
        if "\<forall>i. int m + 1 \<le> int i \<and> int i \<le> high \<longrightarrow> cmp t (a ! i) \<noteq> 0"
        using that out by (metis linorder_not_le zless_imp_add1_zle)
      then show ?thesis using step 3 r m by auto
    qed
  qed
qed

lemma search_in_ascending:
  assumes "ascending (it_array it)" "length (it_array it) = unat (it_size it)"
  shows "\<exists>r. search_in cmp it e = Some r \<and> (r = - 1 \<longleftrightarrow> (\<forall>x \<in> set (it_array it). cmp e x \<noteq> 0)) \<and> (0 \<le> r \<longleftrightarrow> r \<noteq> - 1)"
proof -
  obtain r where r: "search_in cmp it e = Some r"
      "r = - 1 \<and> (\<forall>i. 0 \<le> int i \<and> int i \<le> int (length (it_array it)) - 1 \<longrightarrow> cmp e (it_array it ! i) \<noteq> 0)
       \<or> 0 \<le> r \<and> r \<le> int (length (it_array it)) - 1 \<and> cmp e (it_array it ! nat r) = 0"
    using binary_search_correct [OF assms(1), of 0 "int (length (it_array it)) - 1" e] assms(2)
    by (auto simp: search_in_def)
  from r(2) show ?thesis
  proof
    assume "r = - 1 \<and> (\<forall>i. 0 \<le> int i \<and> int i \<le> int (length (it_array it)) - 1 \<longrightarrow> cmp e (it_array it ! i) \<noteq> 0)"
    then show ?thesis using r(1) by (auto simp: in_set_conv_nth)
  next
    assume h: "0 \<le> r \<and> r \<le> int (length (it_array it)) - 1 \<and> cmp e (it_array it ! nat r) = 0"
    then have "it_array it ! nat r \<in> set (it_array it)" by (intro nth_mem) linarith
    then show ?thesis using r(1) h by (intro exI [of _ r]) auto
  qed
qed

end

section \<open>The insertion sort\<close>

abbreviation ptr_le :: "vector_ele \<Rightarrow> vector_ele \<Rightarrow> bool" where
  "ptr_le x y \<equiv> \<not> ptr_less y x"

lemma ptr_le_trans: "ptr_le x y \<Longrightarrow> ptr_le y z \<Longrightarrow> ptr_le x z"
  by (auto simp: ptr_less_def split: option.splits)

lemma ptr_less_le: "ptr_less x y \<Longrightarrow> ptr_le x y"
  by (auto simp: ptr_less_def split: option.splits)

lemma shift_loop_eq:
  assumes "j < length a"
  shows "\<exists>a' k. shift_loop a tmp j = Some (a', k) \<and> k \<le> j \<and> length a' = length a
    \<and> a'[k := tmp] = take k a @ tmp # slice k j a @ drop (Suc j) a
    \<and> (\<forall>x \<in> set (slice k j a). ptr_less tmp x) \<and> (k = 0 \<or> ptr_le (a ! (k - 1)) tmp)"
  using assms
proof (induction j arbitrary: a)
  case 0
  then show ?case by (cases a) auto
next
  case (Suc j)
  show ?case
  proof (cases "ptr_less tmp (a ! j)")
    case False
    have "a[Suc j := tmp] = take (Suc j) a @ tmp # drop (Suc (Suc j)) a"
      using Suc.prems by (rule upd_conv_take_nth_drop)
    then show ?thesis using Suc.prems False by (simp add: arr_simps)
  next
    case True
    define a1 where "a1 = a[Suc j := a ! j]"
    obtain a' k where k: "shift_loop a1 tmp j = Some (a', k)" "k \<le> j" "length a' = length a"
        "a'[k := tmp] = take k a1 @ tmp # slice k j a1 @ drop (Suc j) a1"
        "\<forall>x \<in> set (slice k j a1). ptr_less tmp x" "k = 0 \<or> ptr_le (a1 ! (k - 1)) tmp"
      using Suc.IH [of a1] Suc.prems by (auto simp: a1_def)
    have t: "take j a1 = take j a" by (simp add: a1_def)
    have "take k a1 = take k a" "slice k j a1 = slice k j a"
      using k(2) take_slice_cong [OF t] by (simp_all add: a1_def)
    moreover have "drop (Suc j) a1 = a ! j # drop (Suc (Suc j)) a"
      using Suc.prems by (simp add: a1_def Cons_nth_drop_Suc [symmetric])
    moreover have "slice k (Suc j) a = slice k j a @ [a ! j]"
      using slice_append [of k j "Suc j" a] k(2) Suc.prems by (simp add: slice_Cons)
    moreover have "k = 0 \<or> a1 ! (k - 1) = a ! (k - 1)" using k(2) by (auto simp: a1_def)
    moreover have "shift_loop a tmp (Suc j) = shift_loop a1 tmp j"
      using True Suc.prems by (simp add: arr_simps a1_def)
    ultimately show ?thesis using k True by (intro exI [of _ a'] exI [of _ k]) auto
  qed
qed

lemma isort_loop_ok:
  assumes "0 < p" "p \<le> length a" "sorted_wrt ptr_le (take p a)"
  shows "\<exists>a'. isort_loop a p (length a) = Some a' \<and> sorted_wrt ptr_le a' \<and> mset a' = mset a"
  using assms
proof (induction "length a - p" arbitrary: a p)
  case 0
  then show ?case by (subst isort_loop.simps) simp
next
  case (Suc d)
  have p: "p < length a" using Suc.hyps(2) by simp
  obtain a1 k where k: "shift_loop a (a ! p) p = Some (a1, k)" "k \<le> p" "length a1 = length a"
      "a1[k := a ! p] = take k a @ a ! p # slice k p a @ drop (Suc p) a"
      "\<forall>x \<in> set (slice k p a). ptr_less (a ! p) x" "k = 0 \<or> ptr_le (a ! (k - 1)) (a ! p)"
    using shift_loop_eq [OF p, of "a ! p"] by auto
  define a2 where "a2 = a1[k := a ! p]"
  have len: "length a2 = length a" using k(3) by (simp add: a2_def)
  have tk: "take p a = take k a @ slice k p a"
    using k(2) slice_append [of 0 k p a] by (simp add: slice_def)
  have a2: "take (Suc p) a2 = take k a @ a ! p # slice k p a"
    using k(2,4) p by (simp add: a2_def slice_def Suc_diff_le)
  have "a = take p a @ a ! p # drop (Suc p) a" using p by (rule id_take_nth_drop)
  then have ms: "mset a2 = mset a"
    using k(4) tk by (simp add: a2_def) (metis (no_types, lifting) add_mset_add_single append_assoc mset.simps(2) mset_append union_commute union_lcomm)
  have low: "ptr_le x (a ! p)" if "x \<in> set (take k a)" for x
  proof -
    from that obtain i where "i < length (take k a)" "take k a ! i = x" by (auto simp only: in_set_conv_nth)
    then have i: "i < k" "x = a ! i" by simp_all
    show ?thesis
    proof (cases "i = k - 1")
      case True
      then show ?thesis using i k(6) by auto
    next
      case False
      then have "i < k - 1" "k - 1 < p" using i k(2) by simp_all
      have "ptr_le (take p a ! i) (take p a ! (k - 1))"
        using \<open>i < k - 1\<close> \<open>k - 1 < p\<close> sorted_wrt_nth_less [OF Suc.prems(3), of i "k - 1"] p by simp
      then have "ptr_le x (a ! (k - 1))" using i \<open>k - 1 < p\<close> \<open>i < k - 1\<close> by simp
      moreover have "ptr_le (a ! (k - 1)) (a ! p)" using k(6) i by auto
      ultimately show ?thesis by (rule ptr_le_trans)
    qed
  qed
  have "sorted_wrt ptr_le (take (Suc p) a2)"
    using Suc.prems(3) low k(5) unfolding a2 tk by (auto simp: sorted_wrt_append dest: ptr_less_le)
  moreover have "d = length a2 - Suc p" using Suc.hyps(2) len by simp
  ultimately obtain a' where "isort_loop a2 (Suc p) (length a2) = Some a'" "sorted_wrt ptr_le a'" "mset a' = mset a2"
    using Suc.hyps(1) [of a2 "Suc p"] len p by auto
  moreover have "isort_loop a p (length a) = isort_loop a2 (Suc p) (length a)"
    using p k(1,2,3) by (subst isort_loop.simps) (simp add: arr_simps a2_def)
  ultimately show ?case using ms len by simp
qed

lemma insert_sort_ok:
  assumes "length (it_array it) = unat (it_size it)"
  shows "\<exists>a. vector_iterator_insert_sort it = Some (it\<lparr>it_array := a\<rparr>) \<and> sorted_wrt ptr_le a \<and> mset a = mset (it_array it)"
proof (cases "it_array it")
  case Nil
  then have "vector_isort (it_array it) (unat (it_size it)) = Some []"
    using assms by (simp add: vector_isort_def isort_loop.simps)
  then show ?thesis using Nil by (simp add: vector_iterator_insert_sort_def)
next
  case (Cons x xs)
  then have "sorted_wrt ptr_le (take 1 (it_array it))" by simp
  then show ?thesis
    using isort_loop_ok [of 1 "it_array it"] assms Cons
    by (auto simp: vector_iterator_insert_sort_def vector_isort_def)
qed

section \<open>The set operations\<close>

lemma add_room:
  assumes "vec_ok v" "\<forall>n. grow n" "depth v < capacity v"
  shows "\<exists>v'. vector_add grow (Some e) v = Some (True, v') \<and> vec_ok v' \<and> capacity v' = capacity v
    \<and> mset (somes (array v')) = add_mset e (mset (somes (array v)))"
  using add_spec [OF assms(1), of grow e] assms(2,3) by auto

lemma vec_depth: "vec_ok v \<Longrightarrow> depth v = size (mset (somes (array v)))"
  by (simp add: vec_ok_def)

lemma filter_loop_ok:
  assumes "it_array it = map Some xs" "length xs = unat (it_size it)" "idx it \<le> it_size it"
    and "vec_ok v" "\<forall>n. grow n" "depth v + (length xs - unat (idx it)) \<le> capacity v"
    and "\<And>x. x \<in> set xs \<Longrightarrow> keep (Some x) = Some (P x)"
  shows "\<exists>v'. filter_loop keep grow it (Some v) = Some (Some v') \<and> vec_ok v' \<and> capacity v' = capacity v
    \<and> mset (somes (array v')) = mset (somes (array v)) + mset (filter P (drop (unat (idx it)) xs))"
  using assms(1-6)
proof (induction "length xs - unat (idx it)" arbitrary: it v)
  case 0
  then have "idx it = it_size it" by (simp add: word_le_nat_alt word_unat_eq_iff)
  then show ?case using 0 by (subst filter_loop.simps) simp
next
  case (Suc d)
  let ?i = "unat (idx it)"
  have lt: "idx it < it_size it" "?i < length xs" using Suc.hyps(2) Suc.prems(2) by (simp_all add: word_less_nat_alt)
  then have ne: "idx it \<noteq> it_size it" by simp
  have ui: "unat (idx it + 1) = Suc ?i" using lt(1) by (rule unat_plus_one)
  let ?it = "it\<lparr>idx := idx it + 1\<rparr>"
  have le: "idx ?it \<le> it_size ?it" using lt(1) by (simp add: inc_le)
  have dr: "drop ?i xs = xs ! ?i # drop (Suc ?i) xs" using lt(2) by (simp add: Cons_nth_drop_Suc)
  have k: "keep (Some (xs ! ?i)) = Some (P (xs ! ?i))" using assms(7) lt(2) by simp
  have st: "vector_iterator_step it = Some (Some (Some (xs ! ?i)), ?it)"
    using lt Suc.prems(1) by (simp add: vector_iterator_step_def arr_simps)
  have dd: "d = length xs - unat (idx ?it)" using Suc.hyps(2) ui by simp
  show ?case
  proof (cases "P (xs ! ?i)")
    case True
    have "depth v < capacity v" using Suc.prems(6) lt(2) by simp
    then obtain v1 where v1: "vector_add grow (Some (xs ! ?i)) v = Some (True, v1)" "vec_ok v1" "capacity v1 = capacity v"
        "mset (somes (array v1)) = add_mset (xs ! ?i) (mset (somes (array v)))"
      using add_room [OF Suc.prems(4,5)] by blast
    have "depth v1 = Suc (depth v)" using v1(2,4) Suc.prems(4) by (simp add: vec_depth)
    then have room: "depth v1 + (length xs - unat (idx ?it)) \<le> capacity v1"
      using v1(3) Suc.prems(6) lt(2) ui by simp
    obtain v' where v': "filter_loop keep grow ?it (Some v1) = Some (Some v')" "vec_ok v'" "capacity v' = capacity v"
        "mset (somes (array v')) = mset (somes (array v1)) + mset (filter P (drop (Suc ?i) xs))"
      using Suc.hyps(1) [OF dd _ _ le v1(2) Suc.prems(5) room] Suc.prems(1,2) ui v1(3) by auto
    have "filter_loop keep grow it (Some v) = filter_loop keep grow ?it (Some v1)"
      using ne st k True v1(1) by (subst filter_loop.simps) (simp add: vector_add_opt_def)
    then show ?thesis using v' v1(4) dr True by simp
  next
    case False
    have room: "depth v + (length xs - unat (idx ?it)) \<le> capacity v" using Suc.prems(6) ui by simp
    obtain v' where v': "filter_loop keep grow ?it (Some v) = Some (Some v')" "vec_ok v'" "capacity v' = capacity v"
        "mset (somes (array v')) = mset (somes (array v)) + mset (filter P (drop (Suc ?i) xs))"
      using Suc.hyps(1) [OF dd _ _ le Suc.prems(4,5) room] Suc.prems(1,2) ui by auto
    have "filter_loop keep grow it (Some v) = filter_loop keep grow ?it (Some v)"
      using ne st k False by (subst filter_loop.simps) simp
    then show ?thesis using v' dr False by simp
  qed
qed

lemma update_by_iterator_ok:
  assumes "vec_ok v" "mset xs = mset (somes (array v))" "it_array it = map Some xs" "unat (it_size it) = depth v"
  shows "\<exists>v'. vector_update_by_iterator it v = Some v' \<and> vec_ok v' \<and> mset (somes (array v')) = mset (somes (array v))"
proof -
  have "length xs = depth v" using assms(1,2) by (metis size_mset vec_depth)
  moreover have "depth v \<le> length (array v)" using assms(1) length_somes by (auto simp: vec_ok_def)
  ultimately show ?thesis using assms by (auto simp: vector_update_by_iterator_def vec_ok_def)
qed

text \<open>
  When is a sort by \<open>sort_method\<close> a sort by the comparison function: the merge sort always, the
  insertion sort only if the order of the addresses is the order of the objects.
\<close>

definition sorts_by :: "v_cmp \<Rightarrow> vector \<Rightarrow> vector \<Rightarrow> bool" where
  "sorts_by cmp va vb \<longleftrightarrow> depth va \<ge> 20 \<or> depth vb \<ge> 20 \<or>
     (\<forall>v \<in> {va, vb}. \<forall>x \<in> set (somes (array v)). \<forall>y \<in> set (somes (array v)). x \<le> y \<longrightarrow> cmp (Some x) (Some y) \<le> 0)"

definition heap_ok :: "set_op_heap \<Rightarrow> bool" where
  "heap_ok hp \<longleftrightarrow> it_alloc hp \<and> tmp_alloc hp \<and> vec_alloc hp \<and> (\<forall>n. grow_alloc hp n)"

text \<open>What a successful \<open>vector_set_op_prepare\<close> leaves: an iterator over a sorted permutation.\<close>

definition sorted_iterator :: "v_cmp \<Rightarrow> vector \<Rightarrow> vector_iterator \<Rightarrow> nat list \<Rightarrow> bool" where
  "sorted_iterator cmp v it xs \<longleftrightarrow> it = \<lparr>idx = 0, it_size = of_nat (depth v), it_array = map Some xs\<rparr>
     \<and> mset xs = mset (somes (array v)) \<and> sorted_wrt (\<lambda>x y. cmp x y \<le> 0) (map Some xs)"

lemma map_Some_mset: "mset ys = mset (map Some xs) \<Longrightarrow> \<exists>zs. ys = map Some zs \<and> mset zs = mset xs"
proof -
  assume m: "mset ys = mset (map Some xs)"
  then have "\<forall>y \<in> set ys. y \<noteq> None" by (metis mset_eq_setD imageE list.set_map option.distinct(1))
  then have y: "ys = map Some (map the ys)" by (induction ys) auto
  have "mset (map the ys) = image_mset the (mset ys)" by simp
  also have "\<dots> = mset xs" unfolding m by (simp add: multiset.map_comp comp_def)
  finally show ?thesis using y by blast
qed

abbreviation fresh_vector :: "nat \<Rightarrow> vector" where
  "fresh_vector n \<equiv> \<lparr>depth = 0, capacity = n, array = [None]\<rparr>"

lemma fresh_ok: "vec_ok (fresh_vector n)"
  by (simp add: vec_ok_def)

definition op_size :: "vector_set_op_type \<Rightarrow> nat \<Rightarrow> nat \<Rightarrow> nat" where
  "op_size op m n = (case op of VECTOR_UNION \<Rightarrow> m + n | VECTOR_INTERSECTION \<Rightarrow> min m n | VECTOR_DIFFERENCE \<Rightarrow> m)"

lemma sorted_iterator_size:
  assumes "sorted_iterator cmp v it xs" "vec_ok v" "depth v < 256"
  shows "unat (it_size it) = depth v" "length xs = depth v" "it_array it = map Some xs" "idx it = 0"
proof -
  have "length xs = size (mset (somes (array v)))" using assms(1) by (metis sorted_iterator_def size_mset)
  then show "length xs = depth v" using assms(2) by (simp add: vec_depth)
  show "unat (it_size it) = depth v" using assms(1,3) by (simp add: sorted_iterator_def unat_u8_of_nat)
qed (use assms(1) in \<open>simp_all add: sorted_iterator_def\<close>)

context comparison
begin

lemma sort_method_ok:
  assumes "vec_ok v" "0 < depth v" "depth v < 256" "tmp_alloc hp"
    and "small \<Longrightarrow> \<forall>x \<in> set (somes (array v)). \<forall>y \<in> set (somes (array v)). x \<le> y \<longrightarrow> cmp (Some x) (Some y) \<le> 0"
  shows "\<exists>it xs. sort_method cmp hp small \<lparr>idx = 0, it_size = of_nat (depth v), it_array = map Some (somes (array v))\<rparr>
    = Some it \<and> sorted_iterator cmp v it xs"
proof -
  let ?it = "\<lparr>idx = 0, it_size = of_nat (depth v), it_array = map Some (somes (array v))\<rparr>"
  have n: "unat (it_size ?it) = depth v" using assms(3) by (simp add: unat_u8_of_nat)
  then have len: "length (it_array ?it) = unat (it_size ?it)" using assms(1) by (simp add: vec_ok_def)
  have "\<exists>ys. sort_method cmp hp small ?it = Some (?it\<lparr>it_array := ys\<rparr>) \<and> ascending ys
      \<and> mset ys = mset (map Some (somes (array v)))"
  proof (cases small)
    case False
    have "0 < it_size ?it" using n assms(2) by (simp add: word_less_nat_alt)
    from merge_sort_sorts [OF this len] show ?thesis using False assms(4) by (simp add: sort_method_def)
  next
    case True
    obtain ys where ys: "vector_iterator_insert_sort ?it = Some (?it\<lparr>it_array := ys\<rparr>)" "sorted_wrt ptr_le ys"
        "mset ys = mset (map Some (somes (array v)))"
      using insert_sort_ok [OF len] by auto
    have "cmp x y \<le> 0" if h: "x \<in> set ys" "y \<in> set ys" "ptr_le x y" for x y
    proof -
      have "set ys = Some ` set (somes (array v))" using ys(3) by (metis mset_eq_setD list.set_map)
      then obtain a b where ab: "x = Some a" "y = Some b" "a \<in> set (somes (array v))" "b \<in> set (somes (array v))"
        using h(1,2) by auto
      then show ?thesis using ab h(3) assms(5) [OF True] by (auto simp: ptr_less_def not_less)
    qed
    then have "ascending ys" unfolding ascending_def by (rule sorted_wrt_mono_rel [OF _ ys(2)])
    then show ?thesis using True ys by (auto simp: sort_method_def)
  qed
  then obtain ys where ys: "sort_method cmp hp small ?it = Some (?it\<lparr>it_array := ys\<rparr>)" "ascending ys"
      "mset ys = mset (map Some (somes (array v)))" by blast
  obtain zs where zs: "ys = map Some zs" "mset zs = mset (somes (array v))" using map_Some_mset [OF ys(3)] by blast
  then have "sorted_iterator cmp v (?it\<lparr>it_array := ys\<rparr>) zs"
    using ys(2) unfolding sorted_iterator_def ascending_def by simp
  then show ?thesis using ys(1) by blast
qed

lemma prepare_ok:
  assumes "vec_ok va" "0 < depth va" "depth va < 256" "vec_ok vb" "0 < depth vb" "depth vb < 256"
    and "heap_ok hp" "sorts_by cmp va vb"
  shows "\<exists>ia ib va' vb' xs ys. vector_set_op_prepare cmp hp op va vb =
      Some (Some (fresh_vector (op_size op (depth va) (depth vb))), ia, ib, va', vb')
    \<and> sorted_iterator cmp va ia xs \<and> sorted_iterator cmp vb ib ys
    \<and> vec_ok va' \<and> mset (somes (array va')) = mset (somes (array va))
    \<and> vec_ok vb' \<and> mset (somes (array vb')) = mset (somes (array vb))"
proof -
  let ?small = "depth va < 20 \<and> depth vb < 20"
  let ?i = "\<lambda>v. \<lparr>idx = 0, it_size = of_nat (depth v), it_array = map Some (somes (array v))\<rparr>"
  note hp = assms(7) [unfolded heap_ok_def]
  have ord: "\<forall>x \<in> set (somes (array v)). \<forall>y \<in> set (somes (array v)). x \<le> y \<longrightarrow> cmp (Some x) (Some y) \<le> 0"
    if "?small" "v = va \<or> v = vb" for v
    using assms(8) that by (auto simp: sorts_by_def)
  obtain ia xs where a: "sort_method cmp hp ?small (?i va) = Some ia" "sorted_iterator cmp va ia xs"
    using sort_method_ok [OF assms(1-3), of hp ?small] ord hp by blast
  obtain ib ys where b: "sort_method cmp hp ?small (?i vb) = Some ib" "sorted_iterator cmp vb ib ys"
    using sort_method_ok [OF assms(4-6), of hp ?small] ord hp by blast
  note sa = sorted_iterator_size [OF a(2) assms(1,3)] and sb = sorted_iterator_size [OF b(2) assms(4,6)]
  have ma: "mset xs = mset (somes (array va))" "mset ys = mset (somes (array vb))"
    using a(2) b(2) by (simp_all add: sorted_iterator_def)
  obtain va' where va': "vector_update_by_iterator ia va = Some va'" "vec_ok va'"
      "mset (somes (array va')) = mset (somes (array va))"
    using update_by_iterator_ok [OF assms(1) ma(1) sa(3,1)] by blast
  obtain vb' where vb': "vector_update_by_iterator ib vb = Some vb'" "vec_ok vb'"
      "mset (somes (array vb')) = mset (somes (array vb))"
    using update_by_iterator_ok [OF assms(4) ma(2) sb(3,1)] by blast
  have n: "(case op of VECTOR_UNION \<Rightarrow> unat (it_size ia) + unat (it_size ib)
      | VECTOR_INTERSECTION \<Rightarrow> (if it_size ia < it_size ib then unat (it_size ia) else unat (it_size ib))
      | VECTOR_DIFFERENCE \<Rightarrow> unat (it_size ia)) = op_size op (depth va) (depth vb)"
    using sa(1) sb(1) by (simp add: op_size_def word_less_nat_alt split: vector_set_op_type.split)
  have u: "unat (of_nat (depth va) :: u8) = depth va" "unat (of_nat (depth vb) :: u8) = depth vb"
    using assms(3,6) by (simp_all add: unat_u8_of_nat)
  have "op_size op (depth va) (depth vb) \<noteq> 0"
    using assms(2,5) by (simp add: op_size_def split: vector_set_op_type.split)
  then have "vector_set_op_prepare cmp hp op va vb =
      Some (Some (fresh_vector (op_size op (depth va) (depth vb))), ia, ib, va', vb')"
    using hp iterator_create_ok [OF assms(1)] iterator_create_ok [OF assms(4)] a(1) b(1) va'(1) vb'(1)
    unfolding vector_set_op_prepare_def Let_def by (simp add: u n vector_create_def)
  then show ?thesis using a(2) b(2) va'(2,3) vb'(2,3) by blast
qed

end

context comparison
begin

lemma sorted_iterator_search:
  assumes "sorted_iterator cmp v it xs" "vec_ok v" "depth v < 256"
  shows "\<exists>r. search_in cmp it e = Some r
    \<and> (r = - 1 \<longleftrightarrow> (\<forall>x \<in> set (somes (array v)). cmp e (Some x) \<noteq> 0)) \<and> (0 \<le> r \<longleftrightarrow> r \<noteq> - 1)"
proof -
  have "set xs = set (somes (array v))" using assms(1) by (metis sorted_iterator_def mset_eq_setD)
  moreover have "ascending (it_array it)" "length (it_array it) = unat (it_size it)"
    using assms(1) sorted_iterator_size [OF assms] by (simp_all add: sorted_iterator_def ascending_def)
  ultimately show ?thesis
    using search_in_ascending [of it e] sorted_iterator_size(3) [OF assms] by auto
qed

lemma search_hit:
  assumes "sorted_iterator cmp v it xs" "vec_ok v" "depth v < 256"
  shows "map_option (\<lambda>r. r = - 1) (search_in cmp it e) = Some (\<forall>x \<in> set (somes (array v)). cmp e (Some x) \<noteq> 0)"
    and "map_option (\<lambda>r. 0 \<le> r) (search_in cmp it e) = Some (\<exists>x \<in> set (somes (array v)). cmp e (Some x) = 0)"
  using sorted_iterator_search [OF assms, of e] by auto

text \<open>One of the loops, over an iterator that has not been stepped.\<close>

lemma filter_sorted:
  assumes "sorted_iterator cmp v it xs" "vec_ok v" "depth v < 256"
    and "vec_ok vc" "\<forall>n. grow n" "depth vc + depth v \<le> capacity vc"
    and "\<And>x. keep (Some x) = Some (P x)"
  shows "\<exists>vc'. filter_loop keep grow it (Some vc) = Some (Some vc') \<and> vec_ok vc' \<and> capacity vc' = capacity vc
    \<and> mset (somes (array vc')) = mset (somes (array vc)) + filter_mset P (mset (somes (array v)))"
proof -
  note s = sorted_iterator_size [OF assms(1-3)]
  have "mset (filter P xs) = filter_mset P (mset (somes (array v)))"
    using assms(1) by (simp add: sorted_iterator_def mset_filter)
  then show ?thesis
    using filter_loop_ok [of it xs vc grow keep P] s assms(4-7) by simp
qed

lemma filter_absent:
  assumes "sorted_iterator cmp v it xs" "vec_ok v" "depth v < 256"
    and "sorted_iterator cmp w iw ws" "vec_ok w" "depth w < 256"
    and "vec_ok vc" "\<forall>n. grow n" "depth vc + depth v \<le> capacity vc"
  shows "\<exists>vc'. filter_loop (\<lambda>e. map_option (\<lambda>r. r = - 1) (search_in cmp iw e)) grow it (Some vc) = Some (Some vc')
    \<and> vec_ok vc' \<and> mset (somes (array vc')) = mset (somes (array vc)) +
        filter_mset (\<lambda>x. \<forall>y \<in> set (somes (array w)). cmp (Some x) (Some y) \<noteq> 0) (mset (somes (array v)))"
  using filter_sorted [OF assms(1-3,7-9), of "\<lambda>e. map_option (\<lambda>r. r = - 1) (search_in cmp iw e)"
      "\<lambda>x. \<forall>y \<in> set (somes (array w)). cmp (Some x) (Some y) \<noteq> 0", OF search_hit(1) [OF assms(4-6)]] by blast

lemma filter_present:
  assumes "sorted_iterator cmp v it xs" "vec_ok v" "depth v < 256"
    and "sorted_iterator cmp w iw ws" "vec_ok w" "depth w < 256"
    and "vec_ok vc" "\<forall>n. grow n" "depth vc + depth v \<le> capacity vc"
  shows "\<exists>vc'. filter_loop (\<lambda>e. map_option (\<lambda>r. r \<ge> 0) (search_in cmp iw e)) grow it (Some vc) = Some (Some vc')
    \<and> vec_ok vc' \<and> mset (somes (array vc')) = mset (somes (array vc)) +
        filter_mset (\<lambda>x. \<exists>y \<in> set (somes (array w)). cmp (Some x) (Some y) = 0) (mset (somes (array v)))"
  using filter_sorted [OF assms(1-3,7-9), of "\<lambda>e. map_option (\<lambda>r. r \<ge> 0) (search_in cmp iw e)"
      "\<lambda>x. \<exists>y \<in> set (somes (array w)). cmp (Some x) (Some y) = 0", OF search_hit(2) [OF assms(4-6)]] by blast

text \<open>The hypotheses of the three operations.\<close>

definition operands :: "set_op_heap \<Rightarrow> vector \<Rightarrow> vector \<Rightarrow> bool" where
  "operands hp va vb \<longleftrightarrow> vec_ok va \<and> 0 < depth va \<and> depth va < 256 \<and> vec_ok vb \<and> 0 < depth vb \<and> depth vb < 256
     \<and> heap_ok hp \<and> sorts_by cmp va vb"

lemma operandsD:
  assumes "operands hp va vb"
  shows "vec_ok va" "0 < depth va" "depth va < 256" "vec_ok vb" "0 < depth vb" "depth vb < 256"
    "heap_ok hp" "sorts_by cmp va vb" "\<forall>n. grow_alloc hp n"
  using assms by (simp_all add: operands_def heap_ok_def)

abbreviation unchanged :: "vector \<Rightarrow> vector \<Rightarrow> bool" where
  "unchanged v v' \<equiv> vec_ok v' \<and> mset (somes (array v')) = mset (somes (array v))"

lemma union_ok:
  assumes "operands hp va vb"
  shows "\<exists>vc va' vb'. vector_union cmp hp va vb = Some (Some vc, va', vb') \<and> vec_ok vc
    \<and> mset (somes (array vc)) = mset (somes (array va)) +
        filter_mset (\<lambda>y. \<forall>x \<in> set (somes (array va)). cmp (Some y) (Some x) \<noteq> 0) (mset (somes (array vb)))
    \<and> unchanged va va' \<and> unchanged vb vb'"
proof -
  note o = operandsD [OF assms]
  let ?n = "depth va + depth vb"
  obtain ia ib va' vb' xs ys where p: "vector_set_op_prepare cmp hp VECTOR_UNION va vb =
        Some (Some (fresh_vector ?n), ia, ib, va', vb')"
      "sorted_iterator cmp va ia xs" "sorted_iterator cmp vb ib ys" "unchanged va va'" "unchanged vb vb'"
    using prepare_ok [OF o(1-8), of VECTOR_UNION] by (auto simp: op_size_def)
  obtain v1 where v1: "filter_loop (\<lambda>_. Some True) (grow_alloc hp) ia (Some (fresh_vector ?n)) = Some (Some v1)"
      "vec_ok v1" "capacity v1 = ?n" "mset (somes (array v1)) = mset (somes (array va))"
    using filter_sorted [OF p(2) o(1,3) fresh_ok [of ?n] o(9), of "\<lambda>_. Some True" "\<lambda>_. True"] by auto
  have "depth v1 + depth vb \<le> capacity v1" using v1(3,4) vec_depth [OF v1(2)] vec_depth [OF o(1)] by simp
  then obtain v2 where v2: "filter_loop (\<lambda>e. map_option (\<lambda>r. r = - 1) (search_in cmp ia e)) (grow_alloc hp) ib (Some v1) = Some (Some v2)"
      "vec_ok v2" "mset (somes (array v2)) = mset (somes (array v1)) +
        filter_mset (\<lambda>y. \<forall>x \<in> set (somes (array va)). cmp (Some y) (Some x) \<noteq> 0) (mset (somes (array vb)))"
    using filter_absent [OF p(3) o(4,6) p(2) o(1,3) v1(2) o(9)] by blast
  show ?thesis using p(1,4,5) v1(1,4) v2 by (auto simp: vector_union_def)
qed

lemma difference_ok:
  assumes "operands hp va vb"
  shows "\<exists>vc va' vb'. vector_difference cmp hp va vb = Some (Some vc, va', vb') \<and> vec_ok vc
    \<and> mset (somes (array vc)) =
        filter_mset (\<lambda>x. \<forall>y \<in> set (somes (array vb)). cmp (Some x) (Some y) \<noteq> 0) (mset (somes (array va)))
    \<and> unchanged va va' \<and> unchanged vb vb'"
proof -
  note o = operandsD [OF assms]
  obtain ia ib va' vb' xs ys where p: "vector_set_op_prepare cmp hp VECTOR_DIFFERENCE va vb =
        Some (Some (fresh_vector (depth va)), ia, ib, va', vb')"
      "sorted_iterator cmp va ia xs" "sorted_iterator cmp vb ib ys" "unchanged va va'" "unchanged vb vb'"
    using prepare_ok [OF o(1-8), of VECTOR_DIFFERENCE] by (auto simp: op_size_def)
  have "depth (fresh_vector (depth va)) + depth va \<le> capacity (fresh_vector (depth va))" by simp
  then obtain v1 where "filter_loop (\<lambda>e. map_option (\<lambda>r. r = - 1) (search_in cmp ib e)) (grow_alloc hp) ia
        (Some (fresh_vector (depth va))) = Some (Some v1)"
      "vec_ok v1" "mset (somes (array v1)) = mset (somes (array (fresh_vector (depth va)))) +
        filter_mset (\<lambda>x. \<forall>y \<in> set (somes (array vb)). cmp (Some x) (Some y) \<noteq> 0) (mset (somes (array va)))"
    using filter_absent [OF p(2) o(1,3) p(3) o(4,6) fresh_ok o(9)] by blast
  then show ?thesis using p(1,4,5) by (auto simp: vector_difference_def)
qed

lemma intersection_ok:
  assumes "operands hp va vb"
  shows "\<exists>vc va' vb'. vector_intersection cmp hp va vb = Some (Some vc, va', vb') \<and> vec_ok vc
    \<and> mset (somes (array vc)) =
        (if depth va \<le> depth vb
         then filter_mset (\<lambda>x. \<exists>y \<in> set (somes (array vb)). cmp (Some x) (Some y) = 0) (mset (somes (array va)))
         else filter_mset (\<lambda>y. \<exists>x \<in> set (somes (array va)). cmp (Some y) (Some x) = 0) (mset (somes (array vb))))
    \<and> unchanged va va' \<and> unchanged vb vb'"
proof -
  note o = operandsD [OF assms]
  let ?f = "fresh_vector (min (depth va) (depth vb))"
  obtain ia ib va' vb' xs ys where p: "vector_set_op_prepare cmp hp VECTOR_INTERSECTION va vb =
        Some (Some ?f, ia, ib, va', vb')"
      "sorted_iterator cmp va ia xs" "sorted_iterator cmp vb ib ys" "unchanged va va'" "unchanged vb vb'"
    using prepare_ok [OF o(1-8), of VECTOR_INTERSECTION] by (auto simp: op_size_def)
  have sz: "it_size ia \<le> it_size ib \<longleftrightarrow> depth va \<le> depth vb"
    using sorted_iterator_size(1) [OF p(2) o(1,3)] sorted_iterator_size(1) [OF p(3) o(4,6)]
    by (simp add: word_le_nat_alt)
  show ?thesis
  proof (cases "depth va \<le> depth vb")
    case True
    then have "depth ?f + depth va \<le> capacity ?f" by simp
    then obtain v1 where "filter_loop (\<lambda>e. map_option (\<lambda>r. r \<ge> 0) (search_in cmp ib e)) (grow_alloc hp) ia (Some ?f) = Some (Some v1)"
        "vec_ok v1" "mset (somes (array v1)) = mset (somes (array ?f)) +
          filter_mset (\<lambda>x. \<exists>y \<in> set (somes (array vb)). cmp (Some x) (Some y) = 0) (mset (somes (array va)))"
      using filter_present [OF p(2) o(1,3) p(3) o(4,6) fresh_ok o(9)] by blast
    then show ?thesis using p(1,4,5) sz True by (auto simp: vector_intersection_def)
  next
    case False
    then have "depth ?f + depth vb \<le> capacity ?f" by simp
    then obtain v1 where "filter_loop (\<lambda>e. map_option (\<lambda>r. r \<ge> 0) (search_in cmp ia e)) (grow_alloc hp) ib (Some ?f) = Some (Some v1)"
        "vec_ok v1" "mset (somes (array v1)) = mset (somes (array ?f)) +
          filter_mset (\<lambda>y. \<exists>x \<in> set (somes (array va)). cmp (Some y) (Some x) = 0) (mset (somes (array vb)))"
      using filter_present [OF p(3) o(4,6) p(2) o(1,3) fresh_ok o(9)] by blast
    then show ?thesis using p(1,4,5) sz False by (auto simp: vector_intersection_def)
  qed
qed

end

text \<open>
  The comparison function of \<open>vector_set_test\<close>, with the memory it reads the objects from.
\<close>

definition test_cmp :: "(vector_ele \<Rightarrow> u32) \<Rightarrow> v_cmp" where
  "test_cmp mem p_a p_b = (if mem p_a < mem p_b then - 1 else if mem p_a > mem p_b then 1 else 0)"

interpretation test: comparison "test_cmp mem" for mem
  by unfold_locales (auto simp: test_cmp_def split: if_splits)

section \<open>The vector refines a bag of bounded size\<close>

text \<open>
  The calls of a client: an \<open>Add\<close> and a \<open>Remove\<close> carry what the heap would provide. The abstract state
  is the bag, its capacity, and whether the heap has provided every array so far.
\<close>

datatype vec_op = Add "nat \<Rightarrow> bool" nat | Remove "nat \<Rightarrow> bool" nat | Search "nat \<Rightarrow> bool" | Mapping | Depth

datatype vec_ret = Done bool | Found vector_ele | Visited "nat list" | Count nat

type_synonym bag = "nat multiset \<times> nat \<times> bool"

fun vec_exec :: "vec_op \<Rightarrow> vector \<Rightarrow> (vec_ret \<times> vector) option" where
  "vec_exec (Add grow e) v = map_option (\<lambda>(r, v'). (Done r, v')) (vector_add grow (Some e) v)"
| "vec_exec (Remove grow e) v = map_option (\<lambda>(r, v'). (Done r, v')) (vector_remove grow (Some e) v)"
| "vec_exec (Search P) v = Some (Found (vector_search (Some P) v), v)"
| "vec_exec Mapping v = Some (Visited (snd (vector_mapping True v)), v)"
| "vec_exec Depth v = Some (Count (vector_depth (Some v)), v)"

definition vec_rel :: "vector \<Rightarrow> bag \<Rightarrow> bool" where
  "vec_rel v b \<longleftrightarrow> (case b of (M, cap, fine) \<Rightarrow>
     vec_ok v \<and> M = mset (somes (array v)) \<and> capacity v = cap \<and> (fine \<longrightarrow> vec_tight v))"

fun vec_spec :: "vec_op \<Rightarrow> bag \<Rightarrow> vec_ret \<Rightarrow> bag \<Rightarrow> bool" where
  "vec_spec (Add grow e) (M, cap, fine) r b \<longleftrightarrow>
     (if r = Done True then size M < cap \<and> b = (add_mset e M, cap, fine \<and> (\<forall>n. grow n))
      else r = Done False \<and> (size M = cap \<or> (\<exists>n. \<not> grow n)) \<and> b = (M, cap, fine \<and> (\<forall>n. grow n)))"
| "vec_spec (Remove grow e) (M, cap, fine) r b \<longleftrightarrow>
     r = Done (e \<in># M) \<and> b = (M - {#e#}, cap, fine \<and> (\<forall>n. grow n))"
| "vec_spec (Search P) (M, cap, fine) r b \<longleftrightarrow> b = (M, cap, fine) \<and>
     (case r of Found (Some e) \<Rightarrow> e \<in># M \<and> P e | Found None \<Rightarrow> (\<forall>e \<in># M. \<not> P e) | _ \<Rightarrow> False)"
| "vec_spec Mapping (M, cap, fine) r b \<longleftrightarrow> b = (M, cap, fine) \<and> (\<exists>xs. r = Visited xs \<and> mset xs = M)"
| "vec_spec Depth (M, cap, fine) r b \<longleftrightarrow> b = (M, cap, fine) \<and> r = Count (size M)"

lemma find_SomeD: "find P xs = Some x \<Longrightarrow> x \<in> set xs \<and> P x"
  by (induction xs) (auto split: if_splits)

lemma search_ok: "vec_ok v \<Longrightarrow> vector_search (Some P) v = find P (somes (array v))"
  by (auto simp: vector_search_def vec_ok_def search_loop_eq)

lemma mapping_ok: "vec_ok v \<Longrightarrow> snd (vector_mapping True v) = somes (array v)"
  by (auto simp: vector_mapping_def vec_ok_def mapping_loop_eq)

lemma add_failed_tight:
  "vec_ok v \<Longrightarrow> vector_add grow (Some e) v = Some (False, v') \<Longrightarrow> \<forall>n. grow n \<Longrightarrow> v' = v"
  using add_spec [of v grow e] by (auto simp: vector_add_def vec_ok_def split: if_splits bind_splits)

lemma vec_step:
  assumes "vec_rel v b"
  shows "\<exists>r v' b'. vec_exec a v = Some (r, v') \<and> vec_rel v' b' \<and> vec_spec a b r b'"
proof -
  obtain M cap fine where b: "b = (M, cap, fine)" by (cases b)
  have rel: "vec_ok v" "M = mset (somes (array v))" "capacity v = cap" "fine \<longrightarrow> vec_tight v"
    using assms by (simp_all add: b vec_rel_def)
  show ?thesis
  proof (cases a)
    case (Add grow e)
    obtain r v' where s: "vector_add grow (Some e) v = Some (r, v')" "vec_ok v'" "capacity v' = capacity v"
      "mset (somes (array v')) = (if r then add_mset e (mset (somes (array v))) else mset (somes (array v)))"
      "r \<longleftrightarrow> depth v < capacity v \<and> (depth v < length (array v) \<or> grow (2 * length (array v)))"
      "vec_tight v \<longrightarrow> r \<longrightarrow> vec_tight v'"
      using add_spec [OF rel(1)] by blast
    have "vec_rel v' (if r then add_mset e M else M, cap, fine \<and> (\<forall>n. grow n))"
      using s rel add_failed_tight [OF rel(1), of grow e v'] by (cases r) (auto simp: vec_rel_def)
    moreover have "depth v = size M" "depth v \<le> capacity v" using rel by (simp_all add: vec_ok_def)
    then have "vec_spec a b (Done r) (if r then add_mset e M else M, cap, fine \<and> (\<forall>n. grow n))"
      using s(5) rel(3) by (cases r) (auto simp: Add b)
    ultimately show ?thesis using s(1) Add by fastforce
  next
    case (Remove grow e)
    obtain v' where s: "vector_remove grow (Some e) v = Some (e \<in> set (somes (array v)), v')" "vec_ok v'"
      "capacity v' = capacity v" "somes (array v') = remove1 e (somes (array v))"
      "vec_tight v \<longrightarrow> (\<forall>n. grow n) \<longrightarrow> vec_tight v'"
      using remove_spec [OF rel(1)] by blast
    have "vec_rel v' (M - {#e#}, cap, fine \<and> (\<forall>n. grow n))" using s rel by (simp add: vec_rel_def)
    moreover have "vec_spec a b (Done (e \<in> set (somes (array v)))) (M - {#e#}, cap, fine \<and> (\<forall>n. grow n))"
      using rel by (simp add: Remove b)
    ultimately show ?thesis using s(1) Remove by fastforce
  next
    case (Search P)
    have "vec_spec a b (Found (find P (somes (array v)))) b"
      using rel(2) find_SomeD [of P "somes (array v)"] find_None_iff [of P "somes (array v)"]
      by (cases "find P (somes (array v))") (auto simp: Search b)
    then show ?thesis using assms search_ok [OF rel(1), of P] Search
      by (intro exI [of _ "Found (find P (somes (array v)))"] exI [of _ v] exI [of _ b]) simp
  next
    case Mapping
    have "vec_spec a b (Visited (somes (array v))) b" using rel(2) by (simp add: Mapping b)
    then show ?thesis using assms mapping_ok [OF rel(1)] Mapping
      by (intro exI [of _ "Visited (somes (array v))"] exI [of _ v] exI [of _ b]) simp
  next
    case Depth
    have "vec_spec a b (Count (depth v)) b" using rel by (simp add: Depth b vec_ok_def)
    then show ?thesis using assms Depth
      by (intro exI [of _ "Count (depth v)"] exI [of _ v] exI [of _ b]) (simp add: vector_depth_def)
  qed
qed

interpretation vec: simulation vec_exec vec_rel "\<lambda>_ _. True" vec_spec
  by unfold_locales (use vec_step in blast)

lemma create_rel: "vector_create True True cap = Some v \<Longrightarrow> vec_rel v ({#}, cap, True)"
  by (auto simp: vector_create_def vec_rel_def vec_ok_def vec_tight_def intro: exI [of _ 0] split: if_splits)

lemma iterate_loop:
  assumes "i + length es = n" "es = drop i (take n xs)" "n < 256" "n \<le> length xs"
    and "it = \<lparr>idx = of_nat i, it_size = of_nat n, it_array = map Some xs\<rparr>"
  shows "run_ops (\<lambda>_ :: unit. vector_iterator_step) (replicate (length es) ()) it
    = Some (map (Some \<circ> Some) es, it\<lparr>idx := of_nat n\<rparr>)"
  using assms
proof (induction es arbitrary: i it)
  case Nil
  then show ?case by simp
next
  case (Cons e es)
  let ?it = "\<lparr>idx = of_nat (Suc i), it_size = of_nat n, it_array = map Some xs\<rparr>"
  have lt: "i < n" "i < 256" "i < length (take n xs)" using Cons.prems(1,3,4) by auto
  have "of_nat i \<noteq> (of_nat n :: u8)"
    using lt Cons.prems(3) by (metis less_irrefl unat_u8_of_nat)
  moreover have e: "take n xs ! i = e" "es = drop (Suc i) (take n xs)"
    using Cons.prems(2) lt(3) by (metis Cons_nth_drop_Suc list.inject)+
  moreover have "xs ! i = e" "i < length xs" using e(1) lt Cons.prems(4) by simp_all
  ultimately have "vector_iterator_step it = Some (Some (Some e), ?it)"
    using lt by (simp add: Cons.prems(5) vector_iterator_step_def arr_simps unat_u8_of_nat add.commute)
  moreover have "run_ops (\<lambda>_ :: unit. vector_iterator_step) (replicate (length es) ()) ?it
      = Some (map (Some \<circ> Some) es, ?it\<lparr>idx := of_nat n\<rparr>)"
    using Cons.IH [of "Suc i" ?it] Cons.prems e(2) by simp
  ultimately show ?case by (simp add: Cons.prems(5))
qed

section \<open>Properties\<close>

definition vec_bag :: "vector \<Rightarrow> nat multiset" where
  "vec_bag v = mset (somes (array v))"

definition occurs_in :: "v_cmp \<Rightarrow> nat \<Rightarrow> vector \<Rightarrow> bool" where
  "occurs_in cmp x v \<longleftrightarrow> (\<exists>y \<in> set (somes (array v)). cmp (Some x) (Some y) = 0)"

lemma run_ops_snoc: "run_ops ex (as @ [a]) s =
    (case run_ops ex as s of None \<Rightarrow> None
     | Some (rs, s1) \<Rightarrow> (case ex a s1 of None \<Rightarrow> None | Some (r, s2) \<Rightarrow> Some (rs @ [r], s2)))"
  by (induction as arbitrary: s) (auto split: bind_splits option.splits)



text \<open>C30: The merge sort of an iterator orders any non-empty iterator by the comparison function and keeps
  its elements.\<close>

theorem vector_merge_sort_sorts:
  assumes "comparison cmp" "0 < it_size it" "length (it_array it) = unat (it_size it)"
  shows "\<exists>xs. vector_iterator_merge_sort cmp True it = Some (it\<lparr>it_array := xs\<rparr>)
    \<and> sorted_wrt (\<lambda>x y. cmp x y \<le> 0) xs \<and> mset xs = mset (it_array it)"
  using comparison.merge_sort_sorts [OF assms] by (simp add: comparison.ascending_def [OF assms(1)])

lemma vector_merge_sort_sorts_witness:
  "\<exists>xs. vector_iterator_merge_sort (test_cmp (\<lambda>p. case p of None \<Rightarrow> 0 | Some a \<Rightarrow> of_nat (100 - a))) True
      \<lparr>idx = 0, it_size = 3, it_array = [Some 4, Some 9, Some 6]\<rparr> = Some \<lparr>idx = 0, it_size = 3, it_array = xs\<rparr>
    \<and> mset xs = {#Some 4, Some 9, Some 6#}"
  using vector_merge_sort_sorts [OF test.comparison_axioms, of "\<lparr>idx = 0, it_size = 3, it_array = [Some 4, Some 9, Some 6]\<rparr>"]
  by (auto simp: add_mset_commute)

text \<open>C31: The binary search of an iterator sorted by the comparison function stays inside the array, ends,
  and finds an element that compares equal exactly when there is one.\<close>

theorem vector_search_finds:
  assumes "comparison cmp" "sorted_wrt (\<lambda>x y. cmp x y \<le> 0) a"
  shows "\<exists>r. vector_iterator_binary_search cmp t a 0 (int (length a) - 1) = Some r
    \<and> (r = - 1 \<longleftrightarrow> (\<forall>x \<in> set a. cmp t x \<noteq> 0)) \<and> (r \<noteq> - 1 \<longrightarrow> 0 \<le> r \<and> nat r < length a \<and> cmp t (a ! nat r) = 0)"
proof -
  obtain r where r: "vector_iterator_binary_search cmp t a 0 (int (length a) - 1) = Some r"
      "r = - 1 \<and> (\<forall>i. 0 \<le> int i \<and> int i \<le> int (length a) - 1 \<longrightarrow> cmp t (a ! i) \<noteq> 0)
       \<or> 0 \<le> r \<and> r \<le> int (length a) - 1 \<and> cmp t (a ! nat r) = 0"
    using comparison.binary_search_correct [OF assms(1), of a 0 "int (length a) - 1" t] assms
    by (auto simp: comparison.ascending_def)
  from r(2) show ?thesis
  proof
    assume "r = - 1 \<and> (\<forall>i. 0 \<le> int i \<and> int i \<le> int (length a) - 1 \<longrightarrow> cmp t (a ! i) \<noteq> 0)"
    then show ?thesis using r(1) by (auto simp: in_set_conv_nth)
  next
    assume h: "0 \<le> r \<and> r \<le> int (length a) - 1 \<and> cmp t (a ! nat r) = 0"
    then have "nat r < length a" by linarith
    then show ?thesis using r(1) h nth_mem [of "nat r" a] by (intro exI [of _ r]) auto
  qed
qed

lemma vector_search_finds_witness:
  "\<exists>r. vector_iterator_binary_search (test_cmp (\<lambda>p. case p of None \<Rightarrow> 0 | Some a \<Rightarrow> of_nat a)) (Some 6)
      [Some 4, Some 6, Some 9] 0 2 = Some r \<and> r \<noteq> - 1"
  using vector_search_finds [OF test.comparison_axioms, of "\<lambda>p. case p of None \<Rightarrow> 0 | Some a \<Rightarrow> of_nat a"
      "[Some 4, Some 6, Some 9]" "Some 6"]
  by (auto simp: test_cmp_def)



text \<open>The insertion sort that small operands get orders the addresses, not the objects: with two
  elements whose objects are in the opposite order of their addresses, the intersection with one of
  them is empty.\<close>

theorem vector_small_set_misses:
  assumes "p < q" "mem (Some q) < mem (Some p)" "it_alloc hp" "vec_alloc hp"
  shows "\<exists>va vb. vector_intersection (test_cmp mem) hp \<lparr>depth = 2, capacity = 2, array = [Some p, Some q]\<rparr>
      \<lparr>depth = 1, capacity = 1, array = [Some q]\<rparr> = Some (Some (fresh_vector 1), va, vb)"
proof -
  have le: "\<not> (2 :: u8) \<le> 1" by (simp add: word_le_nat_alt)
  have "vector_isort [Some p, Some q] 2 = Some [Some p, Some q]"
    using assms(1) by (simp add: vector_isort_def isort_loop.simps numeral_2_eq_2 ptr_less_def arr_simps)
  moreover have "vector_isort [Some q] 1 = Some [Some q]"
    by (simp add: vector_isort_def isort_loop.simps)
  moreover have "vector_iterator_binary_search (test_cmp mem) (Some q) [Some p, Some q] 0 1 = Some (- 1)"
    using assms(2) by (simp add: vector_iterator_binary_search.simps arr_simps test_cmp_def)
  ultimately show ?thesis using assms(3,4)
    by (simp add: vector_intersection_def vector_set_op_prepare_def vector_iterator_create_def sort_method_def
        vector_iterator_insert_sort_def vector_create_def vector_update_by_iterator_def filter_loop.simps
        vector_iterator_step_def arr_simps search_in_def Let_def le)
qed

lemma vector_small_set_misses_witness:
  "\<exists>va vb. vector_intersection (test_cmp (\<lambda>p. if p = Some 16 then 9 else 5))
      \<lparr>it_alloc = True, tmp_alloc = True, vec_alloc = True, grow_alloc = \<lambda>_. True\<rparr>
      \<lparr>depth = 2, capacity = 2, array = [Some 16, Some 20]\<rparr> \<lparr>depth = 1, capacity = 1, array = [Some 20]\<rparr>
    = Some (Some (fresh_vector 1), va, vb)"
  by (rule vector_small_set_misses) simp_all

text \<open>Stepping an iterator of a vector of fewer than 256 elements returns them all, in the order of the
  array, then reports the end and starts again. The number of steps is the number of elements modulo 256.\<close>

theorem vector_iterate:
  assumes "vec_ok v"
  shows "\<exists>it. vector_iterator_create True v = Some it \<and>
    run_ops (\<lambda>_ :: unit. vector_iterator_step) (replicate (Suc (depth v mod 256)) ()) it =
      Some (map (Some \<circ> Some) (take (depth v mod 256) (somes (array v))) @ [None], it)"
proof -
  let ?n = "depth v mod 256" and ?xs = "somes (array v)"
  let ?it = "\<lparr>idx = 0, it_size = of_nat ?n, it_array = map Some ?xs\<rparr>"
  have ofn: "(of_nat (depth v) :: u8) = of_nat ?n"
    by (simp add: word_unat_eq_iff unat_of_nat take_bit_eq_mod)
  have len: "?n \<le> length ?xs" using assms by (simp add: vec_ok_def)
  have "run_ops (\<lambda>_ :: unit. vector_iterator_step) (replicate ?n ()) ?it
      = Some (map (Some \<circ> Some) (take ?n ?xs), ?it\<lparr>idx := of_nat ?n\<rparr>)"
    using iterate_loop [of 0 "take ?n ?xs" ?n ?xs ?it] len by simp
  moreover have "replicate (Suc ?n) () = replicate ?n () @ [()]" by (simp add: replicate_append_same)
  ultimately have "run_ops (\<lambda>_ :: unit. vector_iterator_step) (replicate (Suc ?n) ()) ?it
      = Some (map (Some \<circ> Some) (take ?n ?xs) @ [None], ?it)"
    by (simp only: run_ops_snoc) (simp add: vector_iterator_step_def)
  moreover have "vector_iterator_create True v = Some ?it"
    using iterator_create_ok [OF assms] ofn by simp
  ultimately show ?thesis by blast
qed

lemma vector_iterate_witness:
  "\<exists>it. vector_iterator_create True \<lparr>depth = 2, capacity = 4, array = [Some 8, None, Some 3]\<rparr> = Some it \<and>
    run_ops (\<lambda>_ :: unit. vector_iterator_step) [(), (), ()] it = Some ([Some (Some 8), Some (Some 3), None], it)"
  using vector_iterate [of "\<lparr>depth = 2, capacity = 4, array = [Some 8, None, Some 3]\<rparr>"]
  by (simp add: vec_ok_def numeral_2_eq_2 numeral_3_eq_3)

end
