(* ===== verification/Le_Codec.thy ===== *)
theory Le_Codec
  imports Prelude
begin

text \<open>
  The LTV data of LE Audio: the codec capability and configuration of
  \<open>src/app/ble_audio_lib/util/codec.c\<close>, the metadata of \<open>metadata.c\<close>, the format check of
  \<open>ltv_util.c\<close>, the tables of \<open>src/app/ble_audio_lib/bap/codec_qos.c\<close> and the least common
  multiple of \<open>calculate_util.c\<close>.

  A buffer is the list of bytes from the pointer to the end of the object it points into, so it may be
  longer than the length the function is given; reading past it is \<^const>\<open>None\<close>. A pointer that the
  code compares with \<open>NULL\<close> is an \<open>option\<close>. An output argument is passed in with its old content and
  returned. \<open>goto error\<close> is a non-zero \<open>err_idx\<close>.
\<close>

section \<open>Little-endian integers\<close>

definition le16 :: "u8 list \<Rightarrow> nat \<Rightarrow> u16 option" where
  "le16 p i = do {
     a \<leftarrow> arr_get p i; b \<leftarrow> arr_get p (i + 1);
     Some (ucast a + push_bit 8 (ucast b))
   }"

definition le24 :: "u8 list \<Rightarrow> nat \<Rightarrow> u32 option" where
  "le24 p i = do {
     a \<leftarrow> arr_get p i; b \<leftarrow> arr_get p (i + 1); c \<leftarrow> arr_get p (i + 2);
     Some (ucast a + push_bit 8 (ucast b) + push_bit 16 (ucast c))
   }"

definition le32 :: "u8 list \<Rightarrow> nat \<Rightarrow> u32 option" where
  "le32 p i = do {
     a \<leftarrow> arr_get p i; b \<leftarrow> arr_get p (i + 1); c \<leftarrow> arr_get p (i + 2); d \<leftarrow> arr_get p (i + 3);
     Some (ucast a + push_bit 8 (ucast b) + push_bit 16 (ucast c) + push_bit 24 (ucast d))
   }"

definition le16_bytes :: "u16 \<Rightarrow> u8 list" where
  "le16_bytes x = [ucast x, ucast (drop_bit 8 x)]"

definition le24_bytes :: "u32 \<Rightarrow> u8 list" where
  "le24_bytes x = [ucast x, ucast (drop_bit 8 x), ucast (drop_bit 16 x)]"

definition le32_bytes :: "u32 \<Rightarrow> u8 list" where
  "le32_bytes x = [ucast x, ucast (drop_bit 8 x), ucast (drop_bit 16 x), ucast (drop_bit 24 x)]"

text \<open>\<open>__builtin_popcount\<close>\<close>

definition popcount :: "u32 \<Rightarrow> nat" where
  "popcount w = length (filter (bit w) [0..<32])"

definition has :: "'a::len word \<Rightarrow> 'a word \<Rightarrow> bool" where
  "has x m \<longleftrightarrow> x AND m \<noteq> 0"

section \<open>Data\<close>

record codec_cap =
  cap_exist :: u16
  supported_sampling_frequencies :: u16
  supported_frame_durations :: u8
  audio_channel_counts :: u8
  max_supported_codec_frames_per_sdu :: u8
  min_octets_per_codec_frame :: u16
  max_octets_per_codec_frame :: u16

record codec_cfg =
  type_exist :: u16
  frame_duration :: u8
  sample_frequency :: u8
  codec_frame_blocks_per_sdu :: u8
  octets_per_codec_frame :: u16
  audio_channel_allocation :: u32

definition zero_cap :: codec_cap where
  "zero_cap = \<lparr>cap_exist = 0, supported_sampling_frequencies = 0, supported_frame_durations = 0,
     audio_channel_counts = 0, max_supported_codec_frames_per_sdu = 0, min_octets_per_codec_frame = 0,
     max_octets_per_codec_frame = 0\<rparr>"

definition zero_cfg :: codec_cfg where
  "zero_cfg = \<lparr>type_exist = 0, frame_duration = 0, sample_frequency = 0, codec_frame_blocks_per_sdu = 0,
     octets_per_codec_frame = 0, audio_channel_allocation = 0\<rparr>"

abbreviation SAMPLING_FREQUENCY_MASK :: u16 where "SAMPLING_FREQUENCY_MASK \<equiv> 0x1FFF"
abbreviation AUDIO_LOCATION_MASK :: u32 where "AUDIO_LOCATION_MASK \<equiv> 0x0FFFFFFF"
abbreviation AUDIO_LOCATION_MONO :: u32 where "AUDIO_LOCATION_MONO \<equiv> 0"

abbreviation CAP_FREQ_EXIST :: u16 where "CAP_FREQ_EXIST \<equiv> 0x0001"
abbreviation CAP_DURATION_EXIST :: u16 where "CAP_DURATION_EXIST \<equiv> 0x0002"
abbreviation CAP_CHANNELS_EXIST :: u16 where "CAP_CHANNELS_EXIST \<equiv> 0x0004"
abbreviation CAP_OCTETS_EXIST :: u16 where "CAP_OCTETS_EXIST \<equiv> 0x0008"
abbreviation CAP_FRAMES_EXIST :: u16 where "CAP_FRAMES_EXIST \<equiv> 0x0010"
abbreviation CFG_FREQ_EXIST :: u16 where "CFG_FREQ_EXIST \<equiv> 0x0001"
abbreviation CFG_DURATION_EXIST :: u16 where "CFG_DURATION_EXIST \<equiv> 0x0002"
abbreviation CFG_ALLOCATION_EXIST :: u16 where "CFG_ALLOCATION_EXIST \<equiv> 0x0004"
abbreviation CFG_OCTETS_EXIST :: u16 where "CFG_OCTETS_EXIST \<equiv> 0x0008"
abbreviation CFG_BLOCKS_EXIST :: u16 where "CFG_BLOCKS_EXIST \<equiv> 0x0010"
abbreviation VENDOR_INFO_EXIST :: u16 where "VENDOR_INFO_EXIST \<equiv> 0x1000"

section \<open>Parsing\<close>

text \<open>
  The loop of both parsers, \<open>item\<close> is the body of its \<open>switch\<close>: it gets the length, the type and the index of
  the type. \<open>idx\<close> is a \<open>uint16_t\<close> that stays below 512, so it is a number here.
\<close>

function ltv_loop ::
    "(u8 list \<Rightarrow> nat \<Rightarrow> u8 \<Rightarrow> nat \<Rightarrow> 'c \<Rightarrow> (nat \<times> 'c) option) \<Rightarrow> u8 list \<Rightarrow> nat \<Rightarrow> nat \<Rightarrow> 'c \<Rightarrow> (nat \<times> 'c) option" where
  "ltv_loop item p value_len idx c =
     (if idx < value_len then do {
        len \<leftarrow> arr_get p idx;
        ty \<leftarrow> arr_get p (idx + 1);
        (err, c1) \<leftarrow> item p (unat len) ty (idx + 1) c;
        (if err \<noteq> 0 then Some (err, c1) else ltv_loop item p value_len (idx + 1 + unat len) c1)
      } else Some (if idx \<noteq> value_len then 12 else 0, c))"
  by pat_completeness auto
termination
  by (relation "measure (\<lambda>(_, _, n, i, _). n - i)") auto

declare ltv_loop.simps [simp del]

definition cap_item :: "u8 list \<Rightarrow> nat \<Rightarrow> u8 \<Rightarrow> nat \<Rightarrow> codec_cap \<Rightarrow> (nat \<times> codec_cap) option" where
  "cap_item p len ty idx c =
     (if ty = 0x01 then
        (if len \<noteq> 3 then Some (2, c) else do {
           f \<leftarrow> le16 p (idx + 1);
           let c1 = c\<lparr>supported_sampling_frequencies := f\<rparr>;
           Some (if f OR SAMPLING_FREQUENCY_MASK \<noteq> SAMPLING_FREQUENCY_MASK then (3, c1)
                 else (0, c1\<lparr>cap_exist := cap_exist c1 OR CAP_FREQ_EXIST\<rparr>))
         })
      else if ty = 0x02 then
        (if len \<noteq> 2 then Some (4, c) else do {
           d \<leftarrow> arr_get p (idx + 1);
           Some (0, c\<lparr>supported_frame_durations := d, cap_exist := cap_exist c OR CAP_DURATION_EXIST\<rparr>)
         })
      else if ty = 0x03 then
        (if len \<noteq> 2 then Some (6, c) else do {
           n \<leftarrow> arr_get p (idx + 1);
           Some (0, c\<lparr>audio_channel_counts := n, cap_exist := cap_exist c OR CAP_CHANNELS_EXIST\<rparr>)
         })
      else if ty = 0x04 then
        (if len \<noteq> 5 then Some (8, c) else do {
           lo \<leftarrow> le16 p (idx + 1);
           hi \<leftarrow> le16 p (idx + 3);
           Some (0, c\<lparr>min_octets_per_codec_frame := lo, max_octets_per_codec_frame := hi,
                      cap_exist := cap_exist c OR CAP_OCTETS_EXIST\<rparr>)
         })
      else if ty = 0x05 then
        (if len \<noteq> 2 then Some (9, c) else do {
           n \<leftarrow> arr_get p (idx + 1);
           let c1 = c\<lparr>max_supported_codec_frames_per_sdu := n\<rparr>;
           Some (if n = 0 then (10, c1) else (0, c1\<lparr>cap_exist := cap_exist c1 OR CAP_FRAMES_EXIST\<rparr>))
         })
      else Some (0, c\<lparr>cap_exist := cap_exist c OR VENDOR_INFO_EXIST\<rparr>))"

definition codec_cap_parse :: "u8 \<Rightarrow> u8 list option \<Rightarrow> codec_cap option \<Rightarrow> (bool \<times> codec_cap option) option" where
  "codec_cap_parse value_len p_value p_cap =
     (case (p_value, p_cap) of
        (Some p, Some _) \<Rightarrow>
          (if value_len = 0 then Some (False, p_cap) else do {
             (err, c) \<leftarrow> ltv_loop cap_item p (unat value_len) 0 (zero_cap\<lparr>max_supported_codec_frames_per_sdu := 1\<rparr>);
             Some (err = 0, Some c)
           })
      | _ \<Rightarrow> Some (False, p_cap))"

definition cfg_item :: "u8 list \<Rightarrow> nat \<Rightarrow> u8 \<Rightarrow> nat \<Rightarrow> codec_cfg \<Rightarrow> (nat \<times> codec_cfg) option" where
  "cfg_item p len ty idx c =
     (if ty = 0x01 then
        (if len \<noteq> 2 then Some (2, c) else do {
           f \<leftarrow> arr_get p (idx + 1);
           let c1 = c\<lparr>sample_frequency := f\<rparr>;
           Some (if f > 0x0A \<or> f < 0x01 then (3, c1)
                 else (0, c1\<lparr>type_exist := type_exist c1 OR CFG_FREQ_EXIST\<rparr>))
         })
      else if ty = 0x02 then
        (if len \<noteq> 2 then Some (4, c) else do {
           d \<leftarrow> arr_get p (idx + 1);
           let c1 = c\<lparr>frame_duration := d\<rparr>;
           Some (if d > 0x03 then (5, c1)
                 else (0, c1\<lparr>type_exist := type_exist c1 OR CFG_DURATION_EXIST\<rparr>))
         })
      else if ty = 0x03 then
        (if len \<noteq> 5 then Some (6, c) else do {
           a \<leftarrow> le32 p (idx + 1);
           let c1 = c\<lparr>audio_channel_allocation := a\<rparr>;
           Some (if a OR AUDIO_LOCATION_MASK \<noteq> AUDIO_LOCATION_MASK then (7, c1)
                 else (0, c1\<lparr>type_exist := type_exist c1 OR CFG_ALLOCATION_EXIST\<rparr>))
         })
      else if ty = 0x04 then
        (if len \<noteq> 3 then Some (8, c) else do {
           n \<leftarrow> le16 p (idx + 1);
           Some (0, c\<lparr>octets_per_codec_frame := n, type_exist := type_exist c OR CFG_OCTETS_EXIST\<rparr>)
         })
      else if ty = 0x05 then
        (if len \<noteq> 2 then Some (9, c) else do {
           n \<leftarrow> arr_get p (idx + 1);
           let c1 = c\<lparr>codec_frame_blocks_per_sdu := n\<rparr>;
           Some (if n = 0 then (10, c1) else (0, c1\<lparr>type_exist := type_exist c1 OR CFG_BLOCKS_EXIST\<rparr>))
         })
      else Some (0, c\<lparr>type_exist := type_exist c OR VENDOR_INFO_EXIST\<rparr>))"

definition codec_cfg_parse :: "u8 \<Rightarrow> u8 list option \<Rightarrow> codec_cfg option \<Rightarrow> (bool \<times> codec_cfg option) option" where
  "codec_cfg_parse value_len p_value p_cfg =
     (case (p_value, p_cfg) of
        (Some p, Some _) \<Rightarrow>
          (if value_len = 0 then Some (False, p_cfg) else do {
             (err, c) \<leftarrow> ltv_loop cfg_item p (unat value_len) 0 (zero_cfg\<lparr>codec_frame_blocks_per_sdu := 1\<rparr>);
             Some (err = 0, Some c)
           })
      | _ \<Rightarrow> Some (False, p_cfg))"

section \<open>Generating\<close>

text \<open>\<open>p_value[idx++] = b;\<close> for a list of bytes\<close>

fun put_bytes :: "u8 list \<Rightarrow> nat \<times> u8 list \<Rightarrow> (nat \<times> u8 list) option" where
  "put_bytes [] s = Some s"
| "put_bytes (b # bs) (i, buf) = do { buf' \<leftarrow> arr_set buf i b; put_bytes bs (Suc i, buf') }"

definition codec_cfg_gen ::
    "u8 option \<Rightarrow> u8 list option \<Rightarrow> codec_cfg option \<Rightarrow> (bool \<times> u8 option \<times> u8 list option) option" where
  "codec_cfg_gen p_value_len p_value p_cfg =
     (case (p_value_len, p_value, p_cfg) of
        (Some _, Some buf, Some c) \<Rightarrow> do {
          s1 \<leftarrow> (if has (type_exist c) CFG_FREQ_EXIST
                 then put_bytes [0x02, 0x01, sample_frequency c] (0, buf) else Some (0, buf));
          s2 \<leftarrow> (if has (type_exist c) CFG_DURATION_EXIST
                 then put_bytes [0x02, 0x02, frame_duration c] s1 else Some s1);
          s3 \<leftarrow> (if has (type_exist c) CFG_ALLOCATION_EXIST \<and> audio_channel_allocation c \<noteq> AUDIO_LOCATION_MONO
                 then put_bytes ([0x05, 0x03] @ le32_bytes (audio_channel_allocation c)) s2 else Some s2);
          s4 \<leftarrow> (if has (type_exist c) CFG_OCTETS_EXIST
                 then put_bytes ([0x03, 0x04] @ le16_bytes (octets_per_codec_frame c)) s3 else Some s3);
          s5 \<leftarrow> (if has (type_exist c) CFG_BLOCKS_EXIST
                 then put_bytes [0x02, 0x05, codec_frame_blocks_per_sdu c] s4 else Some s4);
          Some (True, Some (of_nat (fst s5)), Some (snd s5))
        }
      | _ \<Rightarrow> Some (False, p_value_len, p_value))"

section \<open>Checking a configuration against a capability\<close>

text \<open>A shift by a negative count, or of an \<open>int\<close> by 31 and more, is undefined.\<close>

definition codec_cfg_check_cap :: "codec_cap option \<Rightarrow> codec_cfg option \<Rightarrow> bool option" where
  "codec_cfg_check_cap p_cap p_cfg =
     (case (p_cap, p_cfg) of
        (Some cap, Some cfg) \<Rightarrow> do {
          let channel_num = (if has (type_exist cfg) CFG_ALLOCATION_EXIST
                             then (if popcount (audio_channel_allocation cfg) = 0 then 1
                                   else popcount (audio_channel_allocation cfg))
                             else 0);
          e1 \<leftarrow> (if has (type_exist cfg) CFG_FREQ_EXIST then
                   (if has (cap_exist cap) CAP_FREQ_EXIST then
                      (if sample_frequency cfg = 0 \<or> unat (sample_frequency cfg) - 1 \<ge> 31 then None
                       else Some (if supported_sampling_frequencies cap AND push_bit (unat (sample_frequency cfg) - 1) 1 = 0
                                  then 2 else 0))
                    else Some (3 :: nat))
                 else Some 0);
          e2 \<leftarrow> Some (if e1 \<noteq> 0 then e1
                 else if has (type_exist cfg) CFG_DURATION_EXIST then
                   (if has (cap_exist cap) CAP_DURATION_EXIST then
                      (if frame_duration cfg = 0 \<and> supported_frame_durations cap AND 0x01 = 0 then 4
                       else if frame_duration cfg = 1 \<and> supported_frame_durations cap AND 0x02 = 0 then 5
                       else if frame_duration cfg = 2 \<and> supported_frame_durations cap AND 0x04 = 0 then 12
                       else if frame_duration cfg = 3 \<and> supported_frame_durations cap AND 0x08 = 0 then 13
                       else 0)
                    else 6)
                 else 0);
          e3 \<leftarrow> Some (if e2 \<noteq> 0 then e2
                 else if has (type_exist cfg) CFG_ALLOCATION_EXIST then
                   (if has (cap_exist cap) CAP_CHANNELS_EXIST then
                      (if audio_channel_counts cap AND push_bit (channel_num - 1) 1 = 0 then 7 else 0)
                    else 8)
                 else 0);
          e4 \<leftarrow> Some (if e3 \<noteq> 0 then e3
                 else if has (type_exist cfg) CFG_OCTETS_EXIST \<and> has (cap_exist cap) CAP_OCTETS_EXIST
                   \<and> (octets_per_codec_frame cfg < min_octets_per_codec_frame cap
                      \<or> octets_per_codec_frame cfg > max_octets_per_codec_frame cap)
                 then 9 else 0);
          e5 \<leftarrow> Some (if e4 \<noteq> 0 then e4
                 else if has (type_exist cfg) CFG_BLOCKS_EXIST then
                   (if has (cap_exist cap) CAP_FRAMES_EXIST then
                      (if (of_nat channel_num :: u8) * codec_frame_blocks_per_sdu cfg
                          > max_supported_codec_frames_per_sdu cap then 10 else 0)
                    else (if codec_frame_blocks_per_sdu cfg > 1 then 11 else 0))
                 else 0);
          Some (e5 = 0)
        }
      | _ \<Rightarrow> Some False)"

definition codec_cap_check :: "u8 \<Rightarrow> u8 list option \<Rightarrow> codec_cfg option \<Rightarrow> bool option" where
  "codec_cap_check len p_data p_cfg = do {
     (ok, cap) \<leftarrow> codec_cap_parse len p_data (Some zero_cap);
     (if ok then codec_cfg_check_cap cap p_cfg else Some False)
   }"

section \<open>Metadata and the format check\<close>

abbreviation ASE_CP_RESP_UNSUPPORTED_METADATA :: u8 where "ASE_CP_RESP_UNSUPPORTED_METADATA \<equiv> 0x0A"
abbreviation ASE_CP_RESP_REJECTED_METADATA :: u8 where "ASE_CP_RESP_REJECTED_METADATA \<equiv> 0x0B"
abbreviation ASE_CP_RESP_INVALID_METADATA :: u8 where "ASE_CP_RESP_INVALID_METADATA \<equiv> 0x0C"
abbreviation AUDIO_CONTEXT_MASK :: u16 where "AUDIO_CONTEXT_MASK \<equiv> 0x0FFF"

text \<open>The output arguments of \<open>metadata_check_format\<close>.\<close>

record metadata_out =
  resp_code :: u8
  reason :: u8
  audio_contexts :: u16

text \<open>
  The body of the \<open>switch\<close>: whether the loop goes on, and the outputs. \<open>idx\<close> is a \<open>uint16_t\<close> and
  \<open>len\<close> may be as large, so the sums are reduced modulo \<open>2 ^ 16\<close>.
\<close>

definition metadata_item :: "u8 list \<Rightarrow> nat \<Rightarrow> u8 \<Rightarrow> nat \<Rightarrow> metadata_out \<Rightarrow> (bool \<times> metadata_out) option" where
  "metadata_item p len ty idx out =
     (let invalid = out\<lparr>resp_code := ASE_CP_RESP_INVALID_METADATA, reason := ty\<rparr>
      in if ty = 0x01 then Some (if len \<noteq> 3 then (False, invalid) else (True, out))
      else if ty = 0x02 then
        (if len \<noteq> 3 then Some (False, invalid) else do {
           c \<leftarrow> le16 p (idx + 1);
           Some (if c OR AUDIO_CONTEXT_MASK \<noteq> AUDIO_CONTEXT_MASK \<or> c AND AUDIO_CONTEXT_MASK = 0
                 then (False, out\<lparr>resp_code := ASE_CP_RESP_REJECTED_METADATA, reason := ty\<rparr>)
                 else (True, out\<lparr>audio_contexts := c\<rparr>))
         })
      else if ty = 0xFF then Some (if len < 4 then (False, invalid) else (True, out))
      else if ty = 0x05 then Some (if len < 1 then (False, invalid) else (True, out))
      else Some (False, out\<lparr>resp_code := ASE_CP_RESP_UNSUPPORTED_METADATA, reason := ty\<rparr>))"

partial_function (option) metadata_loop ::
    "u8 list \<Rightarrow> nat \<Rightarrow> nat \<Rightarrow> metadata_out \<Rightarrow> (bool \<times> metadata_out) option" where
  "metadata_loop p len idx out =
     (if idx < len then do {
        l \<leftarrow> arr_get p idx;
        ty \<leftarrow> arr_get p ((idx + 1) mod 2 ^ 16);
        r \<leftarrow> metadata_item p (unat l) ty ((idx + 1) mod 2 ^ 16) out;
        (if fst r then metadata_loop p len (((idx + 1) mod 2 ^ 16 + unat l) mod 2 ^ 16) (snd r) else Some r)
      } else if idx \<noteq> len then Some (False, out\<lparr>resp_code := ASE_CP_RESP_INVALID_METADATA\<rparr>)
      else Some (True, out))"

definition metadata_check_format ::
    "u16 \<Rightarrow> u8 list option \<Rightarrow> metadata_out option \<Rightarrow> (bool \<times> metadata_out option) option" where
  "metadata_check_format len p_data p_out =
     (case p_out of None \<Rightarrow> Some (False, None)
      | Some out \<Rightarrow> (case p_data of
          None \<Rightarrow> Some (False, Some (out\<lparr>resp_code := ASE_CP_RESP_INVALID_METADATA\<rparr>))
        | Some p \<Rightarrow> (if len = 0 then Some (False, Some (out\<lparr>resp_code := ASE_CP_RESP_INVALID_METADATA\<rparr>))
            else map_option (\<lambda>(ok, o'). (ok, Some o'))
                   (metadata_loop p (unat len) 0 (out\<lparr>resp_code := 0, reason := 0\<rparr>)))))"

partial_function (option) format_loop :: "u8 list \<Rightarrow> nat \<Rightarrow> nat \<Rightarrow> nat \<Rightarrow> bool option" where
  "format_loop p len idx data_len =
     (if data_len < len then do {
        l \<leftarrow> arr_get p idx;
        format_loop p len ((idx + (unat l + 1)) mod 2 ^ 16) ((data_len + (unat l + 1)) mod 2 ^ 16)
      } else Some (data_len = len))"

definition ltv_util_check_format_int :: "u16 \<Rightarrow> u8 list option \<Rightarrow> bool option" where
  "ltv_util_check_format_int len p_data =
     (case p_data of None \<Rightarrow> Some False
      | Some p \<Rightarrow> (if len = 0 then Some False else format_loop p (unat len) 0 0))"

section \<open>The preferred configurations\<close>

record qos_cfg_preferred =
  q_sdu_interval :: u32
  q_framing :: u8
  q_max_sdu :: u16
  q_retransmission_number :: u8
  q_max_transport_latency :: u16
  q_presentation_delay :: u32

text \<open>The rows of the tables, in the order of the fields.\<close>

definition cfg_row :: "u8 \<Rightarrow> u8 \<Rightarrow> u16 \<Rightarrow> codec_cfg" where
  "cfg_row duration freq octets = \<lparr>type_exist = 0x1B, frame_duration = duration, sample_frequency = freq,
     codec_frame_blocks_per_sdu = 1, octets_per_codec_frame = octets, audio_channel_allocation = AUDIO_LOCATION_MONO\<rparr>"

definition qos_row :: "u32 \<Rightarrow> u8 \<Rightarrow> u16 \<Rightarrow> u8 \<Rightarrow> u16 \<Rightarrow> qos_cfg_preferred" where
  "qos_row interval framing sdu retrans latency = \<lparr>q_sdu_interval = interval, q_framing = framing, q_max_sdu = sdu,
     q_retransmission_number = retrans, q_max_transport_latency = latency, q_presentation_delay = 40000\<rparr>"

definition lc3_codec_cfg :: "codec_cfg list" where
  "lc3_codec_cfg =
    [cfg_row 0 1 26,  cfg_row 1 1 30,
     cfg_row 0 3 30,  cfg_row 1 3 40,
     cfg_row 0 5 45,  cfg_row 1 5 60,
     cfg_row 0 6 60,  cfg_row 1 6 80,
     cfg_row 0 7 97,  cfg_row 1 7 130,
     cfg_row 0 8 75,  cfg_row 1 8 100,
     cfg_row 0 8 90,  cfg_row 1 8 120,
     cfg_row 0 8 117, cfg_row 1 8 155]"

definition lc3_cis_low_latency_qos :: "qos_cfg_preferred list" where
  "lc3_cis_low_latency_qos =
    [qos_row 7500 0 26 2 8,   qos_row 10000 0 30 2 10,
     qos_row 7500 0 30 2 8,   qos_row 10000 0 40 2 10,
     qos_row 7500 0 45 2 8,   qos_row 10000 0 60 2 10,
     qos_row 7500 0 60 2 8,   qos_row 10000 0 80 2 10,
     qos_row 8163 1 97 5 24,  qos_row 10884 1 130 5 31,
     qos_row 7500 0 75 5 15,  qos_row 10000 0 100 5 20,
     qos_row 7500 0 90 5 15,  qos_row 10000 0 120 5 20,
     qos_row 7500 0 117 5 15, qos_row 10000 0 155 5 20]"

definition lc3_cis_high_reliability_qos :: "qos_cfg_preferred list" where
  "lc3_cis_high_reliability_qos =
    [qos_row 7500 0 26 13 75,  qos_row 10000 0 30 13 95,
     qos_row 7500 0 30 13 75,  qos_row 10000 0 40 13 95,
     qos_row 7500 0 45 13 75,  qos_row 10000 0 60 13 95,
     qos_row 7500 0 60 13 75,  qos_row 10000 0 80 13 95,
     qos_row 8163 1 97 13 80,  qos_row 10884 1 130 13 85,
     qos_row 7500 0 75 13 75,  qos_row 10000 0 100 13 95,
     qos_row 7500 0 90 13 75,  qos_row 10000 0 120 13 100,
     qos_row 7500 0 117 13 75, qos_row 10000 0 155 13 100]"

definition lc3_bis_low_latency_qos :: "qos_cfg_preferred list" where
  "lc3_bis_low_latency_qos =
    [qos_row 7500 0 26 2 8,   qos_row 10000 0 30 2 10,
     qos_row 7500 0 30 2 8,   qos_row 10000 0 40 2 10,
     qos_row 7500 0 45 2 8,   qos_row 10000 0 60 2 10,
     qos_row 7500 0 60 2 8,   qos_row 10000 0 80 2 10,
     qos_row 8163 1 97 4 24,  qos_row 10884 1 130 4 31,
     qos_row 7500 0 75 4 15,  qos_row 10000 0 100 4 20,
     qos_row 7500 0 90 4 15,  qos_row 10000 0 120 4 20,
     qos_row 7500 0 117 4 15, qos_row 10000 0 155 4 20]"

definition lc3_bis_high_reliability_qos :: "qos_cfg_preferred list" where
  "lc3_bis_high_reliability_qos =
    [qos_row 7500 0 26 4 45,  qos_row 10000 0 30 4 60,
     qos_row 7500 0 30 4 45,  qos_row 10000 0 40 4 60,
     qos_row 7500 0 45 4 45,  qos_row 10000 0 60 4 60,
     qos_row 7500 0 60 4 45,  qos_row 10000 0 80 4 60,
     qos_row 8163 1 97 4 54,  qos_row 10884 1 130 4 60,
     qos_row 7500 0 75 4 50,  qos_row 10000 0 100 4 65,
     qos_row 7500 0 90 4 50,  qos_row 10000 0 120 4 65,
     qos_row 7500 0 117 4 50, qos_row 10000 0 155 4 65]"

datatype qos_cfg_type =
  QOS_CFG_CIS_LOW_LATENCY | QOS_CFG_CIS_HIG_RELIABILITY | QOS_CFG_BIS_LOW_LATENCY | QOS_CFG_BIS_HIG_RELIABILITY

text \<open>An output argument that may be \<open>NULL\<close> is an \<open>option\<close>; the result holds its new content.\<close>

definition codec_preferred_cfg_get :: "nat \<Rightarrow> codec_cfg option \<Rightarrow> (bool \<times> codec_cfg option) option" where
  "codec_preferred_cfg_get item p_cfg =
     (case p_cfg of None \<Rightarrow> Some (False, None)
      | Some _ \<Rightarrow> do { c \<leftarrow> arr_get lc3_codec_cfg item; Some (True, Some c) })"

definition qos_table :: "qos_cfg_type \<Rightarrow> qos_cfg_preferred list" where
  "qos_table ty = (case ty of
     QOS_CFG_CIS_LOW_LATENCY \<Rightarrow> lc3_cis_low_latency_qos
   | QOS_CFG_CIS_HIG_RELIABILITY \<Rightarrow> lc3_cis_high_reliability_qos
   | QOS_CFG_BIS_LOW_LATENCY \<Rightarrow> lc3_bis_low_latency_qos
   | QOS_CFG_BIS_HIG_RELIABILITY \<Rightarrow> lc3_bis_high_reliability_qos)"

definition qos_preferred_cfg_get ::
    "nat \<Rightarrow> qos_cfg_type \<Rightarrow> qos_cfg_preferred option \<Rightarrow> (bool \<times> qos_cfg_preferred option) option" where
  "qos_preferred_cfg_get item ty p_qos =
     (case p_qos of None \<Rightarrow> Some (False, None)
      | Some _ \<Rightarrow> do { q \<leftarrow> arr_get (qos_table ty) item; Some (True, Some q) })"

definition qos_preferred_cfg_get_by_codec ::
    "codec_cfg option \<Rightarrow> u8 \<Rightarrow> qos_cfg_preferred option \<Rightarrow> (bool \<times> qos_cfg_preferred option) option" where
  "qos_preferred_cfg_get_by_codec p_cfg target_latency p_qos =
     (case (p_cfg, p_qos) of
        (Some c, Some _) \<Rightarrow> do {
          i \<leftarrow> arr_find (\<lambda>t. frame_duration t = frame_duration c \<and> sample_frequency t = sample_frequency c
                           \<and> octets_per_codec_frame t = octets_per_codec_frame c) 0 16 lc3_codec_cfg;
          (if i < 16 then do {
             q \<leftarrow> arr_get (if target_latency = 3 then lc3_cis_high_reliability_qos else lc3_cis_low_latency_qos) i;
             Some (True, Some q)
           } else Some (True, p_qos))
        }
      | _ \<Rightarrow> Some (False, p_qos))"

definition codec_max_sdu_len_get :: "codec_cfg option \<Rightarrow> u16 option \<Rightarrow> bool \<times> u16 option" where
  "codec_max_sdu_len_get p_cfg p_max_len =
     (case (p_cfg, p_max_len) of
        (Some c, Some _) \<Rightarrow>
          (if \<not> has (type_exist c) CFG_OCTETS_EXIST then (False, p_max_len)
           else let blocks_num = (if has (type_exist c) CFG_BLOCKS_EXIST then unat (codec_frame_blocks_per_sdu c) else 1);
                    chnl_num = (if has (type_exist c) CFG_ALLOCATION_EXIST
                                then (if audio_channel_allocation c = AUDIO_LOCATION_MONO then 1
                                      else popcount (audio_channel_allocation c)) else 1)
                in (True, Some (of_nat (blocks_num * chnl_num * unat (octets_per_codec_frame c)))))
      | _ \<Rightarrow> (False, p_max_len))"

definition codec_sdu_interval_get :: "codec_cfg option \<Rightarrow> u32 option \<Rightarrow> bool \<times> u32 option" where
  "codec_sdu_interval_get p_cfg p_sdu_int =
     (case (p_cfg, p_sdu_int) of
        (Some c, Some _) \<Rightarrow>
          (if \<not> has (type_exist c) CFG_DURATION_EXIST then (False, p_sdu_int)
           else let blocks_num = (if has (type_exist c) CFG_BLOCKS_EXIST then codec_frame_blocks_per_sdu c else 1)
                in if frame_duration c = 0 then (True, Some (ucast blocks_num * 7500))
                   else if frame_duration c = 1 then (True, Some (ucast blocks_num * 10000))
                   else if frame_duration c = 2 then (True, Some (ucast blocks_num * 5000))
                   else if frame_duration c = 3 then (True, Some (ucast blocks_num * 2500))
                   else (False, p_sdu_int))
      | _ \<Rightarrow> (False, p_sdu_int))"

text \<open>
  The masks of the table by sampling frequency and by frame duration, and the loop over their
  intersection.
\<close>

definition sample_masks :: "u16 \<Rightarrow> u32" where
  "sample_masks f =
     (if f AND 0x0001 \<noteq> 0 then 0x0003 else 0) OR (if f AND 0x0004 \<noteq> 0 then 0x000C else 0) OR
     (if f AND 0x0010 \<noteq> 0 then 0x0030 else 0) OR (if f AND 0x0020 \<noteq> 0 then 0x00C0 else 0) OR
     (if f AND 0x0040 \<noteq> 0 then 0x0300 else 0) OR (if f AND 0x0080 \<noteq> 0 then 0xFC00 else 0)"

definition duration_masks :: "u8 \<Rightarrow> u32" where
  "duration_masks d = (if d AND 0x01 \<noteq> 0 then 0x5555 else 0) OR (if d AND 0x02 \<noteq> 0 then 0xAAAA else 0)"

function bits_loop :: "codec_cap \<Rightarrow> u32 \<Rightarrow> nat \<Rightarrow> u32 \<Rightarrow> u32 option" where
  "bits_loop cap msk index supported_bits =
     (if msk = 0 then Some supported_bits
      else do {
        bits' \<leftarrow> (if msk AND 1 \<noteq> 0 then do {
                    t \<leftarrow> arr_get lc3_codec_cfg index;
                    Some (if min_octets_per_codec_frame cap \<le> octets_per_codec_frame t
                            \<and> max_octets_per_codec_frame cap \<ge> octets_per_codec_frame t
                          then supported_bits OR push_bit index 1 else supported_bits)
                  } else Some supported_bits);
        bits_loop cap (drop_bit 1 msk) (index + 1) bits'
      })"
  by pat_completeness auto
termination
proof (relation "measure (\<lambda>(_, msk, _, _). unat msk)", goal_cases)
  case (2 cap msk index supported_bits bits')
  then have "unat msk div 2 < unat msk" by (simp add: word_unat_eq_iff)
  then show ?case by (simp add: unat_drop_bit_eq drop_bit_eq_div unat_div)
qed simp

declare bits_loop.simps [simp del]

definition codec_cap_get_cfg_bits :: "u32 option \<Rightarrow> codec_cap option \<Rightarrow> (bool \<times> u32 option) option" where
  "codec_cap_get_cfg_bits p_cfg_bits p_cap =
     (case (p_cfg_bits, p_cap) of
        (Some _, Some cap) \<Rightarrow> do {
          let sample_sup_idx = (if has (cap_exist cap) CAP_FREQ_EXIST
                                then sample_masks (supported_sampling_frequencies cap) else 0);
          let frame_duration_idx = (if has (cap_exist cap) CAP_DURATION_EXIST
                                    then duration_masks (supported_frame_durations cap) else 0);
          bits \<leftarrow> bits_loop cap (sample_sup_idx AND frame_duration_idx) 0 0;
          Some (True, Some bits)
        }
      | _ \<Rightarrow> Some (False, p_cfg_bits))"

section \<open>The least common multiple\<close>

partial_function (option) lcm_loop :: "nat \<Rightarrow> nat \<Rightarrow> nat \<Rightarrow> nat option" where
  "lcm_loop value1 value2 i =
     (if value1 * i mod 2 ^ 32 mod value2 \<noteq> 0 then lcm_loop value1 value2 ((i + 1) mod 2 ^ 32)
      else Some (value1 * i mod 2 ^ 32))"

definition least_common_multiple :: "u32 \<Rightarrow> u32 \<Rightarrow> u32 option" where
  "least_common_multiple value1 value2 =
     (if value1 \<noteq> 0 \<and> value2 \<noteq> 0 then map_option of_nat (lcm_loop (unat value1) (unat value2) 1) else Some 0)"

lemma unat_lo8: "unat (ucast x :: u8) = unat x mod 256" for x :: "'a::len word"
  by (simp add: unsigned_ucast_eq take_bit_eq_mod)

lemma lo8_drop: "unat (ucast (drop_bit k x) :: u8) = unat x div 2 ^ k mod 256" for x :: "'a::len word"
  by (simp only: unat_lo8 unat_drop_bit_eq) (simp add: drop_bit_eq_div)

lemma le16_roundtrip: "ucast (ucast x :: u8) + push_bit 8 (ucast (ucast (drop_bit 8 x) :: u8)) = x" for x :: u16
proof -
  have "unat x < 65536" using unsigned_less [of x] by simp
  then have "unat x div 256 < 256" by simp
  then have "unat (ucast (ucast x :: u8) + push_bit 8 (ucast (ucast (drop_bit 8 x) :: u8)) :: u16)
      = unat x mod 256 + 256 * (unat x div 256)"
    by (simp add: push_bit_eq_mult unat_word_ariths unat_lo8 [of x] lo8_drop)
  then show ?thesis by (simp add: word_unat_eq_iff)
qed

lemma le32_roundtrip: "ucast (ucast x :: u8) + push_bit 8 (ucast (ucast (drop_bit 8 x) :: u8))
    + push_bit 16 (ucast (ucast (drop_bit 16 x) :: u8)) + push_bit 24 (ucast (ucast (drop_bit 24 x) :: u8)) = x" for x :: u32
proof -
  define n where "n = unat x"
  have n: "n < 4294967296" using unsigned_less [of x] by (simp add: n_def)
  have e: "n mod 256 + 256 * (n div 256 mod 256) + 65536 * (n div 65536 mod 256) + 16777216 * (n div 16777216 mod 256) = n"
    using mod_mult2_eq [of n 256 256] mod_mult2_eq [of n 65536 256] mod_mult2_eq [of n 16777216 256] n by simp
  have "unat (ucast (ucast x :: u8) + push_bit 8 (ucast (ucast (drop_bit 8 x) :: u8))
    + push_bit 16 (ucast (ucast (drop_bit 16 x) :: u8)) + push_bit 24 (ucast (ucast (drop_bit 24 x) :: u8)) :: u32)
      = (n mod 256 + 256 * (n div 256 mod 256) + 65536 * (n div 65536 mod 256) + 16777216 * (n div 16777216 mod 256)) mod 4294967296"
    by (simp add: push_bit_eq_mult unat_word_ariths unat_lo8 [of x] lo8_drop n_def mod_simps mult.commute)
  then show ?thesis unfolding e using n by (simp add: word_unat_eq_iff n_def)
qed

lemma arr_get_drop: "drop i p = xs \<Longrightarrow> j < length xs \<Longrightarrow> arr_get p (i + j) = Some (xs ! j)"
  by (metis add.commute arr_get_in length_drop less_diff_conv nth_drop nat_le_linear add_leD1 less_imp_le drop_all length_0_conv not_less_zero)

lemma le16_put: "drop i p = le16_bytes x @ ys \<Longrightarrow> le16 p i = Some x"
  using arr_get_drop [of i p "le16_bytes x @ ys" 0] arr_get_drop [of i p "le16_bytes x @ ys" 1]
  by (simp add: le16_def le16_bytes_def le16_roundtrip)

lemma le32_put: "drop i p = le32_bytes x @ ys \<Longrightarrow> le32 p i = Some x"
  using arr_get_drop [of i p "le32_bytes x @ ys" 0] arr_get_drop [of i p "le32_bytes x @ ys" 1]
    arr_get_drop [of i p "le32_bytes x @ ys" 2] arr_get_drop [of i p "le32_bytes x @ ys" 3]
  by (simp add: le32_def le32_bytes_def le32_roundtrip)

lemma put_bytes_eq:
  "i + length bs \<le> length buf \<Longrightarrow> put_bytes bs (i, buf) = Some (i + length bs, take i buf @ bs @ drop (i + length bs) buf)"
proof (induction bs arbitrary: i buf)
  case Nil
  then show ?case by simp
next
  case (Cons b bs)
  then have "take (Suc i) (buf[i := b]) = take i buf @ [b]" by (simp add: take_Suc_conv_app_nth)
  then show ?case using Cons by (simp add: arr_simps)
qed

text \<open>One item that fits, at the head of what is left of the buffer.\<close>

lemma ltv_step:
  assumes "drop idx p = l # ty # xs" "idx < n" "cfg_item p (unat l) ty (idx + 1) c = Some (0, c')"
  shows "ltv_loop cfg_item p n idx c = ltv_loop cfg_item p n (idx + 1 + unat l) c'"
  using assms arr_get_drop [OF assms(1), of 0] arr_get_drop [OF assms(1), of 1]
  by (subst ltv_loop.simps) simp

lemma drop_more: "drop i p = xs @ ys \<Longrightarrow> drop (i + length xs) p = ys"
  by (metis add.commute append_eq_conv_conj drop_drop)

section \<open>Generating and parsing\<close>

lemma ltv_opt:
  assumes "drop idx p = (if b then l # ty # xs else []) @ ys" "idx + (if b then Suc (unat l) else 0) \<le> n"
    and "b \<Longrightarrow> length xs + 1 = unat l" "b \<Longrightarrow> cfg_item p (unat l) ty (idx + 1) c = Some (0, c')"
  shows "ltv_loop cfg_item p n idx c = ltv_loop cfg_item p n (idx + (if b then Suc (unat l) else 0)) (if b then c' else c)"
    and "drop (idx + (if b then Suc (unat l) else 0)) p = ys"
proof -
  have b: "drop (idx + Suc (unat l)) p = ys \<and> ltv_loop cfg_item p n idx c = ltv_loop cfg_item p n (idx + Suc (unat l)) c'" if b
  proof -
    have "drop (idx + length (l # ty # xs)) p = ys" using assms(1) that by (intro drop_more) simp
    moreover have "length (l # ty # xs) = Suc (unat l)" using assms(3) [OF that] by simp
    moreover have "ltv_loop cfg_item p n idx c = ltv_loop cfg_item p n (idx + 1 + unat l) c'"
      by (rule ltv_step [of _ _ _ _ "xs @ ys"]) (use assms(1,2,4) that in simp_all)
    ultimately show ?thesis by (simp only: add.assoc Suc_eq_plus1 add.commute [of 1])
  qed
  then show "ltv_loop cfg_item p n idx c = ltv_loop cfg_item p n (idx + (if b then Suc (unat l) else 0)) (if b then c' else c)"
    by simp
  show "drop (idx + (if b then Suc (unat l) else 0)) p = ys" using b assms(1) by auto
qed

definition cfg_ranges :: "codec_cfg \<Rightarrow> bool" where
  "cfg_ranges c \<longleftrightarrow> (has (type_exist c) CFG_FREQ_EXIST \<longrightarrow> 1 \<le> sample_frequency c \<and> sample_frequency c \<le> 10)
     \<and> (has (type_exist c) CFG_DURATION_EXIST \<longrightarrow> frame_duration c \<le> 3)
     \<and> (has (type_exist c) CFG_ALLOCATION_EXIST \<longrightarrow> audio_channel_allocation c OR AUDIO_LOCATION_MASK = AUDIO_LOCATION_MASK)
     \<and> (has (type_exist c) CFG_BLOCKS_EXIST \<longrightarrow> codec_frame_blocks_per_sdu c \<noteq> 0)"

text \<open>The channel allocation is sent only when it is not \<open>AUDIO_LOCATION_MONO\<close>.\<close>

definition sends_allocation :: "codec_cfg \<Rightarrow> bool" where
  "sends_allocation c \<longleftrightarrow> has (type_exist c) CFG_ALLOCATION_EXIST \<and> audio_channel_allocation c \<noteq> AUDIO_LOCATION_MONO"

text \<open>What arrives: the fields that are sent, the others with their defaults.\<close>

definition received :: "codec_cfg \<Rightarrow> codec_cfg" where
  "received c = \<lparr>
     type_exist = (if has (type_exist c) CFG_FREQ_EXIST then CFG_FREQ_EXIST else 0)
       OR (if has (type_exist c) CFG_DURATION_EXIST then CFG_DURATION_EXIST else 0)
       OR (if sends_allocation c then CFG_ALLOCATION_EXIST else 0)
       OR (if has (type_exist c) CFG_OCTETS_EXIST then CFG_OCTETS_EXIST else 0)
       OR (if has (type_exist c) CFG_BLOCKS_EXIST then CFG_BLOCKS_EXIST else 0),
     frame_duration = (if has (type_exist c) CFG_DURATION_EXIST then frame_duration c else 0),
     sample_frequency = (if has (type_exist c) CFG_FREQ_EXIST then sample_frequency c else 0),
     codec_frame_blocks_per_sdu = (if has (type_exist c) CFG_BLOCKS_EXIST then codec_frame_blocks_per_sdu c else 1),
     octets_per_codec_frame = (if has (type_exist c) CFG_OCTETS_EXIST then octets_per_codec_frame c else 0),
     audio_channel_allocation = (if sends_allocation c then audio_channel_allocation c else 0)\<rparr>"

definition part1 :: "codec_cfg \<Rightarrow> u8 list" where
  "part1 c = (if has (type_exist c) CFG_FREQ_EXIST then [0x02, 0x01, sample_frequency c] else [])"
definition part2 :: "codec_cfg \<Rightarrow> u8 list" where
  "part2 c = (if has (type_exist c) CFG_DURATION_EXIST then [0x02, 0x02, frame_duration c] else [])"
definition part3 :: "codec_cfg \<Rightarrow> u8 list" where
  "part3 c = (if sends_allocation c then 0x05 # 0x03 # le32_bytes (audio_channel_allocation c) else [])"
definition part4 :: "codec_cfg \<Rightarrow> u8 list" where
  "part4 c = (if has (type_exist c) CFG_OCTETS_EXIST then 0x03 # 0x04 # le16_bytes (octets_per_codec_frame c) else [])"
definition part5 :: "codec_cfg \<Rightarrow> u8 list" where
  "part5 c = (if has (type_exist c) CFG_BLOCKS_EXIST then [0x02, 0x05, codec_frame_blocks_per_sdu c] else [])"

lemmas part_defs = part1_def part2_def part3_def part4_def part5_def

definition cfg_bytes :: "codec_cfg \<Rightarrow> u8 list" where
  "cfg_bytes c = part1 c @ part2 c @ part3 c @ part4 c @ part5 c"

lemma length_cfg_bytes: "length (cfg_bytes c) \<le> 19"
  by (simp add: cfg_bytes_def part_defs le32_bytes_def le16_bytes_def)

lemma codec_cfg_gen_eq:
  assumes "length (cfg_bytes c) \<le> length buf"
  shows "codec_cfg_gen (Some l) (Some buf) (Some c) =
    Some (True, Some (of_nat (length (cfg_bytes c))), Some (cfg_bytes c @ drop (length (cfg_bytes c)) buf))"
proof -
  define st where "st = (\<lambda>xs. (length xs, xs @ drop (length xs) buf))"
  have step: "put_bytes bs (st xs) = Some (st (xs @ bs))" if "length xs + length bs \<le> length buf" for xs bs
    using put_bytes_eq [of "length xs" bs "xs @ drop (length xs) buf"] that by (simp add: add.commute st_def)
  have opt: "(if b then put_bytes bs (st xs) else Some (st xs)) = Some (st (xs @ (if b then bs else [])))"
    if "length xs + length (if b then bs else []) \<le> length buf" for xs bs b
    using step [of xs bs] that by (cases b) simp_all
  have len: "length (part1 c) + length (part2 c) + length (part3 c) + length (part4 c) + length (part5 c) \<le> length buf"
    using assms by (simp add: cfg_bytes_def)
  have e0: "(0, buf) = st []" by (simp add: st_def)
  have e1: "(if has (type_exist c) CFG_FREQ_EXIST then put_bytes [0x02, 0x01, sample_frequency c] (st []) else Some (st []))
      = Some (st (part1 c))"
    by (subst opt) (use len in \<open>simp_all add: part1_def split: if_splits\<close>)
  have e2: "(if has (type_exist c) CFG_DURATION_EXIST then put_bytes [0x02, 0x02, frame_duration c] (st (part1 c))
        else Some (st (part1 c))) = Some (st (part1 c @ part2 c))"
    by (subst opt) (use len in \<open>simp_all add: part2_def split: if_splits\<close>)
  have e3: "(if sends_allocation c then put_bytes ([0x05, 0x03] @ le32_bytes (audio_channel_allocation c)) (st (part1 c @ part2 c))
        else Some (st (part1 c @ part2 c))) = Some (st (part1 c @ part2 c @ part3 c))"
    by (subst opt) (use len in \<open>simp_all add: part3_def split: if_splits\<close>)
  have e4: "(if has (type_exist c) CFG_OCTETS_EXIST then put_bytes ([0x03, 0x04] @ le16_bytes (octets_per_codec_frame c)) (st (part1 c @ part2 c @ part3 c))
        else Some (st (part1 c @ part2 c @ part3 c))) = Some (st (part1 c @ part2 c @ part3 c @ part4 c))"
    by (subst opt) (use len in \<open>simp_all add: part4_def split: if_splits\<close>)
  have e5: "(if has (type_exist c) CFG_BLOCKS_EXIST then put_bytes [0x02, 0x05, codec_frame_blocks_per_sdu c] (st (part1 c @ part2 c @ part3 c @ part4 c))
        else Some (st (part1 c @ part2 c @ part3 c @ part4 c))) = Some (st (cfg_bytes c))"
    by (subst opt) (use len in \<open>simp_all add: part5_def cfg_bytes_def split: if_splits\<close>)
  show ?thesis
    unfolding codec_cfg_gen_def sends_allocation_def [symmetric] option.case prod.case e0
    by (simp only: e1 e2 e3 e4 e5 bind.bind_lunit) (simp add: st_def)
qed

lemma cfg_item_eqs:
  "drop (idx + 1) p = 1 # f # ys \<Longrightarrow> 1 \<le> f \<Longrightarrow> f \<le> 10 \<Longrightarrow>
    cfg_item p 2 1 (idx + 1) c = Some (0, c\<lparr>sample_frequency := f, type_exist := type_exist c OR 1\<rparr>)"
  "drop (idx + 1) p = 2 # d # ys \<Longrightarrow> d \<le> 3 \<Longrightarrow>
    cfg_item p 2 2 (idx + 1) c = Some (0, c\<lparr>frame_duration := d, type_exist := type_exist c OR 2\<rparr>)"
  "drop (idx + 1) p = 3 # le32_bytes a @ ys \<Longrightarrow> a OR AUDIO_LOCATION_MASK = AUDIO_LOCATION_MASK \<Longrightarrow>
    cfg_item p 5 3 (idx + 1) c = Some (0, c\<lparr>audio_channel_allocation := a, type_exist := type_exist c OR 4\<rparr>)"
  "drop (idx + 1) p = 4 # le16_bytes n @ ys \<Longrightarrow>
    cfg_item p 3 4 (idx + 1) c = Some (0, c\<lparr>octets_per_codec_frame := n, type_exist := type_exist c OR 8\<rparr>)"
  "drop (idx + 1) p = 5 # b # ys \<Longrightarrow> b \<noteq> 0 \<Longrightarrow>
    cfg_item p 2 5 (idx + 1) c = Some (0, c\<lparr>codec_frame_blocks_per_sdu := b, type_exist := type_exist c OR 16\<rparr>)"
proof -
  assume "drop (idx + 1) p = 1 # f # ys" "1 \<le> f" "f \<le> 10"
  then show "cfg_item p 2 1 (idx + 1) c = Some (0, c\<lparr>sample_frequency := f, type_exist := type_exist c OR 1\<rparr>)"
    using arr_get_drop [of "idx + 1" p _ 1] by (auto simp: cfg_item_def Let_def not_less)
next
  assume "drop (idx + 1) p = 2 # d # ys" "d \<le> 3"
  then show "cfg_item p 2 2 (idx + 1) c = Some (0, c\<lparr>frame_duration := d, type_exist := type_exist c OR 2\<rparr>)"
    using arr_get_drop [of "idx + 1" p _ 1] by (auto simp: cfg_item_def Let_def not_less)
next
  assume "drop (idx + 1) p = 3 # le32_bytes a @ ys" "a OR AUDIO_LOCATION_MASK = AUDIO_LOCATION_MASK"
  then show "cfg_item p 5 3 (idx + 1) c = Some (0, c\<lparr>audio_channel_allocation := a, type_exist := type_exist c OR 4\<rparr>)"
    using drop_more [of "idx + 1" p "[3]" "le32_bytes a @ ys"] le32_put [of "idx + 2" p a ys] by (simp add: cfg_item_def)
next
  assume "drop (idx + 1) p = 4 # le16_bytes n @ ys"
  then show "cfg_item p 3 4 (idx + 1) c = Some (0, c\<lparr>octets_per_codec_frame := n, type_exist := type_exist c OR 8\<rparr>)"
    using drop_more [of "idx + 1" p "[4]" "le16_bytes n @ ys"] le16_put [of "idx + 2" p n ys] by (simp add: cfg_item_def)
next
  assume "drop (idx + 1) p = 5 # b # ys" "b \<noteq> 0"
  then show "cfg_item p 2 5 (idx + 1) c = Some (0, c\<lparr>codec_frame_blocks_per_sdu := b, type_exist := type_exist c OR 16\<rparr>)"
    using arr_get_drop [of "idx + 1" p _ 1] by (auto simp: cfg_item_def)
qed

lemma parse_received:
  assumes "p = cfg_bytes c @ zs" "cfg_ranges c"
  shows "ltv_loop cfg_item p (length (cfg_bytes c)) 0 (zero_cfg\<lparr>codec_frame_blocks_per_sdu := 1\<rparr>) = Some (0, received c)"
proof -
  let ?n = "length (cfg_bytes c)" and ?f = "\<lambda>m. has (type_exist c) m"
  define c0 where "c0 = zero_cfg\<lparr>codec_frame_blocks_per_sdu := 1\<rparr>"
  define c1 where "c1 = (if ?f 1 then c0\<lparr>sample_frequency := sample_frequency c, type_exist := type_exist c0 OR 1\<rparr> else c0)"
  define c2 where "c2 = (if ?f 2 then c1\<lparr>frame_duration := frame_duration c, type_exist := type_exist c1 OR 2\<rparr> else c1)"
  define c3 where "c3 = (if sends_allocation c
    then c2\<lparr>audio_channel_allocation := audio_channel_allocation c, type_exist := type_exist c2 OR 4\<rparr> else c2)"
  define c4 where "c4 = (if ?f 8 then c3\<lparr>octets_per_codec_frame := octets_per_codec_frame c, type_exist := type_exist c3 OR 8\<rparr> else c3)"
  define c5 where "c5 = (if ?f 16 then c4\<lparr>codec_frame_blocks_per_sdu := codec_frame_blocks_per_sdu c, type_exist := type_exist c4 OR 16\<rparr> else c4)"
  note r = assms(2) [unfolded cfg_ranges_def]
  define i1 where "i1 = (if ?f 1 then 3 else 0 :: nat)"
  define i2 where "i2 = i1 + (if ?f 2 then 3 else 0)"
  define i3 where "i3 = i2 + (if sends_allocation c then 6 else 0)"
  define i4 where "i4 = i3 + (if ?f 8 then 4 else 0)"
  define i5 where "i5 = i4 + (if ?f 16 then 3 else 0)"
  note i = i1_def i2_def i3_def i4_def i5_def
  have n: "?n = i5" by (simp add: cfg_bytes_def part_defs i le16_bytes_def le32_bytes_def)
  have d0: "drop 0 p = part1 c @ part2 c @ part3 c @ part4 c @ part5 c @ zs" using assms(1) by (simp add: cfg_bytes_def)
  have s1: "ltv_loop cfg_item p ?n 0 c0 = ltv_loop cfg_item p ?n i1 c1"
      "drop i1 p = part2 c @ part3 c @ part4 c @ part5 c @ zs"
  proof -
    have "cfg_item p (unat (2 :: u8)) 1 (0 + 1) c0 = Some (0, c0\<lparr>sample_frequency := sample_frequency c, type_exist := type_exist c0 OR 1\<rparr>)" if "?f 1"
      using cfg_item_eqs(1) [of 0 p "sample_frequency c"] drop_more [of 0 p "[2]"] d0 r that by (simp add: part1_def)
    then show "ltv_loop cfg_item p ?n 0 c0 = ltv_loop cfg_item p ?n i1 c1"
        "drop i1 p = part2 c @ part3 c @ part4 c @ part5 c @ zs"
      using ltv_opt [of 0 p "?f 1" 2 1 "[sample_frequency c]" _ ?n, OF d0 [unfolded part1_def]] n
      by (simp_all add: i c1_def split: if_splits)
  qed
  have s2: "ltv_loop cfg_item p ?n i1 c1 = ltv_loop cfg_item p ?n i2 c2" "drop i2 p = part3 c @ part4 c @ part5 c @ zs"
  proof -
    have "cfg_item p (unat (2 :: u8)) 2 (i1 + 1) c1 = Some (0, c1\<lparr>frame_duration := frame_duration c, type_exist := type_exist c1 OR 2\<rparr>)" if "?f 2"
      using cfg_item_eqs(2) [of i1 p "frame_duration c"] drop_more [of i1 p "[2]"] s1(2) r that by (simp add: part2_def)
    then show "ltv_loop cfg_item p ?n i1 c1 = ltv_loop cfg_item p ?n i2 c2" "drop i2 p = part3 c @ part4 c @ part5 c @ zs"
      using ltv_opt [of i1 p "?f 2" 2 2 "[frame_duration c]" _ ?n, OF s1(2) [unfolded part2_def]] n
      by (simp_all add: i2_def i3_def i4_def i5_def c2_def split: if_splits)
  qed
  have s3: "ltv_loop cfg_item p ?n i2 c2 = ltv_loop cfg_item p ?n i3 c3" "drop i3 p = part4 c @ part5 c @ zs"
  proof -
    have "cfg_item p (unat (5 :: u8)) 3 (i2 + 1) c2 = Some (0, c2\<lparr>audio_channel_allocation := audio_channel_allocation c, type_exist := type_exist c2 OR 4\<rparr>)"
      if "sends_allocation c"
      using cfg_item_eqs(3) [of i2 p "audio_channel_allocation c"] drop_more [of i2 p "[5]"] s2(2) r that
      by (simp add: part3_def sends_allocation_def)
    then show "ltv_loop cfg_item p ?n i2 c2 = ltv_loop cfg_item p ?n i3 c3" "drop i3 p = part4 c @ part5 c @ zs"
      using ltv_opt [of i2 p "sends_allocation c" 5 3 "le32_bytes (audio_channel_allocation c)" _ ?n, OF s2(2) [unfolded part3_def]] n
      by (simp_all add: i3_def i4_def i5_def c3_def le32_bytes_def split: if_splits)
  qed
  have s4: "ltv_loop cfg_item p ?n i3 c3 = ltv_loop cfg_item p ?n i4 c4" "drop i4 p = part5 c @ zs"
  proof -
    have "cfg_item p (unat (3 :: u8)) 4 (i3 + 1) c3 = Some (0, c3\<lparr>octets_per_codec_frame := octets_per_codec_frame c, type_exist := type_exist c3 OR 8\<rparr>)"
      if "?f 8"
      using cfg_item_eqs(4) [of i3 p "octets_per_codec_frame c"] drop_more [of i3 p "[3]"] s3(2) that
      by (simp add: part4_def)
    then show "ltv_loop cfg_item p ?n i3 c3 = ltv_loop cfg_item p ?n i4 c4" "drop i4 p = part5 c @ zs"
      using ltv_opt [of i3 p "?f 8" 3 4 "le16_bytes (octets_per_codec_frame c)" _ ?n, OF s3(2) [unfolded part4_def]] n
      by (simp_all add: i4_def i5_def c4_def le16_bytes_def split: if_splits)
  qed
  have s5: "ltv_loop cfg_item p ?n i4 c4 = ltv_loop cfg_item p ?n i5 c5"
  proof -
    have "cfg_item p (unat (2 :: u8)) 5 (i4 + 1) c4 = Some (0, c4\<lparr>codec_frame_blocks_per_sdu := codec_frame_blocks_per_sdu c, type_exist := type_exist c4 OR 16\<rparr>)"
      if "?f 16"
      using cfg_item_eqs(5) [of i4 p "codec_frame_blocks_per_sdu c"] drop_more [of i4 p "[2]"] s4(2) r that
      by (simp add: part5_def)
    then show ?thesis
      using ltv_opt [of i4 p "?f 16" 2 5 "[codec_frame_blocks_per_sdu c]" _ ?n, OF s4(2) [unfolded part5_def]] n
      by (simp add: i5_def c5_def split: if_splits)
  qed
  have "ltv_loop cfg_item p ?n i5 c5 = Some (0, c5)" using n by (subst ltv_loop.simps) simp
  moreover have "c5 = received c"
    unfolding c5_def c4_def c3_def c2_def c1_def c0_def received_def zero_cfg_def by simp
  ultimately show ?thesis using s1(1) s2(1) s3(1) s4(1) s5 unfolding c0_def by simp
qed

text \<open>C32: A codec configuration with its fields in range that is generated into a buffer of at least 19 bytes and
  parsed again comes back with every field it has; the rest of the buffer is unchanged.\<close>

theorem codec_cfg_roundtrip:
  assumes "cfg_ranges c" "cfg_bytes c \<noteq> []" "19 \<le> length buf"
  shows "\<exists>len buf'. codec_cfg_gen (Some l) (Some buf) (Some c) = Some (True, Some len, Some buf')
    \<and> 0 < len \<and> len \<le> 19 \<and> length buf' = length buf \<and> drop (unat len) buf' = drop (unat len) buf
    \<and> codec_cfg_parse len (Some buf') (Some old) = Some (True, Some (received c))"
proof -
  let ?n = "length (cfg_bytes c)" let ?buf = "cfg_bytes c @ drop ?n buf"
  have n: "0 < ?n" "?n \<le> 19" using assms(2) length_cfg_bytes by auto
  then have u: "unat (of_nat ?n :: u8) = ?n" by (simp add: unat_of_nat take_bit_nat_eq_self)
  have len: "(of_nat ?n :: u8) \<noteq> 0" "0 < (of_nat ?n :: u8)" "(of_nat ?n :: u8) \<le> 19"
    using n u by (auto simp: word_unat_eq_iff word_less_nat_alt word_le_nat_alt)
  have "codec_cfg_gen (Some l) (Some buf) (Some c) = Some (True, Some (of_nat ?n), Some ?buf)"
    using codec_cfg_gen_eq [of c buf l] n assms(3) by simp
  moreover have "codec_cfg_parse (of_nat ?n) (Some ?buf) (Some old) = Some (True, Some (received c))"
    using parse_received [OF refl assms(1), of "drop ?n buf"] len(1) u by (simp add: codec_cfg_parse_def)
  ultimately show ?thesis using len u n assms(3)
    by (intro exI [of _ "of_nat ?n"] exI [of _ ?buf]) simp
qed

lemma codec_cfg_roundtrip_witness:
  "\<exists>len buf'. codec_cfg_gen (Some 0) (Some (replicate 19 0)) (Some ((cfg_row 1 8 100)\<lparr>type_exist := 0x1F, audio_channel_allocation := 3\<rparr>))
      = Some (True, Some len, Some buf')
    \<and> codec_cfg_parse len (Some buf') (Some zero_cfg)
      = Some (True, Some ((cfg_row 1 8 100)\<lparr>type_exist := 0x1F, audio_channel_allocation := 3\<rparr>))"
proof -
  let ?c = "(cfg_row 1 8 100)\<lparr>type_exist := 0x1F, audio_channel_allocation := 3\<rparr>"
  have "received ?c = ?c" by (simp add: received_def sends_allocation_def cfg_row_def has_def)
  moreover have "cfg_ranges ?c" by (simp add: cfg_ranges_def cfg_row_def has_def)
  moreover have "cfg_bytes ?c \<noteq> []" by (simp add: cfg_bytes_def part_defs cfg_row_def has_def)
  ultimately show ?thesis using codec_cfg_roundtrip [of ?c "replicate 19 0" 0 zero_cfg] by auto
qed

section \<open>What a successful parse says\<close>

lemma ltv_loop_inv:
  assumes "n < length p" "I c"
    and "\<And>i l ty c. i < n \<Longrightarrow> I c \<Longrightarrow> \<exists>e c'. item p l ty (i + 1) c = Some (e, c') \<and> (e = 0 \<longrightarrow> I c')"
  shows "\<exists>e c'. ltv_loop item p n idx c = Some (e, c') \<and> (e = 0 \<longrightarrow> I c')"
  using assms(2)
proof (induction "n - idx" arbitrary: idx c rule: less_induct)
  case less
  show ?case
  proof (cases "idx < n")
    case False
    then show ?thesis using less.prems by (subst ltv_loop.simps) simp
  next
    case True
    let ?l = "unat (p ! idx)"
    obtain e c' where e: "item p ?l (p ! (idx + 1)) (idx + 1) c = Some (e, c')" "e = 0 \<longrightarrow> I c'"
      using assms(3) [OF True less.prems] by blast
    have step: "ltv_loop item p n idx c = (if e \<noteq> 0 then Some (e, c') else ltv_loop item p n (idx + 1 + ?l) c')"
      using True assms(1) e(1) by (subst ltv_loop.simps) (simp add: arr_simps)
    show ?thesis
    proof (cases "e = 0")
      case True
      have "n - (idx + 1 + ?l) < n - idx" using \<open>idx < n\<close> by linarith
      from less.hyps [OF this] e(2) True step show ?thesis by auto
    qed (use step in auto)
  qed
qed

text \<open>A field that is marked present is in range; a field that is not has its default.\<close>

definition cfg_sound :: "codec_cfg \<Rightarrow> bool" where
  "cfg_sound c \<longleftrightarrow>
     (if has (type_exist c) CFG_FREQ_EXIST then sample_frequency c \<noteq> 0 \<and> sample_frequency c \<le> 10 else sample_frequency c = 0)
   \<and> (if has (type_exist c) CFG_DURATION_EXIST then frame_duration c \<le> 3 else frame_duration c = 0)
   \<and> (if has (type_exist c) CFG_ALLOCATION_EXIST then audio_channel_allocation c OR AUDIO_LOCATION_MASK = AUDIO_LOCATION_MASK
      else audio_channel_allocation c = 0)
   \<and> (\<not> has (type_exist c) CFG_OCTETS_EXIST \<longrightarrow> octets_per_codec_frame c = 0)
   \<and> (if has (type_exist c) CFG_BLOCKS_EXIST then codec_frame_blocks_per_sdu c \<noteq> 0 else codec_frame_blocks_per_sdu c = 1)"

lemma has_or: "has (x OR y) m \<longleftrightarrow> has x m \<or> has y m"
  by (simp add: has_def bit.conj_disj_distrib2 or_eq_0_iff)

lemma has_flags:
  "has (1 :: u16) 1" "has (2 :: u16) 2" "has (4 :: u16) 4" "has (8 :: u16) 8" "has (0x10 :: u16) 0x10"
  "\<not> has (1 :: u16) 2" "\<not> has (1 :: u16) 4" "\<not> has (1 :: u16) 8" "\<not> has (1 :: u16) 0x10"
  "\<not> has (2 :: u16) 1" "\<not> has (2 :: u16) 4" "\<not> has (2 :: u16) 8" "\<not> has (2 :: u16) 0x10"
  "\<not> has (4 :: u16) 1" "\<not> has (4 :: u16) 2" "\<not> has (4 :: u16) 8" "\<not> has (4 :: u16) 0x10"
  "\<not> has (8 :: u16) 1" "\<not> has (8 :: u16) 2" "\<not> has (8 :: u16) 4" "\<not> has (8 :: u16) 0x10"
  "\<not> has (0x10 :: u16) 1" "\<not> has (0x10 :: u16) 2" "\<not> has (0x10 :: u16) 4" "\<not> has (0x10 :: u16) 8"
  "\<not> has (0x1000 :: u16) 1" "\<not> has (0x1000 :: u16) 2" "\<not> has (0x1000 :: u16) 4" "\<not> has (0x1000 :: u16) 8"
  "\<not> has (0x1000 :: u16) 0x10" "\<not> has (0 :: u16) m"
  by (simp_all add: has_def)

lemma le16_total: "i + 1 < length p \<Longrightarrow> \<exists>x. le16 p i = Some x"
  by (simp add: le16_def arr_simps)

lemma le32_total: "i + 3 < length p \<Longrightarrow> \<exists>x. le32 p i = Some x"
  by (simp add: le32_def arr_simps)

lemma cfg_item_sound:
  assumes "i < n" "n + 5 \<le> length p" "cfg_sound c"
  shows "\<exists>e c'. cfg_item p l ty (i + 1) c = Some (e, c') \<and> (e = 0 \<longrightarrow> cfg_sound c')"
proof -
  have g: "arr_get p (i + 1 + 1) = Some (p ! (i + 2))" using assms(1,2) by (simp add: arr_simps)
  obtain a where a: "le32 p (i + 1 + 1) = Some a" using le32_total [of "i + 1 + 1" p] assms(1,2) by auto
  obtain b where b: "le16 p (i + 1 + 1) = Some b" using le16_total [of "i + 1 + 1" p] assms(1,2) by auto
  show ?thesis
    using assms(3) unfolding cfg_item_def g a b
    by (simp add: Let_def) (auto simp: cfg_sound_def has_or has_flags not_less)
qed

text \<open>C36: With at least five readable bytes behind the value the parser always ends, and when it accepts, every
  field it marks present is in range and every other one has its default. Without them it may read past
  the buffer: a value that is a lone length byte makes it do so.\<close>

theorem codec_cfg_parse_sound:
  assumes "unat len + 5 \<le> length p"
  shows "(\<exists>ok c. codec_cfg_parse len (Some p) (Some old) = Some (ok, Some c) \<and> (ok \<longrightarrow> cfg_sound c))
    \<and> codec_cfg_parse 1 (Some [x]) (Some old) = None"
proof
  have "cfg_sound (zero_cfg\<lparr>codec_frame_blocks_per_sdu := 1\<rparr>)"
    by (simp add: cfg_sound_def zero_cfg_def has_flags)
  then have "\<exists>e c'. ltv_loop cfg_item p (unat len) 0 (zero_cfg\<lparr>codec_frame_blocks_per_sdu := 1\<rparr>) = Some (e, c')
      \<and> (e = 0 \<longrightarrow> cfg_sound c')"
    using ltv_loop_inv [of "unat len" p cfg_sound _ cfg_item 0] cfg_item_sound assms by auto
  then show "\<exists>ok c. codec_cfg_parse len (Some p) (Some old) = Some (ok, Some c) \<and> (ok \<longrightarrow> cfg_sound c)"
    by (auto simp: codec_cfg_parse_def)
  show "codec_cfg_parse 1 (Some [x]) (Some old) = None"
    by (simp add: codec_cfg_parse_def ltv_loop.simps arr_simps)
qed

lemma codec_cfg_parse_sound_witness:
  "\<exists>ok c. codec_cfg_parse 3 (Some [2, 1, 8, 0, 0, 0, 0, 0]) (Some zero_cfg) = Some (ok, Some c) \<and> (ok \<longrightarrow> cfg_sound c)"
  using codec_cfg_parse_sound [of 3 "[2, 1, 8, 0, 0, 0, 0, 0]" zero_cfg] by simp

section \<open>The check against a capability\<close>

lemma and_single: "w AND push_bit k 1 = 0 \<longleftrightarrow> \<not> bit w k" for w :: "'a::len word"
  using bit_iff_and_push_bit_not_eq_0 [of w k] by blast

lemma and_bits:
  "w AND 1 = 0 \<longleftrightarrow> \<not> bit w 0" "w AND 2 = 0 \<longleftrightarrow> \<not> bit w 1" "w AND 4 = 0 \<longleftrightarrow> \<not> bit w 2" "w AND 8 = 0 \<longleftrightarrow> \<not> bit w 3"
  for w :: u8
  using and_single [of w 0] and_single [of w 1] and_single [of w 2] and_single [of w 3] by simp_all

text \<open>The number of channels the code counts with: none when there is no allocation.\<close>

definition counted_channels :: "codec_cfg \<Rightarrow> nat" where
  "counted_channels cfg = (if has (type_exist cfg) CFG_ALLOCATION_EXIST then max 1 (popcount (audio_channel_allocation cfg)) else 0)"

definition cap_allows :: "codec_cap \<Rightarrow> codec_cfg \<Rightarrow> bool" where
  "cap_allows cap cfg \<longleftrightarrow>
     (has (type_exist cfg) CFG_FREQ_EXIST \<longrightarrow> has (cap_exist cap) CAP_FREQ_EXIST
        \<and> bit (supported_sampling_frequencies cap) (unat (sample_frequency cfg) - 1))
   \<and> (has (type_exist cfg) CFG_DURATION_EXIST \<longrightarrow> has (cap_exist cap) CAP_DURATION_EXIST
        \<and> bit (supported_frame_durations cap) (unat (frame_duration cfg)))
   \<and> (has (type_exist cfg) CFG_ALLOCATION_EXIST \<longrightarrow> has (cap_exist cap) CAP_CHANNELS_EXIST
        \<and> bit (audio_channel_counts cap) (counted_channels cfg - 1))
   \<and> (has (type_exist cfg) CFG_OCTETS_EXIST \<and> has (cap_exist cap) CAP_OCTETS_EXIST \<longrightarrow>
        min_octets_per_codec_frame cap \<le> octets_per_codec_frame cfg
        \<and> octets_per_codec_frame cfg \<le> max_octets_per_codec_frame cap)
   \<and> (has (type_exist cfg) CFG_BLOCKS_EXIST \<longrightarrow>
        (if has (cap_exist cap) CAP_FRAMES_EXIST
         then counted_channels cfg * unat (codec_frame_blocks_per_sdu cfg) mod 256 \<le> unat (max_supported_codec_frames_per_sdu cap)
         else codec_frame_blocks_per_sdu cfg \<le> 1))"

lemma duration_cases: "d \<le> 3 \<Longrightarrow> d = 0 \<or> d = 1 \<or> d = 2 \<or> d = (3 :: u8)"
proof -
  assume "d \<le> 3"
  then have "unat d \<le> 3" by (simp add: word_le_nat_alt)
  then have "unat d = 0 \<or> unat d = 1 \<or> unat d = 2 \<or> unat d = 3" by linarith
  then show ?thesis by (auto simp: word_unat_eq_iff)
qed

lemma frames_wrap: "((of_nat n :: u8) * b > m) \<longleftrightarrow> \<not> n * unat b mod 256 \<le> unat m"
  by (simp add: word_less_nat_alt unat_word_ariths unat_of_nat take_bit_eq_mod not_le mod_simps)

lemma check_cap_eq:
  assumes "cfg_sound cfg"
  shows "codec_cfg_check_cap (Some cap) (Some cfg) = Some (cap_allows cap cfg)"
proof -
  let ?f = "unat (sample_frequency cfg)" and ?ch = "popcount (audio_channel_allocation cfg)"
  have f: "sample_frequency cfg \<noteq> 0 \<and> ?f - 1 < 31" if "has (type_exist cfg) CFG_FREQ_EXIST"
    using assms that by (auto simp: cfg_sound_def word_le_nat_alt)
  let ?E1 = "if has (type_exist cfg) CFG_FREQ_EXIST then if has (cap_exist cap) CAP_FREQ_EXIST
      then if bit (supported_sampling_frequencies cap) (?f - 1) then 0 else 2 else 3 else 0 :: nat"
  have e1: "(if has (type_exist cfg) CFG_FREQ_EXIST then
       (if has (cap_exist cap) CAP_FREQ_EXIST then
          (if sample_frequency cfg = 0 \<or> ?f - 1 \<ge> 31 then None
           else Some (if \<not> bit (supported_sampling_frequencies cap) (?f - 1) then 2 else 0))
        else Some (3 :: nat))
     else Some 0) = Some ?E1"
    using f by (cases "has (type_exist cfg) CFG_FREQ_EXIST") simp_all
  have step: "((if e \<noteq> 0 then e else x) = 0) = (e = 0 \<and> x = 0)" for e x :: nat
    by simp
  have e2: "(if frame_duration cfg = 0 \<and> supported_frame_durations cap AND 0x01 = 0 then 4
       else if frame_duration cfg = 1 \<and> supported_frame_durations cap AND 0x02 = 0 then 5
       else if frame_duration cfg = 2 \<and> supported_frame_durations cap AND 0x04 = 0 then 12
       else if frame_duration cfg = 3 \<and> supported_frame_durations cap AND 0x08 = 0 then 13 else (0 :: nat)) = 0
     \<longleftrightarrow> bit (supported_frame_durations cap) (unat (frame_duration cfg))" if "has (type_exist cfg) CFG_DURATION_EXIST"
  proof -
    have "frame_duration cfg \<le> 3" using assms that by (simp add: cfg_sound_def)
    then show ?thesis by (elim duration_cases [THEN disjE] disjE) (simp_all add: and_bits)
  qed
  have ch: "(if has (type_exist cfg) CFG_ALLOCATION_EXIST then (if ?ch = 0 then 1 else ?ch) else 0) = counted_channels cfg"
    by (simp add: counted_channels_def)
  have c1: "?E1 = 0 \<longleftrightarrow> (has (type_exist cfg) CFG_FREQ_EXIST \<longrightarrow> has (cap_exist cap) CAP_FREQ_EXIST
      \<and> bit (supported_sampling_frequencies cap) (?f - 1))" by simp
  have c2: "(if has (type_exist cfg) CFG_DURATION_EXIST then
       (if has (cap_exist cap) CAP_DURATION_EXIST then
          (if frame_duration cfg = 0 \<and> supported_frame_durations cap AND 0x01 = 0 then 4
           else if frame_duration cfg = 1 \<and> supported_frame_durations cap AND 0x02 = 0 then 5
           else if frame_duration cfg = 2 \<and> supported_frame_durations cap AND 0x04 = 0 then 12
           else if frame_duration cfg = 3 \<and> supported_frame_durations cap AND 0x08 = 0 then 13 else 0)
        else 6) else (0 :: nat)) = 0
     \<longleftrightarrow> (has (type_exist cfg) CFG_DURATION_EXIST \<longrightarrow> has (cap_exist cap) CAP_DURATION_EXIST
          \<and> bit (supported_frame_durations cap) (unat (frame_duration cfg)))"
    using e2 by (cases "has (type_exist cfg) CFG_DURATION_EXIST"; cases "has (cap_exist cap) CAP_DURATION_EXIST") simp_all
  have m: "codec_cfg_check_cap (Some cap) (Some cfg) = Some (?E1 = 0
      \<and> (has (type_exist cfg) CFG_DURATION_EXIST \<longrightarrow> has (cap_exist cap) CAP_DURATION_EXIST
          \<and> bit (supported_frame_durations cap) (unat (frame_duration cfg)))
      \<and> (if has (type_exist cfg) CFG_ALLOCATION_EXIST then
           (if has (cap_exist cap) CAP_CHANNELS_EXIST then
              (if \<not> bit (audio_channel_counts cap) (counted_channels cfg - 1) then 7 else 0) else 8) else (0 :: nat)) = 0
      \<and> (if has (type_exist cfg) CFG_OCTETS_EXIST \<and> has (cap_exist cap) CAP_OCTETS_EXIST
           \<and> (octets_per_codec_frame cfg < min_octets_per_codec_frame cap
              \<or> octets_per_codec_frame cfg > max_octets_per_codec_frame cap) then 9 else (0 :: nat)) = 0
      \<and> (if has (type_exist cfg) CFG_BLOCKS_EXIST then
           (if has (cap_exist cap) CAP_FRAMES_EXIST then
              (if \<not> counted_channels cfg * unat (codec_frame_blocks_per_sdu cfg) mod 256 \<le> unat (max_supported_codec_frames_per_sdu cap)
               then 10 else 0)
            else (if codec_frame_blocks_per_sdu cfg > 1 then 11 else 0)) else (0 :: nat)) = 0)"
    unfolding codec_cfg_check_cap_def Let_def option.case prod.case ch and_single
    unfolding e1 bind.bind_lunit step c2 frames_wrap conj_assoc by (rule refl)
  show ?thesis unfolding m cap_allows_def c1 by (auto simp: not_less)
qed

text \<open>C35: For a configuration as the parser returns it the check never shifts out of range and decides exactly
  \<open>cap_allows\<close>. The last clause is what the code does and not what it means to do: the number of frames
  is computed in a \<open>uint8_t\<close>, and without a channel allocation no channel is counted, so that any
  number of blocks passes.\<close>

theorem codec_check_decides:
  assumes "codec_cfg_parse len (Some p) (Some old) = Some (True, Some cfg)" "unat len + 5 \<le> length p"
  shows "codec_cfg_check_cap (Some cap) (Some cfg) = Some (cap_allows cap cfg)
    \<and> (type_exist cfg = CFG_BLOCKS_EXIST \<and> has (cap_exist cap) CAP_FRAMES_EXIST
       \<longrightarrow> codec_cfg_check_cap (Some cap) (Some cfg) = Some True)"
proof -
  have "cfg_sound (zero_cfg\<lparr>codec_frame_blocks_per_sdu := 1\<rparr>)"
    by (simp add: cfg_sound_def zero_cfg_def has_flags)
  then have "\<exists>e c'. ltv_loop cfg_item p (unat len) 0 (zero_cfg\<lparr>codec_frame_blocks_per_sdu := 1\<rparr>) = Some (e, c')
      \<and> (e = 0 \<longrightarrow> cfg_sound c')"
    using ltv_loop_inv [of "unat len" p cfg_sound _ cfg_item 0] cfg_item_sound assms(2) by auto
  then have "cfg_sound cfg" using assms(1) by (auto simp: codec_cfg_parse_def split: if_splits)
  then show ?thesis by (simp add: check_cap_eq cap_allows_def counted_channels_def has_flags)
qed

lemma codec_check_decides_witness:
  "codec_cfg_check_cap (Some (zero_cap\<lparr>cap_exist := CAP_FRAMES_EXIST, max_supported_codec_frames_per_sdu := 1\<rparr>))
     (Some (zero_cfg\<lparr>type_exist := CFG_BLOCKS_EXIST, codec_frame_blocks_per_sdu := 200\<rparr>)) = Some True"
proof -
  have "codec_cfg_parse 3 (Some [2, 5, 200, 0, 0, 0, 0, 0]) (Some zero_cfg) =
      Some (True, Some (zero_cfg\<lparr>type_exist := CFG_BLOCKS_EXIST, codec_frame_blocks_per_sdu := 200\<rparr>))"
    by (simp add: codec_cfg_parse_def ltv_loop.simps arr_simps cfg_item_def zero_cfg_def)
  from codec_check_decides [OF this, THEN conjunct2, THEN mp] show ?thesis by (simp add: has_flags)
qed

section \<open>The table of preferred configurations\<close>

definition octets_fit :: "codec_cap \<Rightarrow> nat \<Rightarrow> bool" where
  "octets_fit cap i \<longleftrightarrow> min_octets_per_codec_frame cap \<le> octets_per_codec_frame (lc3_codec_cfg ! i)
     \<and> octets_per_codec_frame (lc3_codec_cfg ! i) \<le> max_octets_per_codec_frame cap"

lemma length_table: "length lc3_codec_cfg = 16"
  by (simp add: lc3_codec_cfg_def)

lemma bits_loop_eq:
  assumes "\<forall>j. bit m j \<longrightarrow> idx + j < 16"
  shows "\<exists>r. bits_loop cap m idx s = Some r
    \<and> (\<forall>i. bit r i \<longleftrightarrow> bit s i \<or> idx \<le> i \<and> bit m (i - idx) \<and> octets_fit cap i)"
  using assms
proof (induction cap m idx s rule: bits_loop.induct)
  case (1 cap m idx s)
  show ?case
  proof (cases "m = 0")
    case True
    then show ?thesis by (subst bits_loop.simps) simp
  next
    case False
    define s' where "s' = (if bit m 0 \<and> octets_fit cap idx then s OR push_bit idx 1 else s)"
    have m1: "m AND 1 \<noteq> 0 \<longleftrightarrow> bit m 0" using and_single [of m 0] by simp
    have i16: "bit m 0 \<Longrightarrow> idx < 16" using "1.prems" by (metis add_0_right)
    have "(if m AND 1 \<noteq> 0 then do {
        t \<leftarrow> arr_get lc3_codec_cfg idx;
        Some (if min_octets_per_codec_frame cap \<le> octets_per_codec_frame t
                \<and> max_octets_per_codec_frame cap \<ge> octets_per_codec_frame t
              then s OR push_bit idx 1 else s)
      } else Some s) = Some s'"
      using i16 by (simp add: m1 s'_def octets_fit_def arr_simps length_table)
    note st = this
    have dm: "bit (drop_bit 1 m) j \<longleftrightarrow> bit m (Suc j)" for j by (simp add: bit_drop_bit_eq)
    have b: "\<forall>j. bit (drop_bit 1 m) j \<longrightarrow> idx + 1 + j < 16"
    proof (intro allI impI)
      fix j assume "bit (drop_bit 1 m) j"
      then have "idx + Suc j < 16" using "1.prems" dm by blast
      then show "idx + 1 + j < 16" by simp
    qed
    obtain r where r: "bits_loop cap (drop_bit 1 m) (idx + 1) s' = Some r"
        "\<forall>i. bit r i \<longleftrightarrow> bit s' i \<or> idx + 1 \<le> i \<and> bit (drop_bit 1 m) (i - (idx + 1)) \<and> octets_fit cap i"
      using "1.IH" [OF False st b] by blast
    have s': "bit s' i \<longleftrightarrow> bit s i \<or> i = idx \<and> bit m 0 \<and> octets_fit cap i" for i
      using i16 by (auto simp: s'_def bit_simps)
    have "bit r i \<longleftrightarrow> bit s i \<or> idx \<le> i \<and> bit m (i - idx) \<and> octets_fit cap i" for i
    proof (cases "idx < i")
      case True
      then have "i - idx = Suc (i - (idx + 1))" by simp
      then show ?thesis using r(2) s' dm True by (metis Suc_eq_plus1 Suc_leI less_imp_le nat_neq_iff)
    next
      case False
      then show ?thesis using r(2) s' by (cases "i = idx") auto
    qed
    moreover have "bits_loop cap m idx s = bits_loop cap (drop_bit 1 m) (idx + 1) s'"
      using False st by (subst bits_loop.simps) simp
    ultimately show ?thesis using r(1) by simp
  qed
qed

lemma table_rows:
  "lc3_codec_cfg ! 0 = cfg_row 0 1 26" "lc3_codec_cfg ! Suc 0 = cfg_row 1 1 30" "lc3_codec_cfg ! 2 = cfg_row 0 3 30"
  "lc3_codec_cfg ! 3 = cfg_row 1 3 40" "lc3_codec_cfg ! 4 = cfg_row 0 5 45" "lc3_codec_cfg ! 5 = cfg_row 1 5 60"
  "lc3_codec_cfg ! 6 = cfg_row 0 6 60" "lc3_codec_cfg ! 7 = cfg_row 1 6 80" "lc3_codec_cfg ! 8 = cfg_row 0 7 97"
  "lc3_codec_cfg ! 9 = cfg_row 1 7 130" "lc3_codec_cfg ! 10 = cfg_row 0 8 75" "lc3_codec_cfg ! 11 = cfg_row 1 8 100"
  "lc3_codec_cfg ! 12 = cfg_row 0 8 90" "lc3_codec_cfg ! 13 = cfg_row 1 8 120" "lc3_codec_cfg ! 14 = cfg_row 0 8 117"
  "lc3_codec_cfg ! 15 = cfg_row 1 8 155"
  by (simp_all add: lc3_codec_cfg_def)

lemma below16: "(i :: nat) < 16 \<longleftrightarrow> i \<in> {0, 1, 2, 3, 4, 5, 6, 7, 8, 9, 10, 11, 12, 13, 14, 15}"
  unfolding insert_iff empty_iff by presburger

lemma and_freq:
  "w AND 1 = 0 \<longleftrightarrow> \<not> bit w 0" "w AND 4 = 0 \<longleftrightarrow> \<not> bit w 2" "w AND 0x10 = 0 \<longleftrightarrow> \<not> bit w 4"
  "w AND 0x20 = 0 \<longleftrightarrow> \<not> bit w 5" "w AND 0x40 = 0 \<longleftrightarrow> \<not> bit w 6" "w AND 0x80 = 0 \<longleftrightarrow> \<not> bit w 7"
  for w :: u16
  using and_single [of w 0] and_single [of w 2] and_single [of w 4] and_single [of w 5] and_single [of w 6]
    and_single [of w 7] by simp_all

text \<open>Which rows the masks select, against the frequency and the duration the rows themselves have.\<close>

lemma sample_masks_row:
  "i < 16 \<Longrightarrow> bit (sample_masks f) i \<longleftrightarrow> bit f (unat (sample_frequency (lc3_codec_cfg ! i)) - 1)"
  unfolding below16 by (elim insertE) (simp_all add: table_rows sample_masks_def cfg_row_def and_freq bit_or_iff)

lemma duration_masks_row:
  "i < 16 \<Longrightarrow> bit (duration_masks d) i \<longleftrightarrow> bit d (unat (frame_duration (lc3_codec_cfg ! i)))"
  unfolding below16 by (elim insertE) (simp_all add: table_rows duration_masks_def cfg_row_def and_bits bit_or_iff)

lemma masks_small: "bit (sample_masks f) i \<Longrightarrow> i < 16"
proof (rule ccontr)
  assume b: "bit (sample_masks f) i" "\<not> i < 16"
  have "sample_masks f = take_bit 16 (sample_masks f)" by (simp add: sample_masks_def)
  then show False using b by (metis bit_take_bit_iff)
qed

lemma row_flags: "i < 16 \<Longrightarrow> type_exist (lc3_codec_cfg ! i) = 0x1B \<and> codec_frame_blocks_per_sdu (lc3_codec_cfg ! i) = 1
    \<and> cfg_sound (lc3_codec_cfg ! i)"
  unfolding below16 by (elim insertE) (simp_all add: table_rows cfg_row_def cfg_sound_def has_def)

text \<open>C34: For a capability that states its range of octets the bit mask of supported rows is the table filtered by
  the check: bit \<open>i\<close> is set exactly when the check accepts row \<open>i\<close>.\<close>

theorem codec_bits_agree:
  assumes "has (cap_exist cap) CAP_OCTETS_EXIST"
  shows "\<exists>bits. codec_cap_get_cfg_bits (Some old) (Some cap) = Some (True, Some bits)
    \<and> (\<forall>i. bit bits i \<longleftrightarrow> i < 16 \<and> codec_cfg_check_cap (Some cap) (Some (lc3_codec_cfg ! i)) = Some True)"
proof -
  let ?sm = "if has (cap_exist cap) CAP_FREQ_EXIST then sample_masks (supported_sampling_frequencies cap) else 0"
  let ?dm = "if has (cap_exist cap) CAP_DURATION_EXIST then duration_masks (supported_frame_durations cap) else 0"
  have small: "bit (?sm AND ?dm) j \<Longrightarrow> j < 16" for j using masks_small by (auto simp: bit_and_iff split: if_splits)
  obtain r where r: "bits_loop cap (?sm AND ?dm) 0 0 = Some r"
      "\<forall>i. bit r i \<longleftrightarrow> bit (?sm AND ?dm) i \<and> octets_fit cap i"
    using bits_loop_eq [of "?sm AND ?dm" 0 cap 0] small by auto
  have "bit r i \<longleftrightarrow> i < 16 \<and> codec_cfg_check_cap (Some cap) (Some (lc3_codec_cfg ! i)) = Some True" for i
  proof (cases "i < 16")
    case False
    then show ?thesis using r(2) small by blast
  next
    case True
    note row = row_flags [OF True]
    have fl: "has (0x1B :: u16) 1" "has (0x1B :: u16) 2" "\<not> has (0x1B :: u16) 4" "has (0x1B :: u16) 8" "has (0x1B :: u16) 0x10"
      by (simp_all add: has_def)
    have "cap_allows cap (lc3_codec_cfg ! i) \<longleftrightarrow> bit ?sm i \<and> bit ?dm i \<and> octets_fit cap i"
      using sample_masks_row [OF True] duration_masks_row [OF True] row assms(1)
      by (auto simp: cap_allows_def fl counted_channels_def octets_fit_def)
    then show ?thesis using r(2) True check_cap_eq [of "lc3_codec_cfg ! i" cap] row by (simp add: bit_and_iff)
  qed
  then show ?thesis using r(1) by (simp add: codec_cap_get_cfg_bits_def)
qed

lemma codec_bits_agree_witness:
  "\<exists>bits. codec_cap_get_cfg_bits (Some 0) (Some (zero_cap\<lparr>cap_exist := 0x0B, supported_sampling_frequencies := 0x80,
        supported_frame_durations := 2, min_octets_per_codec_frame := 26, max_octets_per_codec_frame := 120\<rparr>)) = Some (True, Some bits)
    \<and> bit bits 13 \<and> \<not> bit bits 15"
proof -
  let ?cap = "zero_cap\<lparr>cap_exist := 0x0B, supported_sampling_frequencies := 0x80,
      supported_frame_durations := 2, min_octets_per_codec_frame := 26, max_octets_per_codec_frame := 120\<rparr>"
  have "has (cap_exist ?cap) CAP_OCTETS_EXIST" by (simp add: has_def)
  from codec_bits_agree [OF this, of 0] obtain bits where b: "codec_cap_get_cfg_bits (Some 0) (Some ?cap) = Some (True, Some bits)"
      "\<forall>i. bit bits i \<longleftrightarrow> i < 16 \<and> codec_cfg_check_cap (Some ?cap) (Some (lc3_codec_cfg ! i)) = Some True" by blast
  have "codec_cfg_check_cap (Some ?cap) (Some (lc3_codec_cfg ! 13)) = Some True"
    "codec_cfg_check_cap (Some ?cap) (Some (lc3_codec_cfg ! 15)) = Some False"
    by (simp_all add: codec_cfg_check_cap_def table_rows cfg_row_def has_def zero_cap_def Let_def)
  then show ?thesis using b by simp
qed

section \<open>The least common multiple is right and found\<close>

lemma lcm_loop_eq:
  assumes "0 < v1" "0 < v2" "lcm v1 v2 < 2 ^ 32" "0 < i" "v1 * i \<le> lcm v1 v2"
  shows "lcm_loop v1 v2 i = Some (lcm v1 v2)"
  using assms(4,5)
proof (induction "lcm v1 v2 - v1 * i" arbitrary: i rule: less_induct)
  case less
  have m: "v1 * i mod 2 ^ 32 = v1 * i" using less.prems(2) assms(3) by simp
  show ?case
  proof (cases "v2 dvd v1 * i")
    case True
    then have "lcm v1 v2 \<le> v1 * i" using less.prems(1) assms(1) by (intro dvd_imp_le lcm_least) simp_all
    then have "v1 * i = lcm v1 v2" using less.prems(2) by simp
    then show ?thesis using True assms(3) by (subst lcm_loop.simps) (simp add: m)
  next
    case False
    then have ne: "v1 * i \<noteq> lcm v1 v2" by (metis dvd_lcm2)
    have "v1 dvd lcm v1 v2 - v1 * i" by (simp add: dvd_diff_nat)
    then have "v1 \<le> lcm v1 v2 - v1 * i" using ne less.prems(2) by (intro dvd_imp_le) simp_all
    then have le: "v1 * (i + 1) \<le> lcm v1 v2" using less.prems(2) by simp
    have "1 * (i + 1) \<le> v1 * (i + 1)" by (rule mult_le_mono1) (use assms(1) in simp)
    then have "i + 1 \<le> v1 * (i + 1)" by simp
    then have "(i + 1) mod 2 ^ 32 = i + 1" using le assms(3) by simp
    moreover have "v1 * i mod 2 ^ 32 mod v2 \<noteq> 0" unfolding m using False by (simp add: dvd_eq_mod_eq_0)
    moreover have "lcm_loop v1 v2 (i + 1) = Some (lcm v1 v2)"
      by (rule less.hyps) (use le assms(1) in auto)
    ultimately show ?thesis by (subst lcm_loop.simps) simp
  qed
qed

lemma lcm_total:
  assumes "lcm (unat a) (unat b) < 2 ^ 32"
  shows "\<exists>r. least_common_multiple a b = Some r \<and> unat r = lcm (unat a) (unat b)"
proof (cases "a = 0 \<or> b = 0")
  case True
  then show ?thesis by (auto simp: least_common_multiple_def)
next
  case False
  then have pos: "0 < unat a" "0 < unat b" by (simp_all add: unat_gt_0)
  have "unat a dvd lcm (unat a) (unat b)" by simp
  then have "unat a * 1 \<le> lcm (unat a) (unat b)" using pos lcm_pos_nat [OF pos] by (simp add: dvd_imp_le)
  then have "lcm_loop (unat a) (unat b) 1 = Some (lcm (unat a) (unat b))" using lcm_loop_eq [OF pos assms] by simp
  then show ?thesis using False assms
    by (simp add: least_common_multiple_def unat_of_nat take_bit_nat_eq_self)
qed

text \<open>C37: The loop for the least common multiple ends and its result is the least common multiple whenever that
  fits in 32 bits; with a zero it is zero.\<close>

theorem lcm_found:
  assumes "lcm (unat a) (unat b) < 2 ^ 32"
  shows "\<exists>r. least_common_multiple a b = Some r \<and> unat r = lcm (unat a) (unat b)"
  by (rule lcm_total [OF assms])

lemma lcm_found_witness: "\<exists>r. least_common_multiple 7500 10000 = Some r \<and> unat r = 30000"
proof -
  have "lcm (7500 :: nat) 10000 = 30000" by (simp add: lcm_nat_def gcd_nat.simps gcd_red_nat)
  then show ?thesis using lcm_found [of 7500 10000] by simp
qed

section \<open>What the metadata check accepts\<close>

fun md_encode :: "(u8 \<times> u8 list) list \<Rightarrow> u8 list" where
  "md_encode [] = []"
| "md_encode ((ty, v) # items) = of_nat (Suc (length v)) # ty # v @ md_encode items"

fun md_valid :: "u8 \<times> u8 list \<Rightarrow> bool" where
  "md_valid (ty, v) \<longleftrightarrow> length v < 255 \<and>
     (ty = 0x01 \<and> length v = 2
    \<or> ty = 0x02 \<and> length v = 2 \<and> (\<exists>c. le16 v 0 = Some c \<and> c OR AUDIO_CONTEXT_MASK = AUDIO_CONTEXT_MASK \<and> c \<noteq> 0)
    \<or> ty = 0xFF \<and> 3 \<le> length v
    \<or> ty = 0x05)"

fun md_contexts :: "(u8 \<times> u8 list) list \<Rightarrow> u16 \<Rightarrow> u16" where
  "md_contexts [] c = c"
| "md_contexts ((ty, v) # items) c = md_contexts items (if ty = 0x02 then the (le16 v 0) else c)"

lemma le16_cong: "drop i p = v @ ys \<Longrightarrow> 2 \<le> length v \<Longrightarrow> le16 p i = le16 v 0"
proof -
  assume a: "drop i p = v @ ys" "2 \<le> length v"
  then obtain x y r where v: "v = x # y # r" by (cases v; cases "tl v") auto
  then have d: "drop i p = x # y # r @ ys" using a(1) by simp
  show ?thesis using arr_get_drop [OF d, of 0] arr_get_drop [OF d, of 1] by (simp add: le16_def v arr_simps)
qed

lemma context_mask: "c OR AUDIO_CONTEXT_MASK = AUDIO_CONTEXT_MASK \<Longrightarrow> c AND AUDIO_CONTEXT_MASK = c"
proof -
  assume m: "c OR AUDIO_CONTEXT_MASK = AUDIO_CONTEXT_MASK"
  have "c AND (c OR m) = c" for m :: u16 by (rule bit_eqI) (auto simp: bit_and_iff bit_or_iff)
  from this [of AUDIO_CONTEXT_MASK] show ?thesis unfolding m .
qed

definition md_ok :: "u8 list \<Rightarrow> nat \<Rightarrow> nat \<Rightarrow> u8 \<Rightarrow> bool" where
  "md_ok p i l ty \<longleftrightarrow> ty = 0x01 \<and> l = 3
    \<or> ty = 0x02 \<and> l = 3 \<and> (\<exists>c. le16 p i = Some c \<and> c OR AUDIO_CONTEXT_MASK = AUDIO_CONTEXT_MASK \<and> c \<noteq> 0)
    \<or> ty = 0xFF \<and> 4 \<le> l \<or> ty = 0x05 \<and> 1 \<le> l"

lemma metadata_item_eq:
  assumes "idx + 2 < length p"
  shows "\<exists>out'. metadata_item p l ty idx out = Some (md_ok p (idx + 1) l ty, out')
    \<and> (md_ok p (idx + 1) l ty \<longrightarrow> audio_contexts out' = (if ty = 0x02 then the (le16 p (idx + 1)) else audio_contexts out)
         \<and> resp_code out' = resp_code out)
    \<and> (\<not> md_ok p (idx + 1) l ty \<longrightarrow> resp_code out' \<in> {ASE_CP_RESP_UNSUPPORTED_METADATA, ASE_CP_RESP_REJECTED_METADATA, ASE_CP_RESP_INVALID_METADATA})"
proof -
  obtain c where c: "le16 p (idx + 1) = Some c" using le16_total [of "idx + 1" p] assms by auto
  have m: "c OR AUDIO_CONTEXT_MASK \<noteq> AUDIO_CONTEXT_MASK \<or> c AND AUDIO_CONTEXT_MASK = 0
      \<longleftrightarrow> \<not> (c OR AUDIO_CONTEXT_MASK = AUDIO_CONTEXT_MASK \<and> c \<noteq> 0)"
    using context_mask [of c] by auto
  show ?thesis unfolding metadata_item_def md_ok_def c Let_def bind.bind_lunit m by (simp add: not_less Suc_le_eq) auto
qed

lemma md_split:
  assumes "md_valid (ty, v)" "drop i p = of_nat (Suc (length v)) # ty # v @ ys"
  shows "unat (p ! i) = Suc (length v)" "p ! (i + 1) = ty" "md_ok p (i + 2) (Suc (length v)) ty"
    "ty = 0x02 \<Longrightarrow> le16 p (i + 2) = le16 v 0" "drop (i + 2 + length v) p = ys" "i + 1 < length p"
proof -
  have len: "length v < 255" using assms(1) by simp
  have len_p: "i + 1 < length p" using arg_cong [OF assms(2), of length] by simp
  then show "i + 1 < length p" .
  show "p ! (i + 1) = ty" using arr_get_drop [OF assms(2), of 1] len_p by (simp add: arr_simps)
  have "p ! i = of_nat (Suc (length v))" using arr_get_drop [OF assms(2), of 0] len_p by (simp add: arr_simps)
  then show "unat (p ! i) = Suc (length v)" using len by (simp add: unat_of_nat take_bit_nat_eq_self del: of_nat_Suc)
  have d: "drop (i + 2) p = v @ ys" using drop_more [of i p "[of_nat (Suc (length v)), ty]"] assms(2) by simp
  then show "drop (i + 2 + length v) p = ys" by (rule drop_more)
  show "ty = 0x02 \<Longrightarrow> le16 p (i + 2) = le16 v 0" using assms(1) le16_cong [OF d] by simp
  show "md_ok p (i + 2) (Suc (length v)) ty" using assms(1) le16_cong [OF d] by (auto simp: md_ok_def)
qed

lemma md_join:
  assumes "md_ok p (i + 2) (unat (p ! i)) (p ! (i + 1))" "i + 1 + unat (p ! i) \<le> length p" "i + 1 < length p"
  defines "v \<equiv> take (unat (p ! i) - 1) (drop (i + 2) p)"
  shows "md_valid (p ! (i + 1), v)" "drop i p = of_nat (Suc (length v)) # p ! (i + 1) # v @ drop (i + 1 + unat (p ! i)) p"
    "length v = unat (p ! i) - 1" "0 < unat (p ! i)"
proof -
  let ?l = "unat (p ! i)"
  show pos: "0 < ?l" using assms(1) by (auto simp: md_ok_def)
  have lt: "?l < 256" using unsigned_less [of "p ! i"] by simp
  show lv: "length v = ?l - 1" using assms(2) pos by (simp add: v_def)
  have c: "drop i p = p ! i # p ! (i + 1) # drop (i + 2) p"
    using assms(3) by (simp add: Cons_nth_drop_Suc [symmetric])
  have s: "drop (i + 2) p = v @ drop (i + 1 + ?l) p"
  proof -
    have "drop (i + 1 + ?l) p = drop (?l - 1) (drop (i + 2) p)" using pos by (simp add: add.commute)
    then show ?thesis unfolding v_def by (simp only: append_take_drop_id)
  qed
  have "of_nat (Suc (length v)) = p ! i" using lv pos by simp
  then show "drop i p = of_nat (Suc (length v)) # p ! (i + 1) # v @ drop (i + 1 + ?l) p" using c s by simp
  have "2 \<le> length v \<Longrightarrow> le16 p (i + 2) = le16 v 0" using le16_cong [OF s] .
  then show "md_valid (p ! (i + 1), v)" using assms(1) lv lt pos by (auto simp: md_ok_def) metis+
qed

lemma metadata_loop_eq:
  assumes "n + 256 \<le> 2 ^ 16" "n + 4 \<le> length p"
  shows "\<exists>ok out'. metadata_loop p n idx out = Some (ok, out')
    \<and> (ok \<longleftrightarrow> idx \<le> n \<and> (\<exists>items. take (n - idx) (drop idx p) = md_encode items \<and> list_all md_valid items))
    \<and> (\<forall>items. ok \<and> take (n - idx) (drop idx p) = md_encode items \<and> list_all md_valid items
         \<longrightarrow> audio_contexts out' = md_contexts items (audio_contexts out))
    \<and> (if ok then resp_code out' = resp_code out
       else resp_code out' \<in> {ASE_CP_RESP_UNSUPPORTED_METADATA, ASE_CP_RESP_REJECTED_METADATA, ASE_CP_RESP_INVALID_METADATA})"
proof (induction "n - idx" arbitrary: idx out rule: less_induct)
  case less
  have enc: "md_encode items = [] \<longleftrightarrow> items = []" for items by (cases items) auto
  show ?case
  proof (cases "idx < n")
    case False
    have "[] = md_encode items \<longleftrightarrow> items = []" for items using enc [of items] by metis
    with False show ?thesis by (subst metadata_loop.simps) auto
  next
    case True
    let ?l = "unat (p ! idx)" and ?ty = "p ! (idx + 1)"
    have lt: "?l < 256" using unsigned_less [of "p ! idx"] by simp
    have mod: "(idx + 1) mod 2 ^ 16 = idx + 1" "((idx + 1) mod 2 ^ 16 + ?l) mod 2 ^ 16 = idx + 1 + ?l"
      using True assms(1) lt by simp_all
    have m3: "Suc (idx + ?l) mod 65536 = Suc (idx + ?l)" using True assms(1) lt by simp
    let ?g = "md_ok p (idx + 2) ?l ?ty"
    obtain out1 where o1: "metadata_item p ?l ?ty (idx + 1) out = Some (?g, out1)"
        "?g \<Longrightarrow> audio_contexts out1 = (if ?ty = 0x02 then the (le16 p (idx + 2)) else audio_contexts out) \<and> resp_code out1 = resp_code out"
        "\<not> ?g \<Longrightarrow> resp_code out1 \<in> {ASE_CP_RESP_UNSUPPORTED_METADATA, ASE_CP_RESP_REJECTED_METADATA, ASE_CP_RESP_INVALID_METADATA}"
      using metadata_item_eq [of "idx + 1" p ?l ?ty out, unfolded add.assoc one_add_one] True assms(2) by fastforce
    have step: "metadata_loop p n idx out = (if ?g then metadata_loop p n (idx + 1 + ?l) out1 else Some (False, out1))"
      using True assms(2) o1(1) by (subst metadata_loop.simps, unfold mod) (simp add: arr_simps m3)
    have dec: "\<exists>v rest. items = (?ty, v) # rest \<and> md_valid (?ty, v) \<and> ?l = Suc (length v) \<and> ?g
        \<and> (?ty = 0x02 \<longrightarrow> le16 p (idx + 2) = le16 v 0) \<and> idx + 1 + ?l \<le> n
        \<and> take (n - (idx + 1 + ?l)) (drop (idx + 1 + ?l) p) = md_encode rest"
      if e: "take (n - idx) (drop idx p) = md_encode items" "list_all md_valid items" for items
    proof -
      have "md_encode items \<noteq> []" using e(1) True assms(2) by (metis length_drop length_greater_0_conv length_take min_less_iff_conj add_leD1 less_le_trans zero_less_diff)
      then obtain ty v rest where it: "items = (ty, v) # rest" using enc by (cases items) auto
      have val: "md_valid (ty, v)" using e(2) it by simp
      have d: "drop idx p = of_nat (Suc (length v)) # ty # v @ (md_encode rest @ drop (n - idx) (drop idx p))"
        using append_take_drop_id [of "n - idx" "drop idx p"] e(1) it by simp
      note sp = md_split [OF val d]
      have "length (take (n - idx) (drop idx p)) = n - idx" using assms(2) by simp
      then have len: "n - idx = 2 + length v + length (md_encode rest)" using e(1) it by simp
      then have le: "idx + 1 + ?l \<le> n" using sp(1) by simp
      have "take (n - (idx + 1 + ?l)) (drop (idx + 1 + ?l) p) = md_encode rest"
        using sp(1,5) len by (simp add: add.assoc)
      then show ?thesis using it val sp le by (intro exI [of _ v] exI [of _ rest]) (simp add: add.assoc)
    qed
    show ?thesis
    proof (cases ?g)
      case False
      have "\<not> (\<exists>items. take (n - idx) (drop idx p) = md_encode items \<and> list_all md_valid items)" using dec False by blast
      then show ?thesis using step False o1(3) by auto
    next
      case g: True
      have "n - (idx + 1 + ?l) < n - idx" using True by linarith
      from less.hyps [OF this, of out1] obtain ok out' where r: "metadata_loop p n (idx + 1 + ?l) out1 = Some (ok, out')"
          "ok \<longleftrightarrow> idx + 1 + ?l \<le> n \<and> (\<exists>items. take (n - (idx + 1 + ?l)) (drop (idx + 1 + ?l) p) = md_encode items \<and> list_all md_valid items)"
          "\<And>items. ok \<and> take (n - (idx + 1 + ?l)) (drop (idx + 1 + ?l) p) = md_encode items \<and> list_all md_valid items
             \<Longrightarrow> audio_contexts out' = md_contexts items (audio_contexts out1)"
          "if ok then resp_code out' = resp_code out1
           else resp_code out' \<in> {ASE_CP_RESP_UNSUPPORTED_METADATA, ASE_CP_RESP_REJECTED_METADATA, ASE_CP_RESP_INVALID_METADATA}"
        by blast
      have ok: "ok \<longleftrightarrow> (\<exists>items. take (n - idx) (drop idx p) = md_encode items \<and> list_all md_valid items)"
      proof
        assume ok
        then obtain items where it: "idx + 1 + ?l \<le> n" "take (n - (idx + 1 + ?l)) (drop (idx + 1 + ?l) p) = md_encode items"
            "list_all md_valid items" using r(2) by blast
        have le: "idx + 1 + ?l \<le> length p" "idx + 1 < length p" using it(1) True assms(2) by simp_all
        define v where "v = take (?l - 1) (drop (idx + 2) p)"
        note j = md_join [OF g le, folded v_def]
        have "n - idx = Suc (Suc (length v + (n - (idx + 1 + ?l))))" using j(3,4) it(1) by simp
        then have "take (n - idx) (drop idx p) = of_nat (Suc (length v)) # ?ty # v @ take (n - (idx + 1 + ?l)) (drop (idx + 1 + ?l) p)"
          unfolding j(2) by simp
        then have "take (n - idx) (drop idx p) = md_encode ((?ty, v) # items)" by (simp only: it(2) md_encode.simps)
        then show "\<exists>items. take (n - idx) (drop idx p) = md_encode items \<and> list_all md_valid items"
          using j(1) it(3) by (intro exI [of _ "(?ty, v) # items"]) simp
      next
        assume "\<exists>items. take (n - idx) (drop idx p) = md_encode items \<and> list_all md_valid items"
        then obtain items where it: "take (n - idx) (drop idx p) = md_encode items" "list_all md_valid items" by blast
        then show ok using dec [OF it] r(2) by auto
      qed
      have "audio_contexts out' = md_contexts items (audio_contexts out)"
        if it: "ok" "take (n - idx) (drop idx p) = md_encode items" "list_all md_valid items" for items
        using dec [OF it(2,3)] r(3) o1(2) [OF g] it by auto
      then show ?thesis using step g r(1,4) ok o1(2) [OF g] True by auto
    qed
  qed
qed

text \<open>C33: For metadata of at most 65280 bytes with four readable bytes behind it the check ends, and it accepts
  exactly the concatenations of well-formed items of the known types; it then returns the contexts of
  the last streaming-contexts item, and otherwise one of the three metadata error codes.\<close>

theorem metadata_accepts:
  assumes "unat len + 256 \<le> 2 ^ 16" "unat len + 4 \<le> length p"
  shows "\<exists>ok out'. metadata_check_format len (Some p) (Some out) = Some (ok, Some out')
    \<and> (ok \<longleftrightarrow> len \<noteq> 0 \<and> (\<exists>items. take (unat len) p = md_encode items \<and> list_all md_valid items))
    \<and> (\<forall>items. ok \<and> take (unat len) p = md_encode items \<and> list_all md_valid items
         \<longrightarrow> audio_contexts out' = md_contexts items (audio_contexts out))
    \<and> resp_code out' \<in> (if ok then {0} else {ASE_CP_RESP_UNSUPPORTED_METADATA, ASE_CP_RESP_REJECTED_METADATA, ASE_CP_RESP_INVALID_METADATA})"
proof (cases "len = 0")
  case True
  then show ?thesis by (intro exI [of _ False]) (simp add: metadata_check_format_def)
next
  case False
  let ?out = "out\<lparr>resp_code := 0, reason := 0\<rparr>"
  obtain ok out' where r: "metadata_loop p (unat len) 0 ?out = Some (ok, out')"
      "ok \<longleftrightarrow> 0 \<le> unat len \<and> (\<exists>items. take (unat len) p = md_encode items \<and> list_all md_valid items)"
      "\<forall>items. ok \<and> take (unat len) p = md_encode items \<and> list_all md_valid items
         \<longrightarrow> audio_contexts out' = md_contexts items (audio_contexts ?out)"
      "if ok then resp_code out' = resp_code ?out
       else resp_code out' \<in> {ASE_CP_RESP_UNSUPPORTED_METADATA, ASE_CP_RESP_REJECTED_METADATA, ASE_CP_RESP_INVALID_METADATA}"
    using metadata_loop_eq [OF assms, of 0 ?out] unfolding drop_0 diff_zero by blast
  have "ok \<longleftrightarrow> len \<noteq> 0 \<and> (\<exists>items. take (unat len) p = md_encode items \<and> list_all md_valid items)"
    using r(2) False by simp
  moreover have "\<forall>items. ok \<and> take (unat len) p = md_encode items \<and> list_all md_valid items
      \<longrightarrow> audio_contexts out' = md_contexts items (audio_contexts out)" using r(3) by simp
  moreover have "resp_code out' \<in> (if ok then {0} else {ASE_CP_RESP_UNSUPPORTED_METADATA, ASE_CP_RESP_REJECTED_METADATA, ASE_CP_RESP_INVALID_METADATA})"
    using r(4) by (cases ok) simp_all
  moreover have "metadata_check_format len (Some p) (Some out) = Some (ok, Some out')"
    using False r(1) by (simp add: metadata_check_format_def)
  ultimately show ?thesis by blast
qed

lemma metadata_accepts_witness:
  "\<exists>out'. metadata_check_format 7 (Some [3, 2, 4, 0, 2, 5, 1, 0, 0, 0, 0]) (Some \<lparr>resp_code = 9, reason = 9, audio_contexts = 0xFFFF\<rparr>)
      = Some (True, Some out') \<and> audio_contexts out' = 4"
proof -
  let ?p = "[3, 2, 4, 0, 2, 5, 1, 0, 0, 0, 0] :: u8 list" let ?items = "[(2, [4, 0]), (5, [1])] :: (u8 \<times> u8 list) list"
  have "le16 [4, 0] 0 = Some 4" by (simp add: le16_def arr_simps)
  then have i: "take (unat (7 :: u16)) ?p = md_encode ?items" "list_all md_valid ?items"
    "md_contexts ?items 0xFFFF = 4" by simp_all
  let ?out = "\<lparr>resp_code = 9, reason = 9, audio_contexts = 0xFFFF\<rparr> :: metadata_out"
  have "unat (7 :: u16) + 256 \<le> 2 ^ 16" "unat (7 :: u16) + 4 \<le> length ?p" by simp_all
  from metadata_accepts [OF this, of ?out] obtain ok out' where
      r: "metadata_check_format 7 (Some ?p) (Some ?out) = Some (ok, Some out')"
      "ok \<longleftrightarrow> (7 :: u16) \<noteq> 0 \<and> (\<exists>items. take (unat (7 :: u16)) ?p = md_encode items \<and> list_all md_valid items)"
      "\<And>items. ok \<and> take (unat (7 :: u16)) ?p = md_encode items \<and> list_all md_valid items
         \<Longrightarrow> audio_contexts out' = md_contexts items (audio_contexts ?out)"
    by blast
  have "(7 :: u16) \<noteq> 0" by simp
  then have ok unfolding r(2) using i(1,2) by blast
  then show ?thesis using r(1) r(3) [of ?items] i by simp
qed

end
