(* ===== verification/Ase_Sm.thy ===== *)
theory Ase_Sm
  imports Le_Codec
begin

text \<open>
  The Audio Stream Endpoints (ASE) of the ASCS server: the table of endpoints each LE link carries and the
  operations on one endpoint, \<open>src/app/ble_audio_lib/bap/ase_sm.c\<close>, with the parts they call of
  \<open>ascs_mgr.c\<close> (\<open>ase_sm_check_iosch_status\<close>, \<open>ascs_setup_data_path\<close>, \<open>ascs_remove_data_path\<close>,
  \<open>ascs_check_current_state\<close>), \<open>ascs.c\<close> (\<open>ascs_send_ase_notify\<close>) and \<open>ble_link_util.c\<close>.

  The state \<open>st\<close> is the part of \<open>ble_audio_db\<close> the server uses and a log of what it asked of its
  surroundings. A \<open>T_ASE_ENTRY *\<close> is a pair of the index of the link and the index in its table; a byte
  array of fixed length inside a structure is a tuple, so that structures have their size by type.

  The code of the library binary is a parameter: an \<open>env\<close> answers each request from the log of what
  happened before it. \<open>cig_mgr_get_isoch_info\<close> gives its result and the content of its output argument
  afterwards, because \<open>ascs_check_current_state\<close> reads the output also when the result is false.
  \<open>ble_audio_mgr_dispatch\<close> calls the registered applications; the answer of \<open>LE_AUDIO_MSG_ASCS_GET_PREFER_QOS\<close>
  is the call of \<open>ascs_cfg_ase_prefer_qos\<close> that \<open>app_lea_uca_prefer_qos\<close> makes, the other callbacks are taken
  not to call back into this component.
\<close>

section \<open>Data\<close>

type_synonym arr2 = "u8 \<times> u8"
type_synonym arr3 = "u8 \<times> u8 \<times> u8"
type_synonym arr5 = "u8 \<times> u8 \<times> u8 \<times> u8 \<times> u8"

fun bytes2 :: "arr2 \<Rightarrow> u8 list" where "bytes2 (a, b) = [a, b]"
fun bytes3 :: "arr3 \<Rightarrow> u8 list" where "bytes3 (a, b, c) = [a, b, c]"
fun bytes5 :: "arr5 \<Rightarrow> u8 list" where "bytes5 (a, b, c, d, e) = [a, b, c, d, e]"

text \<open>\<open>LE_UINT16_TO_ARRAY\<close>, \<open>LE_UINT24_TO_ARRAY\<close> and the macros that read back\<close>

definition uint16_to_array :: "u16 \<Rightarrow> arr2" where
  "uint16_to_array x = (ucast x, ucast (drop_bit 8 x))"

definition uint24_to_array :: "u32 \<Rightarrow> arr3" where
  "uint24_to_array x = (ucast x, ucast (drop_bit 8 x), ucast (drop_bit 16 x))"

fun array_to_uint16 :: "arr2 \<Rightarrow> u16" where
  "array_to_uint16 (a, b) = ucast a + push_bit 8 (ucast b)"

fun array_to_uint24 :: "arr3 \<Rightarrow> u32" where
  "array_to_uint24 (a, b, c) = ucast a + push_bit 8 (ucast b) + push_bit 16 (ucast c)"

abbreviation ASE_STATE_IDLE :: u8 where "ASE_STATE_IDLE \<equiv> 0x00"
abbreviation ASE_STATE_CODEC_CONFIGURED :: u8 where "ASE_STATE_CODEC_CONFIGURED \<equiv> 0x01"
abbreviation ASE_STATE_QOS_CONFIGURED :: u8 where "ASE_STATE_QOS_CONFIGURED \<equiv> 0x02"
abbreviation ASE_STATE_ENABLING :: u8 where "ASE_STATE_ENABLING \<equiv> 0x03"
abbreviation ASE_STATE_STREAMING :: u8 where "ASE_STATE_STREAMING \<equiv> 0x04"
abbreviation ASE_STATE_DISABLING :: u8 where "ASE_STATE_DISABLING \<equiv> 0x05"
abbreviation ASE_STATE_RELEASING :: u8 where "ASE_STATE_RELEASING \<equiv> 0x06"
abbreviation SERVER_AUDIO_SINK :: u8 where "SERVER_AUDIO_SINK \<equiv> 0x01"
abbreviation SERVER_AUDIO_SOURCE :: u8 where "SERVER_AUDIO_SOURCE \<equiv> 0x02"
abbreviation DATA_PATH_ADD_INPUT :: u8 where "DATA_PATH_ADD_INPUT \<equiv> 0x00"
abbreviation DATA_PATH_ADD_OUTPUT :: u8 where "DATA_PATH_ADD_OUTPUT \<equiv> 0x01"
abbreviation DATA_PATH_INPUT_FLAG :: u8 where "DATA_PATH_INPUT_FLAG \<equiv> 0x01"
abbreviation DATA_PATH_OUTPUT_FLAG :: u8 where "DATA_PATH_OUTPUT_FLAG \<equiv> 0x02"
abbreviation ISOCH_STATE_IDLE :: u8 where "ISOCH_STATE_IDLE \<equiv> 0"
abbreviation ISOCH_STATE_CONNECTING :: u8 where "ISOCH_STATE_CONNECTING \<equiv> 1"
abbreviation ISOCH_STATE_CONN :: u8 where "ISOCH_STATE_CONN \<equiv> 2"
abbreviation LC3_CODEC_ID :: u8 where "LC3_CODEC_ID \<equiv> 0x06"
abbreviation VENDOR_CODEC_ID :: u8 where "VENDOR_CODEC_ID \<equiv> 0xFF"
abbreviation AUDIO_UNFRAMED_SUPPORTED :: u8 where "AUDIO_UNFRAMED_SUPPORTED \<equiv> 0x00"
abbreviation ASE_LE_2M_PHY_BIT :: u8 where "ASE_LE_2M_PHY_BIT \<equiv> 0x02"
abbreviation ASCS_CHAR_ASE_INDEX :: nat where "ASCS_CHAR_ASE_INDEX \<equiv> 5"

record codec_state_data =
  c_supported_framing :: u8
  c_preferred_phy :: u8
  c_preferred_retrans_number :: u8
  c_max_transport_latency :: arr2
  c_presentation_delay_min :: arr3
  c_presentation_delay_max :: arr3
  c_preferred_presentation_delay_min :: arr3
  c_preferred_presentation_delay_max :: arr3
  c_codec_id :: arr5
  c_codec_spec_cfg_len :: u8

record qos_state_data =
  s_cig_id :: u8
  s_cis_id :: u8
  s_sdu_interval :: arr3
  s_framing :: u8
  s_phy :: u8
  s_max_sdu :: arr2
  s_retransmission_number :: u8
  s_max_transport_latency :: arr2
  s_presentation_delay :: arr3

definition zero_codec_state :: codec_state_data where
  "zero_codec_state = \<lparr>c_supported_framing = 0, c_preferred_phy = 0, c_preferred_retrans_number = 0,
     c_max_transport_latency = (0, 0), c_presentation_delay_min = (0, 0, 0), c_presentation_delay_max = (0, 0, 0),
     c_preferred_presentation_delay_min = (0, 0, 0), c_preferred_presentation_delay_max = (0, 0, 0),
     c_codec_id = (0, 0, 0, 0, 0), c_codec_spec_cfg_len = 0\<rparr>"

definition zero_qos_state :: qos_state_data where
  "zero_qos_state = \<lparr>s_cig_id = 0, s_cis_id = 0, s_sdu_interval = (0, 0, 0), s_framing = 0, s_phy = 0,
     s_max_sdu = (0, 0), s_retransmission_number = 0, s_max_transport_latency = (0, 0),
     s_presentation_delay = (0, 0, 0)\<rparr>"

text \<open>The bytes of the two structures, which have no padding.\<close>

definition codec_state_bytes :: "codec_state_data \<Rightarrow> u8 list" where
  "codec_state_bytes d =
     [c_supported_framing d, c_preferred_phy d, c_preferred_retrans_number d] @ bytes2 (c_max_transport_latency d) @
     bytes3 (c_presentation_delay_min d) @ bytes3 (c_presentation_delay_max d) @
     bytes3 (c_preferred_presentation_delay_min d) @ bytes3 (c_preferred_presentation_delay_max d) @
     bytes5 (c_codec_id d) @ [c_codec_spec_cfg_len d]"

definition qos_state_bytes :: "qos_state_data \<Rightarrow> u8 list" where
  "qos_state_bytes d =
     [s_cig_id d, s_cis_id d] @ bytes3 (s_sdu_interval d) @ [s_framing d, s_phy d] @ bytes2 (s_max_sdu d) @
     [s_retransmission_number d] @ bytes2 (s_max_transport_latency d) @ bytes3 (s_presentation_delay d)"

record ase_entry =
  e_conn_handle :: u16
  e_cis_conn_handle :: u16
  e_rec_start_ready :: bool
  e_rec_stop_ready :: bool
  e_app_handshake :: bool
  e_app_handshake_rec :: bool
  e_added_path_direction :: u8
  e_ase_id :: u8
  e_ase_state :: u8
  e_direction :: u8
  e_codec_spec_cfg_len :: u8
  e_metadata_len :: u8
  e_min_transport_latency :: u16
  e_codec_state_data :: codec_state_data
  e_qos_state_data :: qos_state_data
  e_codec_cfg :: codec_cfg
  e_codec_spec_cfg :: "u8 list option"
  e_metadata :: "u8 list option"

definition zero_ase :: ase_entry where
  "zero_ase = \<lparr>e_conn_handle = 0, e_cis_conn_handle = 0, e_rec_start_ready = False, e_rec_stop_ready = False,
     e_app_handshake = False, e_app_handshake_rec = False, e_added_path_direction = 0, e_ase_id = 0,
     e_ase_state = 0, e_direction = 0, e_codec_spec_cfg_len = 0, e_metadata_len = 0, e_min_transport_latency = 0,
     e_codec_state_data = zero_codec_state, e_qos_state_data = zero_qos_state, e_codec_cfg = zero_cfg,
     e_codec_spec_cfg = None, e_metadata = None\<rparr>"

text \<open>\<open>T_ASE_CP_CODEC_CFG_ARRAY_PARAM\<close>, and \<open>T_ASCS_PREFER_QOS_DATA\<close>\<close>

record cp_codec_cfg =
  p_ase_id :: u8
  p_target_latency :: u8
  p_target_phy :: u8
  p_codec_id :: arr5
  p_codec_spec_cfg_len :: u8

record prefer_qos_data =
  pq_supported_framing :: u8
  pq_preferred_phy :: u8
  pq_preferred_retrans_number :: u8
  pq_max_transport_latency :: u16
  pq_presentation_delay_min :: u32
  pq_presentation_delay_max :: u32
  pq_preferred_presentation_delay_min :: u32
  pq_preferred_presentation_delay_max :: u32

text \<open>\<open>T_ASE_CHAR_DATA\<close>: the union is a datatype, \<open>NoData\<close> the zeroed union of the other states.\<close>

datatype ase_data =
  CodecConfigured codec_state_data "u8 list option"
| QosConfigured qos_state_data
| WithMetadata u8 u8 u8 "u8 list option"
| NoData

record ase_char_data =
  d_ase_id :: u8
  d_direction :: u8
  d_ase_state :: u8
  d_param :: ase_data

record get_prefer_qos =
  g_conn_handle :: u16
  g_ase_id :: u8
  g_direction :: u8
  g_codec_cfg :: codec_cfg
  g_target_latency :: u8
  g_target_phy :: u8

section \<open>State and surroundings\<close>

text \<open>
  \<open>ASE_STATE\<close> and \<open>GET_PREFER_QOS\<close> are the messages to the application (\<open>ble_audio_mgr_dispatch\<close>), further ones
  are those of \<open>ascs_mgr.c\<close> and \<open>ase_handle_cp.c\<close>. The last six answers of \<open>env\<close> are the connection, group and
  channel identifiers of a CIS handle, the handle and the MTU of a connection, the first attribute handle of the
  service, and the results of clearing a pending notification and of confirming a read. \<open>Ev_data\<close> is \<open>gatt_svc_send_data\<close> with the attribute index and the
  value, \<open>Ev_alloc\<close> a \<open>ble_audio_mem_zalloc\<close>.
\<close>

datatype msg =
  Msg_ase_state u16 ase_char_data
| Msg_get_prefer_qos get_prefer_qos
| Msg_audio_contexts_check u16 bool u8 u8 u16
| Msg_cp_ind u16 u8 "u8 list"
| Msg_cis_conn_info u16 u16 u8 u8
| Msg_cis_disconn_info u16 u16 u16 u8 u8
| Msg_cis_request u16 u16 u8 u8 u8 u8
| Msg_setup_data_path u16 u8 u8 u16 codec_cfg
| Msg_remove_data_path u16 u8 u8 u16

datatype event =
  Ev_alloc nat
| Ev_data u16 nat "u8 list"
| Ev_msg msg
| Ev_setup_path u16 u8
| Ev_remove_path u16 u8
| Ev_cis_disconnect u16
| Ev_pending_set nat u16
| Ev_pending_clear u16 u16
| Ev_read_confirm u16 nat "u8 list" nat

record isoch_info =
  i_state :: u8
  i_data_path_flags :: u8
  i_data_path_adding :: bool
  i_data_path_removing :: bool

record env =
  isoch_of :: "event list \<Rightarrow> u16 \<Rightarrow> bool \<times> isoch_info"
  mem_ok :: "event list \<Rightarrow> bool"
  send_ok :: "event list \<Rightarrow> bool"
  setup_ok :: "event list \<Rightarrow> bool"
  remove_ok :: "event list \<Rightarrow> bool"
  app_result :: "event list \<Rightarrow> u16"
  app_prefer :: "event list \<Rightarrow> prefer_qos_data option"
  stack_qos :: "event list \<Rightarrow> qos_cfg_preferred"
  cis_of :: "event list \<Rightarrow> u16 \<Rightarrow> u8 \<times> u8 \<times> u8"
  handle_of :: "event list \<Rightarrow> u8 \<Rightarrow> u16"
  mtu_of :: "event list \<Rightarrow> u8 \<Rightarrow> u16"
  start_handle :: "event list \<Rightarrow> u16"
  clear_ok :: "event list \<Rightarrow> bool"
  read_ok :: "event list \<Rightarrow> bool"

record link =
  l_used :: bool
  l_conn_id :: u8
  l_conn_handle :: u16
  l_mtu_size :: u16
  l_ase :: "ase_entry list option"

record st =
  le_link :: "link list"
  snk_ase_num :: u8
  src_ase_num :: u8
  evlog :: "event list"

type_synonym ase_ptr = "nat \<times> nat"

definition emit :: "event \<Rightarrow> st \<Rightarrow> st" where
  "emit ev s = s\<lparr>evlog := evlog s @ [ev]\<rparr>"

definition ase_total :: "st \<Rightarrow> nat" where
  "ase_total s = unat (snk_ase_num s) + unat (src_ase_num s)"

definition get_ase :: "st \<Rightarrow> ase_ptr \<Rightarrow> ase_entry option" where
  "get_ase s p = do {
     l \<leftarrow> arr_get (le_link s) (fst p);
     tab \<leftarrow> l_ase l;
     arr_get tab (snd p)
   }"

definition put_ase :: "ase_ptr \<Rightarrow> ase_entry \<Rightarrow> st \<Rightarrow> st" where
  "put_ase p e s = s\<lparr>le_link := (le_link s)[fst p :=
     (le_link s ! fst p)\<lparr>l_ase := map_option (\<lambda>tab. tab[snd p := e]) (l_ase (le_link s ! fst p))\<rparr>]\<rparr>"

definition ble_audio_link_find_by_conn_id :: "u8 \<Rightarrow> st \<Rightarrow> nat option" where
  "ble_audio_link_find_by_conn_id conn_id s = first_index (\<lambda>l. l_used l \<and> l_conn_id l = conn_id) (le_link s)"

definition ble_audio_link_find_by_conn_handle :: "u16 \<Rightarrow> st \<Rightarrow> nat option" where
  "ble_audio_link_find_by_conn_handle conn_handle s =
     first_index (\<lambda>l. l_used l \<and> l_conn_handle l = conn_handle) (le_link s)"

text \<open>
  The loops over a table count in a \<open>uint8_t\<close> up to the sum of the two numbers, which is an \<open>int\<close>: past 255 the
  counter starts again at 0 and a loop that is not left by \<open>break\<close> does not end.
\<close>

definition ase_search :: "(ase_entry \<Rightarrow> bool) \<Rightarrow> nat \<Rightarrow> ase_entry list \<Rightarrow> nat option option" where
  "ase_search P n tab = do {
     i \<leftarrow> arr_find P 0 (min n 256) tab;
     (if i < min n 256 then Some (Some i) else if n \<le> 255 then Some None else None)
   }"

definition link_table :: "u16 \<Rightarrow> st \<Rightarrow> (nat \<times> ase_entry list) option" where
  "link_table conn_handle s = do {
     l \<leftarrow> ble_audio_link_find_by_conn_handle conn_handle s;
     tab \<leftarrow> l_ase (le_link s ! l);
     Some (l, tab)
   }"

definition ase_find :: "(ase_entry \<Rightarrow> bool) \<Rightarrow> u16 \<Rightarrow> st \<Rightarrow> ase_ptr option option" where
  "ase_find P conn_handle s =
     (case link_table conn_handle s of
        None \<Rightarrow> Some None
      | Some (l, tab) \<Rightarrow> map_option (map_option (Pair l)) (ase_search P (ase_total s) tab))"

definition ase_find_by_ase_id :: "u16 \<Rightarrow> u8 \<Rightarrow> st \<Rightarrow> ase_ptr option option" where
  "ase_find_by_ase_id conn_handle ase_id s = ase_find (\<lambda>e. e_ase_id e = ase_id) conn_handle s"

definition ase_find_by_cig_cis :: "u16 \<Rightarrow> u8 \<Rightarrow> u8 \<Rightarrow> u8 \<Rightarrow> st \<Rightarrow> ase_ptr option option" where
  "ase_find_by_cig_cis conn_handle direction cig_id cis_id s =
     ase_find (\<lambda>e. (e_ase_state e = ASE_STATE_QOS_CONFIGURED \<or> e_ase_state e = ASE_STATE_ENABLING \<or>
                    e_ase_state e = ASE_STATE_STREAMING \<or> e_ase_state e = ASE_STATE_DISABLING) \<and>
                   e_direction e = direction \<and> s_cig_id (e_qos_state_data e) = cig_id \<and>
                   s_cis_id (e_qos_state_data e) = cis_id) conn_handle s"

section \<open>Creating and freeing the table of a link\<close>

text \<open>A loop that visits the elements from \<open>lo\<close> up to \<open>hi\<close>.\<close>

definition upd_range :: "nat \<Rightarrow> nat \<Rightarrow> (nat \<Rightarrow> ase_entry \<Rightarrow> ase_entry) \<Rightarrow> ase_entry list \<Rightarrow> ase_entry list option" where
  "upd_range lo hi f tab =
     (if hi \<le> lo then Some tab
      else if hi \<le> length tab
      then Some (take lo tab @ map (\<lambda>i. f i (tab ! i)) [lo..<hi] @ drop hi tab) else None)"

definition init_ase :: "u16 \<Rightarrow> u8 \<Rightarrow> nat \<Rightarrow> ase_entry \<Rightarrow> ase_entry" where
  "init_ase conn_handle direction i e =
     e\<lparr>e_ase_id := of_nat (i + 1), e_direction := direction, e_conn_handle := conn_handle\<rparr>"

definition ase_sm_link_init :: "env \<Rightarrow> u16 \<Rightarrow> st \<Rightarrow> (bool \<times> st) option" where
  "ase_sm_link_init en conn_handle s =
     (case ble_audio_link_find_by_conn_handle conn_handle s of
        None \<Rightarrow> Some (False, s)
      | Some l \<Rightarrow> do {
          let (p, s1) = (case l_ase (le_link s ! l) of
              Some tab \<Rightarrow> (Some tab, s)
            | None \<Rightarrow> let s1 = emit (Ev_alloc (ase_total s)) s
                       in (if mem_ok en (evlog s1) then Some (replicate (ase_total s) zero_ase) else None, s1));
          (case p of
             None \<Rightarrow> Some (False, s1)
           | Some tab \<Rightarrow>
               (if ase_total s > 255 then None
                else do {
                  tab1 \<leftarrow> upd_range 0 (unat (snk_ase_num s)) (init_ase conn_handle SERVER_AUDIO_SINK) tab;
                  tab2 \<leftarrow> upd_range (unat (snk_ase_num s)) (ase_total s) (init_ase conn_handle SERVER_AUDIO_SOURCE) tab1;
                  Some (True, s1\<lparr>le_link := (le_link s1)[l := (le_link s1 ! l)\<lparr>l_ase := Some tab2\<rparr>]\<rparr>)
                }))
        })"

text \<open>The two buffers of every endpoint go with the table.\<close>

definition ase_sm_link_free :: "u16 \<Rightarrow> st \<Rightarrow> st option" where
  "ase_sm_link_free conn_handle s =
     (case link_table conn_handle s of
        None \<Rightarrow> Some s
      | Some (l, tab) \<Rightarrow>
          (if ase_total s > 255 \<or> length tab < ase_total s then None
           else Some (s\<lparr>le_link := (le_link s)[l := (le_link s ! l)\<lparr>l_ase := None\<rparr>]\<rparr>)))"

section \<open>The state of an endpoint\<close>

definition ascs_change_state :: "u8 \<Rightarrow> ase_entry \<Rightarrow> ase_entry" where
  "ascs_change_state ase_state e =
     (if e_ase_state e = ase_state then e
      else if ase_state = ASE_STATE_IDLE then
        e\<lparr>e_codec_spec_cfg := None, e_codec_spec_cfg_len := 0, e_metadata := None, e_metadata_len := 0,
          e_codec_state_data := zero_codec_state, e_qos_state_data := zero_qos_state, e_codec_cfg := zero_cfg,
          e_ase_state := ase_state\<rparr>
      else if ase_state = ASE_STATE_CODEC_CONFIGURED then
        e\<lparr>e_metadata := None, e_metadata_len := 0, e_qos_state_data := zero_qos_state, e_ase_state := ase_state\<rparr>
      else if ase_state = ASE_STATE_QOS_CONFIGURED then
        e\<lparr>e_rec_start_ready := False, e_rec_stop_ready := False, e_app_handshake_rec := False,
          e_metadata := None, e_metadata_len := (if e_metadata e \<noteq> None then 0 else e_metadata_len e),
          e_ase_state := ase_state\<rparr>
      else if ase_state = ASE_STATE_STREAMING \<or> ase_state = ASE_STATE_RELEASING then
        e\<lparr>e_rec_start_ready := False, e_rec_stop_ready := False, e_app_handshake_rec := False,
          e_ase_state := ase_state\<rparr>
      else e\<lparr>e_ase_state := ase_state\<rparr>)"

section \<open>The value of the characteristic\<close>

text \<open>\<open>memcpy(dst, p, n)\<close>: the \<open>n\<close> bytes it reads.\<close>

definition mem_read :: "u8 list option \<Rightarrow> nat \<Rightarrow> u8 list option" where
  "mem_read p n = (case p of None \<Rightarrow> None | Some b \<Rightarrow> if n \<le> length b then Some (take n b) else None)"

abbreviation has_metadata_state :: "u8 \<Rightarrow> bool" where
  "has_metadata_state x \<equiv> x = ASE_STATE_ENABLING \<or> x = ASE_STATE_STREAMING \<or> x = ASE_STATE_DISABLING"

definition char_data_length :: "ase_entry \<Rightarrow> nat option" where
  "char_data_length e =
     (if e_ase_state e = ASE_STATE_CODEC_CONFIGURED
      then Some (2 + length (codec_state_bytes (e_codec_state_data e)) + unat (e_codec_spec_cfg_len e))
      else if has_metadata_state (e_ase_state e) then Some (2 + 3 + unat (e_metadata_len e))
      else if e_ase_state e = ASE_STATE_QOS_CONFIGURED
      then Some (2 + length (qos_state_bytes (e_qos_state_data e)))
      else if e_ase_state e = ASE_STATE_IDLE \<or> e_ase_state e = ASE_STATE_RELEASING then Some 2
      else None)"

definition char_data :: "ase_entry \<Rightarrow> u8 list option" where
  "char_data e = do {
     let hd = [e_ase_id e, if e_direction e = SERVER_AUDIO_SINK \<and> e_ase_state e = ASE_STATE_DISABLING
                           then ASE_STATE_STREAMING else e_ase_state e];
     (if e_ase_state e = ASE_STATE_CODEC_CONFIGURED then do {
        cfg \<leftarrow> (if e_codec_spec_cfg_len e \<noteq> 0
                then mem_read (e_codec_spec_cfg e) (unat (e_codec_spec_cfg_len e)) else Some []);
        Some (hd @ codec_state_bytes (e_codec_state_data e) @ cfg)
      }
      else if e_ase_state e = ASE_STATE_QOS_CONFIGURED then Some (hd @ qos_state_bytes (e_qos_state_data e))
      else if has_metadata_state (e_ase_state e) then do {
        md \<leftarrow> (if e_metadata_len e \<noteq> 0 then mem_read (e_metadata e) (unat (e_metadata_len e)) else Some []);
        Some (hd @ [s_cig_id (e_qos_state_data e), s_cis_id (e_qos_state_data e), e_metadata_len e] @ md)
      }
      else Some hd)
   }"

text \<open>The buffer that \<open>ase_gen_char_data\<close> allocates and fills; writing past its end is undefined.\<close>

definition ase_gen_char_data :: "env \<Rightarrow> u16 \<Rightarrow> u8 \<Rightarrow> st \<Rightarrow> (u8 list option \<times> st) option" where
  "ase_gen_char_data en conn_handle ase_id s = do {
     q \<leftarrow> ase_find_by_ase_id conn_handle ase_id s;
     (case q of None \<Rightarrow> Some (None, s)
      | Some p \<Rightarrow> do {
          e \<leftarrow> get_ase s p;
          (case char_data_length e of None \<Rightarrow> Some (None, s)
           | Some data_length \<Rightarrow> do {
               let s1 = emit (Ev_alloc data_length) s;
               (if mem_ok en (evlog s1) then do {
                  d \<leftarrow> char_data e;
                  (if length d \<le> data_length then Some (Some d, s1) else None)
                } else Some (None, s1))
             })
        })
   }"

section \<open>What the application reads\<close>

definition ascs_get_codec_cfg :: "u16 \<Rightarrow> u8 \<Rightarrow> st \<Rightarrow> (codec_state_data \<times> u8 list option) option option" where
  "ascs_get_codec_cfg conn_handle ase_id s = do {
     q \<leftarrow> ase_find_by_ase_id conn_handle ase_id s;
     (case q of None \<Rightarrow> Some None
      | Some p \<Rightarrow> do {
          e \<leftarrow> get_ase s p;
          Some (if e_ase_state e = ASE_STATE_RELEASING \<or> e_ase_state e = ASE_STATE_IDLE then None
                else Some (e_codec_state_data e, e_codec_spec_cfg e))
        })
   }"

definition ascs_get_qos_cfg :: "u16 \<Rightarrow> u8 \<Rightarrow> st \<Rightarrow> qos_state_data option option" where
  "ascs_get_qos_cfg conn_handle ase_id s = do {
     q \<leftarrow> ase_find_by_ase_id conn_handle ase_id s;
     (case q of None \<Rightarrow> Some None
      | Some p \<Rightarrow> do {
          e \<leftarrow> get_ase s p;
          Some (if e_ase_state e = ASE_STATE_RELEASING \<or> e_ase_state e = ASE_STATE_IDLE \<or>
                   e_ase_state e = ASE_STATE_CODEC_CONFIGURED then None
                else Some (e_qos_state_data e))
        })
   }"

definition ase_data_of :: "ase_entry \<Rightarrow> ase_char_data" where
  "ase_data_of e = \<lparr>d_ase_id = e_ase_id e, d_direction = e_direction e, d_ase_state = e_ase_state e,
     d_param =
       (if e_ase_state e = ASE_STATE_CODEC_CONFIGURED
        then CodecConfigured (e_codec_state_data e) (e_codec_spec_cfg e)
        else if e_ase_state e = ASE_STATE_QOS_CONFIGURED then QosConfigured (e_qos_state_data e)
        else if has_metadata_state (e_ase_state e)
        then WithMetadata (s_cig_id (e_qos_state_data e)) (s_cis_id (e_qos_state_data e)) (e_metadata_len e) (e_metadata e)
        else NoData)\<rparr>"

definition ascs_get_ase_data :: "u16 \<Rightarrow> u8 \<Rightarrow> st \<Rightarrow> ase_char_data option option" where
  "ascs_get_ase_data conn_handle ase_id s = do {
     q \<leftarrow> ase_find_by_ase_id conn_handle ase_id s;
     (case q of None \<Rightarrow> Some None
      | Some p \<Rightarrow> do { e \<leftarrow> get_ase s p; Some (Some (ase_data_of e)) })
   }"

text \<open>
  \<open>ascs_get_ase_info\<close> fills two arrays of \<open>ASCS_AES_CHAR_MAX_NUM\<close> elements, an eighth endpoint of one direction is
  written past the end. A result is the pair of lists of identifier and state.
\<close>

definition ascs_get_ase_info :: "u16 \<Rightarrow> st \<Rightarrow> ((u8 \<times> u8) list \<times> (u8 \<times> u8) list) option option" where
  "ascs_get_ase_info conn_handle s =
     (case link_table conn_handle s of
        None \<Rightarrow> Some None
      | Some (l, tab) \<Rightarrow>
          (if ase_total s > 255 then None
           else do {
             es \<leftarrow> arr_upto (ase_total s) tab;
             let snk = filter (\<lambda>e. e_direction e = SERVER_AUDIO_SINK) es;
             let src = filter (\<lambda>e. e_direction e \<noteq> SERVER_AUDIO_SINK) es;
             (if length snk \<le> 7 \<and> length src \<le> 7
              then Some (Some (map (\<lambda>e. (e_ase_id e, e_ase_state e)) snk, map (\<lambda>e. (e_ase_id e, e_ase_state e)) src))
              else None)
           }))"

definition prefer_of :: "codec_state_data \<Rightarrow> prefer_qos_data" where
  "prefer_of d = \<lparr>pq_supported_framing = c_supported_framing d, pq_preferred_phy = c_preferred_phy d,
     pq_preferred_retrans_number = c_preferred_retrans_number d,
     pq_max_transport_latency = array_to_uint16 (c_max_transport_latency d),
     pq_presentation_delay_min = array_to_uint24 (c_presentation_delay_min d),
     pq_presentation_delay_max = array_to_uint24 (c_presentation_delay_max d),
     pq_preferred_presentation_delay_min = array_to_uint24 (c_preferred_presentation_delay_min d),
     pq_preferred_presentation_delay_max = array_to_uint24 (c_preferred_presentation_delay_max d)\<rparr>"

definition ascs_get_ase_prefer_qos :: "u16 \<Rightarrow> u8 \<Rightarrow> st \<Rightarrow> prefer_qos_data option option" where
  "ascs_get_ase_prefer_qos conn_handle ase_id s = do {
     q \<leftarrow> ase_find_by_ase_id conn_handle ase_id s;
     (case q of None \<Rightarrow> Some None
      | Some p \<Rightarrow> do {
          e \<leftarrow> get_ase s p;
          Some (if e_ase_state e \<noteq> ASE_STATE_CODEC_CONFIGURED then None else Some (prefer_of (e_codec_state_data e)))
        })
   }"

definition set_prefer :: "prefer_qos_data \<Rightarrow> codec_state_data \<Rightarrow> codec_state_data" where
  "set_prefer q d = d\<lparr>c_supported_framing := pq_supported_framing q,
     c_preferred_retrans_number := pq_preferred_retrans_number q,
     c_preferred_phy := pq_preferred_phy q,
     c_max_transport_latency := uint16_to_array (pq_max_transport_latency q),
     c_presentation_delay_min := uint24_to_array (pq_presentation_delay_min q),
     c_presentation_delay_max := uint24_to_array (pq_presentation_delay_max q),
     c_preferred_presentation_delay_min := uint24_to_array (pq_preferred_presentation_delay_min q),
     c_preferred_presentation_delay_max := uint24_to_array (pq_preferred_presentation_delay_max q)\<rparr>"

definition ascs_cfg_ase_prefer_qos :: "u16 \<Rightarrow> u8 \<Rightarrow> prefer_qos_data \<Rightarrow> st \<Rightarrow> (bool \<times> st) option" where
  "ascs_cfg_ase_prefer_qos conn_handle ase_id pq s = do {
     q \<leftarrow> ase_find_by_ase_id conn_handle ase_id s;
     (case q of None \<Rightarrow> Some (False, s)
      | Some p \<Rightarrow> do {
          e \<leftarrow> get_ase s p;
          (if e_ase_state e \<noteq> ASE_STATE_CODEC_CONFIGURED then Some (False, s)
           else Some (True, put_ase p (e\<lparr>e_codec_state_data := set_prefer pq (e_codec_state_data e)\<rparr>) s))
        })
   }"

section \<open>Notifying a state\<close>

text \<open>\<open>len\<close> is cut to \<open>mtu_size - 3\<close>; with an MTU below 3 it becomes larger than the buffer.\<close>

definition ascs_send_ase_notify :: "env \<Rightarrow> u16 \<Rightarrow> u8 \<Rightarrow> u8 list \<Rightarrow> st \<Rightarrow> (bool \<times> st) option" where
  "ascs_send_ase_notify en conn_handle ase_id d s =
     (if unat ase_id > ase_total s \<or> ase_id = 0 then Some (False, s)
      else case ble_audio_link_find_by_conn_handle conn_handle s of
        None \<Rightarrow> Some (False, s)
      | Some l \<Rightarrow>
          (let mtu = unat (l_mtu_size (le_link s ! l))
           in if mtu < 3 then None
              else let s1 = emit (Ev_data conn_handle (ASCS_CHAR_ASE_INDEX + 3 * (unat ase_id - 1)) (take (mtu - 3) d)) s
                   in Some (send_ok en (evlog s1), s1)))"

definition ase_sm_send_notify :: "env \<Rightarrow> u16 \<Rightarrow> ase_ptr \<Rightarrow> st \<Rightarrow> st option" where
  "ase_sm_send_notify en conn_handle p s = do {
     e \<leftarrow> get_ase s p;
     (d, s1) \<leftarrow> ase_gen_char_data en conn_handle (e_ase_id e) s;
     s2 \<leftarrow> (case d of None \<Rightarrow> Some s1
            | Some bytes \<Rightarrow> map_option snd (ascs_send_ase_notify en conn_handle (e_ase_id e) bytes s1));
     a \<leftarrow> ascs_get_ase_data conn_handle (e_ase_id e) s2;
     Some (case a of None \<Rightarrow> s2 | Some data \<Rightarrow> emit (Ev_msg (Msg_ase_state conn_handle data)) s2)
   }"

named_theorems ase_simps "equations of the accesses to an endpoint"

section \<open>Accesses\<close>

lemma emit_fields [simp]:
  "le_link (emit ev s) = le_link s" "snk_ase_num (emit ev s) = snk_ase_num s"
  "src_ase_num (emit ev s) = src_ase_num s" "evlog (emit ev s) = evlog s @ [ev]"
  by (simp_all add: emit_def)

lemma ase_total_emit [simp]: "ase_total (emit ev s) = ase_total s"
  by (simp add: ase_total_def)

lemma put_ase_fields [simp]:
  "snk_ase_num (put_ase p e s) = snk_ase_num s" "src_ase_num (put_ase p e s) = src_ase_num s"
  "evlog (put_ase p e s) = evlog s" "ase_total (put_ase p e s) = ase_total s"
  by (simp_all add: put_ase_def ase_total_def)

lemma get_ase_cong: "le_link s' = le_link s \<Longrightarrow> get_ase s' p = get_ase s p"
  by (simp add: get_ase_def)

lemma get_ase_emit [simp]: "get_ase (emit ev s) p = get_ase s p"
  by (simp add: get_ase_def)

lemma get_put_ase [simp]: "get_ase s p \<noteq> None \<Longrightarrow> get_ase (put_ase p e s) p = Some e"
  by (auto simp: get_ase_def put_ase_def arr_get_def bind_eq_Some_conv split: if_splits)

lemma get_put_other: "q \<noteq> p \<Longrightarrow> get_ase (put_ase p e s) q = get_ase s q"
  by (cases p; cases q; cases "l_ase (le_link s ! fst p)"; cases "fst p = fst q")
     (auto simp: get_ase_def put_ase_def arr_get_def nth_list_update)

lemma bind_SomeE: "Option.bind m f = Some y \<Longrightarrow> (\<And>a. m = Some a \<Longrightarrow> f a = Some y \<Longrightarrow> P) \<Longrightarrow> P"
  by (cases m) auto

text \<open>What an operation that only asks and notifies leaves as it was.\<close>

definition same_db :: "st \<Rightarrow> st \<Rightarrow> bool" where
  "same_db s s' \<longleftrightarrow> le_link s' = le_link s \<and> snk_ase_num s' = snk_ase_num s \<and> src_ase_num s' = src_ase_num s"

lemma same_db_refl [simp, intro]: "same_db s s"
  by (simp add: same_db_def)

lemma same_db_emit [simp]: "same_db s (emit ev t) \<longleftrightarrow> same_db s t"
  by (simp add: same_db_def)

lemma same_db_trans: "same_db s t \<Longrightarrow> same_db t u \<Longrightarrow> same_db s u"
  by (simp add: same_db_def)

lemma same_db_get: "same_db s t \<Longrightarrow> get_ase t q = get_ase s q"
  by (simp add: same_db_def get_ase_def)

lemma gen_char_data_db: "ase_gen_char_data en conn i s = Some (d, s') \<Longrightarrow> same_db s s'"
  by (auto simp: ase_gen_char_data_def Let_def elim!: bind_SomeE split: option.split_asm if_split_asm)

lemma ase_notify_db: "ascs_send_ase_notify en conn i d s = Some (r, s') \<Longrightarrow> same_db s s'"
  by (auto simp: ascs_send_ase_notify_def Let_def elim!: bind_SomeE split: option.split_asm if_split_asm)

lemma send_notify_db: "ase_sm_send_notify en conn p s = Some s' \<Longrightarrow> same_db s s'"
  by (auto simp: ase_sm_send_notify_def elim!: bind_SomeE split: option.split_asm
      dest!: gen_char_data_db ase_notify_db intro: same_db_trans)

lemma send_notify_get: "ase_sm_send_notify en conn p s = Some s' \<Longrightarrow> get_ase s' q = get_ase s q"
  by (rule same_db_get [OF send_notify_db])

section \<open>The isochronous channel of an endpoint\<close>

datatype ase_sm_check = ASE_SM_CHECK_DISABLE | ASE_SM_CHECK_ENABLE | ASE_SM_CHECK_RELEASE

text \<open>The direction of the data path on the side of the server: a sink receives, its path is the output.\<close>

definition data_path_flag :: "ase_entry \<Rightarrow> u8" where
  "data_path_flag e = (if e_direction e = SERVER_AUDIO_SINK then DATA_PATH_OUTPUT_FLAG else DATA_PATH_INPUT_FLAG)"

abbreviation isoch_info_of :: "env \<Rightarrow> st \<Rightarrow> ase_entry \<Rightarrow> bool \<times> isoch_info" where
  "isoch_info_of en s e \<equiv> isoch_of en (evlog s) (e_cis_conn_handle e)"

definition ase_sm_check_iosch_status :: "env \<Rightarrow> ase_sm_check \<Rightarrow> ase_entry \<Rightarrow> st \<Rightarrow> bool" where
  "ase_sm_check_iosch_status en ty e s =
     (let (ret, info) = isoch_info_of en s e
      in case ty of
           ASE_SM_CHECK_ENABLE \<Rightarrow>
             ret \<and> i_state info = ISOCH_STATE_CONN \<and> has (i_data_path_flags info) (data_path_flag e)
         | ASE_SM_CHECK_DISABLE \<Rightarrow>
             ret \<longrightarrow> i_state info = ISOCH_STATE_IDLE \<or>
                   (i_state info = ISOCH_STATE_CONN \<and> \<not> has (i_data_path_flags info) (data_path_flag e))
         | ASE_SM_CHECK_RELEASE \<Rightarrow> ret \<longrightarrow> i_state info = ISOCH_STATE_IDLE)"

definition ascs_setup_data_path :: "env \<Rightarrow> ase_ptr \<Rightarrow> st \<Rightarrow> (bool \<times> st) option" where
  "ascs_setup_data_path en p s = do {
     e \<leftarrow> get_ase s p;
     let path = (if e_direction e = SERVER_AUDIO_SINK then DATA_PATH_ADD_OUTPUT else DATA_PATH_ADD_INPUT);
     let e1 = e\<lparr>e_added_path_direction := data_path_flag e\<rparr>;
     let s1 = emit (Ev_setup_path (e_cis_conn_handle e) path) (put_ase p e1 s);
     Some (if setup_ok en (evlog s1) then (True, s1)
           else (False, put_ase p (e1\<lparr>e_added_path_direction := 0\<rparr>) s1))
   }"

definition ascs_remove_data_path :: "env \<Rightarrow> ase_ptr \<Rightarrow> st \<Rightarrow> (bool \<times> st) option" where
  "ascs_remove_data_path en p s = do {
     e \<leftarrow> get_ase s p;
     let s1 = emit (Ev_remove_path (e_cis_conn_handle e) (data_path_flag e)) s;
     Some (remove_ok en (evlog s1), s1)
   }"

lemma remove_path_db: "ascs_remove_data_path en p s = Some (r, s') \<Longrightarrow> same_db s s'"
  by (auto simp: ascs_remove_data_path_def elim!: bind_SomeE)

text \<open>
  \<open>ascs_check_current_state\<close> and \<open>ase_action_released\<close> call each other; the second changes the state from
  releasing to idle before it calls the first, which ends the recursion.
\<close>

definition app_ready :: "ase_entry \<Rightarrow> bool" where
  "app_ready e \<longleftrightarrow> e_app_handshake e = False \<or> (e_app_handshake e = True \<and> e_app_handshake_rec e = True)"

fun releasing_now :: "st \<Rightarrow> ase_ptr \<Rightarrow> nat" where
  "releasing_now s p = (case get_ase s p of None \<Rightarrow> 0
     | Some e \<Rightarrow> if e_ase_state e = ASE_STATE_RELEASING then 1 else 0)"

lemma change_state_sets: "e_ase_state (ascs_change_state x e) = x"
  by (simp add: ascs_change_state_def)

function ascs_check_current_state :: "env \<Rightarrow> u16 \<Rightarrow> ase_ptr \<Rightarrow> st \<Rightarrow> st option"
  and ase_action_released :: "env \<Rightarrow> u16 \<Rightarrow> ase_ptr \<Rightarrow> st \<Rightarrow> (bool \<times> st) option"
where
  "ascs_check_current_state en conn p s = do {
     e \<leftarrow> get_ase s p;
     let (isoch_exist, info) = isoch_info_of en s e;
     let conn_up = (i_state info = ISOCH_STATE_CONN);
     let path_up = has (i_data_path_flags info) (data_path_flag e);
     (if e_ase_state e = ASE_STATE_QOS_CONFIGURED then
        (if conn_up \<and> path_up \<and> \<not> i_data_path_removing info
         then map_option snd (ascs_remove_data_path en p s) else Some s)
      else if e_ase_state e = ASE_STATE_ENABLING then
        (if isoch_exist \<and> conn_up \<and> \<not> i_data_path_adding info then
           (if e_direction e = SERVER_AUDIO_SOURCE then
              (if \<not> path_up \<and> e_rec_start_ready e
               then map_option snd (ascs_setup_data_path en p s) else Some s)
            else if app_ready e then map_option snd (ascs_setup_data_path en p s) else Some s)
         else Some s)
      else if e_ase_state e = ASE_STATE_STREAMING then
        (if isoch_exist \<and> conn_up \<and> \<not> path_up \<and> \<not> i_data_path_adding info
         then map_option snd (ascs_setup_data_path en p s) else Some s)
      else if e_ase_state e = ASE_STATE_DISABLING then
        (if isoch_exist \<and> conn_up \<and> \<not> i_data_path_removing info \<and> e_direction e = SERVER_AUDIO_SOURCE \<and>
            path_up \<and> e_rec_stop_ready e
         then map_option snd (ascs_remove_data_path en p s) else Some s)
      else if e_ase_state e = ASE_STATE_RELEASING then do {
        s1 \<leftarrow> (if isoch_exist \<and> conn_up \<and> \<not> i_data_path_removing info \<and> path_up
               then map_option snd (ascs_remove_data_path en p s) else Some s);
        (if (isoch_exist \<and> i_state info = ISOCH_STATE_IDLE) \<or> \<not> isoch_exist
         then map_option snd (ase_action_released en conn p s1)
         else Some s1)
      }
      else Some s)
   }"
| "ase_action_released en conn p s = do {
     e \<leftarrow> get_ase s p;
     (if \<not> ase_sm_check_iosch_status en ASE_SM_CHECK_RELEASE e s then Some (False, s)
      else if e_ase_state e = ASE_STATE_RELEASING then do {
        s1 \<leftarrow> ase_sm_send_notify en conn p (put_ase p (ascs_change_state ASE_STATE_IDLE e) s);
        s2 \<leftarrow> ascs_check_current_state en conn p s1;
        Some (True, s2)
      }
      else Some (False, s))
   }"
  by pat_completeness auto
termination
proof (relation "measure (\<lambda>x. case x of Inl (_, _, p, s) \<Rightarrow> 2 * releasing_now s p + 1
    | Inr (_, _, p, s) \<Rightarrow> 2 * releasing_now s p)", goal_cases)
  case (2 en conn p s e x isoch_exist info conn_up path_up s1)
  then have "same_db s s1" by (auto split: if_split_asm dest: remove_path_db)
  then show ?case using 2 by (simp add: same_db_get)
next
  case (3 en conn p s e s1)
  then have "get_ase s1 p = Some (ascs_change_state ASE_STATE_IDLE e)"
    by (simp add: send_notify_get [of _ _ _ _ s1])
  then show ?case using 3 by (simp add: change_state_sets)
qed simp

section \<open>The operations\<close>

text \<open>
  \<open>if (len) p = ble_audio_mem_zalloc(len); if (p == NULL) return false; memcpy(p, data, len);\<close>, after the old
  buffer was freed. The first component says that the operation goes on.
\<close>

definition copy_buffer :: "env \<Rightarrow> u8 \<Rightarrow> u8 list \<Rightarrow> st \<Rightarrow> (bool \<times> u8 list option \<times> st) option" where
  "copy_buffer en len dat s =
     (if len = 0 then Some (True, None, s)
      else let s1 = emit (Ev_alloc (unat len)) s
           in if mem_ok en (evlog s1)
              then map_option (\<lambda>b. (True, Some b, s1)) (mem_read (Some dat) (unat len))
              else Some (False, None, s1))"

text \<open>\<open>1 << (target_phy - 1)\<close> as a byte, undefined for a negative count and when the sign bit is reached\<close>

definition phy_bit :: "u8 \<Rightarrow> u8 option" where
  "phy_bit phy = (if phy = 0 \<or> phy > 31 then None else Some (push_bit (unat phy - 1) 1))"

text \<open>
  The preferred QoS of an LC3 configuration. \<open>qos_preferred_cfg_get_by_codec\<close> also returns true when no row of the
  table matches, and then \<open>qos_data\<close> keeps what was on the stack, the argument \<open>junk\<close>.
\<close>

definition preferred_data :: "qos_cfg_preferred \<Rightarrow> u16 \<Rightarrow> u8 \<Rightarrow> codec_state_data \<Rightarrow> codec_state_data" where
  "preferred_data qos min_latency phy d =
     (let lat = (if min_latency \<noteq> 0 \<and> q_max_transport_latency qos < min_latency
                 then min_latency else q_max_transport_latency qos)
      in d\<lparr>c_supported_framing := AUDIO_UNFRAMED_SUPPORTED,
            c_preferred_retrans_number := q_retransmission_number qos,
            c_preferred_phy := phy OR ASE_LE_2M_PHY_BIT,
            c_max_transport_latency := uint16_to_array lat,
            c_presentation_delay_min := uint24_to_array 0,
            c_presentation_delay_max := uint24_to_array (q_presentation_delay qos + 10000),
            c_preferred_presentation_delay_min := uint24_to_array 0,
            c_preferred_presentation_delay_max := uint24_to_array 0\<rparr>)"

definition cfg_preferred :: "qos_cfg_preferred \<Rightarrow> cp_codec_cfg \<Rightarrow> ase_entry \<Rightarrow> ase_entry option" where
  "cfg_preferred junk prm e =
     (if fst (p_codec_id prm) \<noteq> LC3_CODEC_ID then Some e
      else do {
        (ok, q) \<leftarrow> qos_preferred_cfg_get_by_codec (Some (e_codec_cfg e)) (p_target_latency prm) (Some junk);
        (if \<not> ok then Some e
         else do {
           qos \<leftarrow> q;
           b \<leftarrow> phy_bit (p_target_phy prm);
           Some (e\<lparr>e_codec_state_data := preferred_data qos (e_min_transport_latency e) b (e_codec_state_data e)\<rparr>)
         })
      })"

definition ask_prefer_qos :: "env \<Rightarrow> u16 \<Rightarrow> ase_entry \<Rightarrow> cp_codec_cfg \<Rightarrow> st \<Rightarrow> st option" where
  "ask_prefer_qos en conn e prm s =
     (let s1 = emit (Ev_msg (Msg_get_prefer_qos \<lparr>g_conn_handle = conn, g_ase_id = e_ase_id e,
                 g_direction = e_direction e, g_codec_cfg = e_codec_cfg e,
                 g_target_latency = p_target_latency prm, g_target_phy = p_target_phy prm\<rparr>)) s
      in case app_prefer en (evlog s1) of
           None \<Rightarrow> Some s1
         | Some pq \<Rightarrow> map_option snd (ascs_cfg_ase_prefer_qos conn (e_ase_id e) pq s1))"

text \<open>\<open>ase_sm_send_notify(conn_handle, p_entry); ascs_check_current_state(conn_handle, p_entry);\<close>\<close>

definition notify_and_check :: "env \<Rightarrow> u16 \<Rightarrow> ase_ptr \<Rightarrow> st \<Rightarrow> st option" where
  "notify_and_check en conn p s = do {
     s1 \<leftarrow> ase_sm_send_notify en conn p s;
     ascs_check_current_state en conn p s1
   }"

definition ase_action_cfg_codec ::
    "env \<Rightarrow> u16 \<Rightarrow> ase_ptr \<Rightarrow> cp_codec_cfg \<Rightarrow> u8 list \<Rightarrow> st \<Rightarrow> (bool \<times> st) option" where
  "ase_action_cfg_codec en conn p prm dat s = do {
     e \<leftarrow> get_ase s p;
     (if e_ase_state e \<noteq> ASE_STATE_IDLE \<and> e_ase_state e \<noteq> ASE_STATE_CODEC_CONFIGURED \<and>
         e_ase_state e \<noteq> ASE_STATE_QOS_CONFIGURED then Some (False, s)
      else do {
        let e1 = ascs_change_state ASE_STATE_CODEC_CONFIGURED e;
        (parsed, c) \<leftarrow> codec_cfg_parse (p_codec_spec_cfg_len prm) (Some dat) (Some (e_codec_cfg e1));
        cfg \<leftarrow> c;
        let e2 = e1\<lparr>e_codec_cfg := cfg\<rparr>;
        (if \<not> parsed then Some (False, put_ase p e2 s)
         else do {
           (ok, b, s1) \<leftarrow> copy_buffer en (p_codec_spec_cfg_len prm) dat s;
           let e3 = e2\<lparr>e_codec_state_data := (e_codec_state_data e2)\<lparr>
                           c_codec_spec_cfg_len := p_codec_spec_cfg_len prm, c_codec_id := p_codec_id prm\<rparr>,
                       e_codec_spec_cfg := b, e_codec_spec_cfg_len := p_codec_spec_cfg_len prm\<rparr>;
           (if \<not> ok then Some (False, put_ase p e3 s1)
            else do {
              e4 \<leftarrow> cfg_preferred (stack_qos en (evlog s1)) prm e3;
              s2 \<leftarrow> ask_prefer_qos en conn e4 prm (put_ase p e4 s1);
              s3 \<leftarrow> notify_and_check en conn p s2;
              Some (True, s3)
            })
         })
      })
   }"

definition ase_action_cfg_qos :: "env \<Rightarrow> u16 \<Rightarrow> ase_ptr \<Rightarrow> qos_state_data \<Rightarrow> st \<Rightarrow> (bool \<times> st) option" where
  "ase_action_cfg_qos en conn p prm s = do {
     e \<leftarrow> get_ase s p;
     (if e_ase_state e = ASE_STATE_CODEC_CONFIGURED \<or> e_ase_state e = ASE_STATE_QOS_CONFIGURED then do {
        s1 \<leftarrow> notify_and_check en conn p
                (put_ase p ((ascs_change_state ASE_STATE_QOS_CONFIGURED e)\<lparr>e_qos_state_data := prm\<rparr>) s);
        Some (True, s1)
      } else Some (False, s))
   }"

definition ase_action_enable ::
    "env \<Rightarrow> u16 \<Rightarrow> ase_ptr \<Rightarrow> u8 \<Rightarrow> u8 list \<Rightarrow> st \<Rightarrow> (bool \<times> st) option" where
  "ase_action_enable en conn p metadata_len metadata s = do {
     e \<leftarrow> get_ase s p;
     (if e_ase_state e \<noteq> ASE_STATE_QOS_CONFIGURED then Some (False, s)
      else do {
        (ok, b, s1) \<leftarrow> copy_buffer en metadata_len metadata s;
        let e1 = (ascs_change_state ASE_STATE_ENABLING e)\<lparr>e_metadata := b, e_metadata_len := metadata_len\<rparr>;
        (if \<not> ok then Some (False, put_ase p e1 s1)
         else do {
           let e2 = (if e_direction e1 = SERVER_AUDIO_SINK \<and>
                        ase_sm_check_iosch_status en ASE_SM_CHECK_ENABLE e1 s1 \<and> app_ready e1
                     then ascs_change_state ASE_STATE_STREAMING e1 else e1);
           s2 \<leftarrow> notify_and_check en conn p (put_ase p e2 s1);
           Some (True, s2)
         })
      })
   }"

definition ase_action_rec_start_ready :: "env \<Rightarrow> u16 \<Rightarrow> ase_ptr \<Rightarrow> st \<Rightarrow> (bool \<times> st) option" where
  "ase_action_rec_start_ready en conn p s = do {
     e \<leftarrow> get_ase s p;
     (if e_ase_state e = ASE_STATE_ENABLING \<and> e_direction e = SERVER_AUDIO_SOURCE then do {
        let e1 = e\<lparr>e_rec_start_ready := True\<rparr>;
        let e2 = (if ase_sm_check_iosch_status en ASE_SM_CHECK_ENABLE e1 s
                  then ascs_change_state ASE_STATE_STREAMING e1 else e1);
        s1 \<leftarrow> (if e_ase_state e2 \<noteq> e_ase_state e then ase_sm_send_notify en conn p (put_ase p e2 s)
               else Some (put_ase p e2 s));
        s2 \<leftarrow> ascs_check_current_state en conn p s1;
        Some (True, s2)
      } else Some (False, s))
   }"

definition ase_action_rec_stop_ready :: "env \<Rightarrow> u16 \<Rightarrow> ase_ptr \<Rightarrow> st \<Rightarrow> (bool \<times> st) option" where
  "ase_action_rec_stop_ready en conn p s = do {
     e \<leftarrow> get_ase s p;
     (if e_ase_state e = ASE_STATE_DISABLING \<and> e_direction e = SERVER_AUDIO_SOURCE then do {
        let e1 = e\<lparr>e_rec_stop_ready := True\<rparr>;
        let e2 = (if ase_sm_check_iosch_status en ASE_SM_CHECK_DISABLE e1 s
                  then ascs_change_state ASE_STATE_QOS_CONFIGURED e1 else e1);
        s1 \<leftarrow> (if e_ase_state e2 \<noteq> e_ase_state e then ase_sm_send_notify en conn p (put_ase p e2 s)
               else Some (put_ase p e2 s));
        s2 \<leftarrow> ascs_check_current_state en conn p s1;
        Some (True, s2)
      } else Some (False, s))
   }"

text \<open>\<open>ase_switch_to_streaming\<close> and \<open>ase_switch_to_qos_cfg\<close>\<close>

definition ase_switch_to_streaming :: "env \<Rightarrow> u16 \<Rightarrow> ase_ptr \<Rightarrow> st \<Rightarrow> (bool \<times> st) option" where
  "ase_switch_to_streaming en conn p s = do {
     e \<leftarrow> get_ase s p;
     (if e_ase_state e = ASE_STATE_ENABLING then do {
        s1 \<leftarrow> notify_and_check en conn p (put_ase p (ascs_change_state ASE_STATE_STREAMING e) s);
        Some (True, s1)
      } else Some (False, s))
   }"

definition ase_switch_to_qos_cfg :: "env \<Rightarrow> u16 \<Rightarrow> ase_ptr \<Rightarrow> st \<Rightarrow> (bool \<times> st) option" where
  "ase_switch_to_qos_cfg en conn p s = do {
     e \<leftarrow> get_ase s p;
     (if e_ase_state e = ASE_STATE_DISABLING then do {
        s1 \<leftarrow> notify_and_check en conn p (put_ase p (ascs_change_state ASE_STATE_QOS_CONFIGURED e) s);
        Some (True, s1)
      } else Some (False, s))
   }"

definition ase_action_disable :: "env \<Rightarrow> u16 \<Rightarrow> ase_ptr \<Rightarrow> st \<Rightarrow> (bool \<times> st) option" where
  "ase_action_disable en conn p s = do {
     e \<leftarrow> get_ase s p;
     (if e_ase_state e = ASE_STATE_ENABLING \<or> e_ase_state e = ASE_STATE_STREAMING then do {
        s1 \<leftarrow> notify_and_check en conn p
                (put_ase p (ascs_change_state (if e_direction e = SERVER_AUDIO_SINK
                    then ASE_STATE_QOS_CONFIGURED else ASE_STATE_DISABLING) e) s);
        Some (True, s1)
      } else Some (False, s))
   }"

definition ase_action_update_metadata ::
    "env \<Rightarrow> u16 \<Rightarrow> ase_ptr \<Rightarrow> u8 \<Rightarrow> u8 list \<Rightarrow> st \<Rightarrow> (bool \<times> st) option" where
  "ase_action_update_metadata en conn p metadata_len metadata s = do {
     e \<leftarrow> get_ase s p;
     (if e_ase_state e \<noteq> ASE_STATE_ENABLING \<and> e_ase_state e \<noteq> ASE_STATE_STREAMING then Some (False, s)
      else do {
        (ok, b, s1) \<leftarrow> copy_buffer en metadata_len metadata s;
        let e1 = e\<lparr>e_metadata := b, e_metadata_len := metadata_len\<rparr>;
        (if \<not> ok then Some (False, put_ase p e1 s1)
         else do {
           s2 \<leftarrow> notify_and_check en conn p (put_ase p e1 s1);
           Some (True, s2)
         })
      })
   }"

definition ase_action_release :: "env \<Rightarrow> u16 \<Rightarrow> ase_ptr \<Rightarrow> st \<Rightarrow> (bool \<times> st) option" where
  "ase_action_release en conn p s = do {
     e \<leftarrow> get_ase s p;
     (if e_ase_state e \<noteq> ASE_STATE_IDLE \<and> e_ase_state e \<noteq> ASE_STATE_RELEASING then do {
        s1 \<leftarrow> notify_and_check en conn p (put_ase p (ascs_change_state ASE_STATE_RELEASING e) s);
        Some (True, s1)
      } else Some (False, s))
   }"

section \<open>Well-formed endpoints\<close>

definition good_mem :: "env \<Rightarrow> bool" where
  "good_mem en \<longleftrightarrow> (\<forall>l. mem_ok en l)"

text \<open>A buffer and its length: \<open>NULL\<close> exactly with length zero.\<close>

fun buf_ok :: "u8 list option \<Rightarrow> u8 \<Rightarrow> bool" where
  "buf_ok None len \<longleftrightarrow> len = 0"
| "buf_ok (Some b) len \<longleftrightarrow> len \<noteq> 0 \<and> length b = unat len"

definition ent_ok :: "bool \<Rightarrow> ase_entry \<Rightarrow> bool" where
  "ent_ok good e \<longleftrightarrow>
     e_ase_state e \<le> ASE_STATE_RELEASING \<and>
     (e_direction e = SERVER_AUDIO_SINK \<or> e_direction e = SERVER_AUDIO_SOURCE) \<and>
     (e_ase_state e = ASE_STATE_DISABLING \<longrightarrow> e_direction e = SERVER_AUDIO_SOURCE) \<and>
     c_codec_spec_cfg_len (e_codec_state_data e) = e_codec_spec_cfg_len e \<and>
     (good \<longrightarrow> buf_ok (e_codec_spec_cfg e) (e_codec_spec_cfg_len e) \<and> buf_ok (e_metadata e) (e_metadata_len e)) \<and>
     (e_ase_state e = ASE_STATE_IDLE \<longrightarrow> e_codec_state_data e = zero_codec_state \<and> e_codec_cfg e = zero_cfg \<and>
        e_codec_spec_cfg e = None) \<and>
     (e_ase_state e = ASE_STATE_IDLE \<or> e_ase_state e = ASE_STATE_CODEC_CONFIGURED \<longrightarrow>
        e_qos_state_data e = zero_qos_state \<and> e_metadata_len e = 0) \<and>
     (e_ase_state e = ASE_STATE_IDLE \<or> e_ase_state e = ASE_STATE_CODEC_CONFIGURED \<or>
        e_ase_state e = ASE_STATE_QOS_CONFIGURED \<longrightarrow> e_metadata e = None) \<and>
     (e_rec_start_ready e \<longrightarrow> e_direction e = SERVER_AUDIO_SOURCE \<and>
        (e_ase_state e = ASE_STATE_ENABLING \<or> e_ase_state e = ASE_STATE_DISABLING)) \<and>
     (e_rec_stop_ready e \<longrightarrow> e_direction e = SERVER_AUDIO_SOURCE \<and> e_ase_state e = ASE_STATE_DISABLING)"

text \<open>The place of an endpoint in its table gives its identifier and its direction.\<close>

definition place_ok :: "st \<Rightarrow> nat \<Rightarrow> ase_entry \<Rightarrow> bool" where
  "place_ok s i e \<longleftrightarrow> e_ase_id e = of_nat (i + 1) \<and>
     e_direction e = (if i < unat (snk_ase_num s) then SERVER_AUDIO_SINK else SERVER_AUDIO_SOURCE)"

definition st_ok :: "bool \<Rightarrow> st \<Rightarrow> bool" where
  "st_ok good s \<longleftrightarrow> ase_total s \<le> 255 \<and>
     (\<forall>l < length (le_link s). \<forall>tab. l_ase (le_link s ! l) = Some tab \<longrightarrow> length tab = ase_total s) \<and>
     (\<forall>p e. get_ase s p = Some e \<longrightarrow> ent_ok good e \<and> place_ok s (snd p) e)"

lemma st_ok_get: "st_ok good s \<Longrightarrow> get_ase s p = Some e \<Longrightarrow> ent_ok good e \<and> place_ok s (snd p) e"
  by (cases p) (simp add: st_ok_def)

text \<open>What stays of an endpoint in every operation.\<close>

definition same_place :: "ase_entry \<Rightarrow> ase_entry \<Rightarrow> bool" where
  "same_place e e' \<longleftrightarrow> e_ase_id e' = e_ase_id e \<and> e_direction e' = e_direction e \<and> e_conn_handle e' = e_conn_handle e"

lemma same_place_refl [simp]: "same_place e e"
  by (simp add: same_place_def)

lemma change_state_place [simp]:
  "e_ase_id (ascs_change_state x e) = e_ase_id e" "e_direction (ascs_change_state x e) = e_direction e"
  "e_conn_handle (ascs_change_state x e) = e_conn_handle e"
  "e_cis_conn_handle (ascs_change_state x e) = e_cis_conn_handle e"
  by (simp_all add: ascs_change_state_def)

text \<open>
  A step of the endpoint \<open>p\<close>: \<open>L\<close> relates its direction, the old and the new state; every other endpoint keeps its
  state, all keep their place and stay well-formed.
\<close>

definition same_shape :: "st \<Rightarrow> st \<Rightarrow> bool" where
  "same_shape s s' \<longleftrightarrow> snk_ase_num s' = snk_ase_num s \<and> src_ase_num s' = src_ase_num s \<and>
     map (\<lambda>l. (l_used l, l_conn_id l, l_conn_handle l, l_mtu_size l, map_option length (l_ase l))) (le_link s') =
     map (\<lambda>l. (l_used l, l_conn_id l, l_conn_handle l, l_mtu_size l, map_option length (l_ase l))) (le_link s)"

definition ase_step :: "bool \<Rightarrow> ase_ptr \<Rightarrow> (u8 \<Rightarrow> u8 \<Rightarrow> u8 \<Rightarrow> bool) \<Rightarrow> st \<Rightarrow> st \<Rightarrow> bool" where
  "ase_step good p L s s' \<longleftrightarrow> same_shape s s' \<and>
     (\<forall>q e. get_ase s q = Some e \<longrightarrow>
        (\<exists>e'. get_ase s' q = Some e' \<and> same_place e e' \<and> (ent_ok good e \<longrightarrow> ent_ok good e') \<and>
              (if q = p then L (e_direction e) (e_ase_state e) (e_ase_state e') else e_ase_state e' = e_ase_state e)))"

lemma map_list_update_id: "(i < length xs \<Longrightarrow> f y = f (xs ! i)) \<Longrightarrow> map f (xs[i := y]) = map f xs"
  by (cases "i < length xs") (auto simp: map_update list_update_same_conv list_update_beyond)

lemma same_shape_put: "same_shape s (put_ase p e s)"
  unfolding same_shape_def put_ase_def
  by (auto intro!: map_list_update_id simp: option.map_comp o_def)

lemma same_shape_db: "same_db s s' \<Longrightarrow> same_shape s s'"
  by (simp add: same_db_def same_shape_def)

lemma same_shape_trans: "same_shape s t \<Longrightarrow> same_shape t u \<Longrightarrow> same_shape s u"
  by (simp add: same_shape_def)

lemma ase_step_put:
  assumes "get_ase s p = Some e" "same_place e e'" "ent_ok good e \<Longrightarrow> ent_ok good e'"
    "L (e_direction e) (e_ase_state e) (e_ase_state e')"
  shows "ase_step good p L s (put_ase p e' s)"
  unfolding ase_step_def
proof (intro conjI allI impI)
  fix q d assume q: "get_ase s q = Some d"
  show "\<exists>d'. get_ase (put_ase p e' s) q = Some d' \<and> same_place d d' \<and> (ent_ok good d \<longrightarrow> ent_ok good d') \<and>
      (if q = p then L (e_direction d) (e_ase_state d) (e_ase_state d') else e_ase_state d' = e_ase_state d)"
    using assms q by (cases "q = p") (auto simp: get_put_other)
qed (rule same_shape_put)

lemma ase_step_db: "same_db s t \<Longrightarrow> (\<And>d x. L d x x) \<Longrightarrow> ase_step good p L s t"
  by (simp add: ase_step_def same_shape_db same_db_get)

lemma ase_step_mono:
  "ase_step good p L s t \<Longrightarrow> (\<And>d x y. L d x y \<Longrightarrow> M d x y) \<Longrightarrow> ase_step good p M s t"
  by (force simp: ase_step_def)

lemma ase_step_trans:
  assumes "ase_step good p L s t" "ase_step good p M t u"
    and "\<And>d x y z. L d x y \<Longrightarrow> M d y z \<Longrightarrow> N d x z"
  shows "ase_step good p N s u"
  unfolding ase_step_def
proof (intro conjI allI impI)
  show "same_shape s u" using assms(1,2) by (auto simp: ase_step_def intro: same_shape_trans)
  fix q e assume "get_ase s q = Some e"
  with assms(1) obtain e1 where e1: "get_ase t q = Some e1" "same_place e e1" "ent_ok good e \<longrightarrow> ent_ok good e1"
      "if q = p then L (e_direction e) (e_ase_state e) (e_ase_state e1) else e_ase_state e1 = e_ase_state e"
    unfolding ase_step_def by blast
  with assms(2) obtain e2 where e2: "get_ase u q = Some e2" "same_place e1 e2" "ent_ok good e1 \<longrightarrow> ent_ok good e2"
      "if q = p then M (e_direction e1) (e_ase_state e1) (e_ase_state e2) else e_ase_state e2 = e_ase_state e1"
    unfolding ase_step_def by blast
  show "\<exists>e'. get_ase u q = Some e' \<and> same_place e e' \<and> (ent_ok good e \<longrightarrow> ent_ok good e') \<and>
      (if q = p then N (e_direction e) (e_ase_state e) (e_ase_state e') else e_ase_state e' = e_ase_state e)"
    using e1 e2 assms(3) by (intro exI [of _ e2]) (auto simp: same_place_def split: if_split_asm)
qed

text \<open>The endpoint itself does not move.\<close>

definition stays :: "u8 \<Rightarrow> u8 \<Rightarrow> u8 \<Rightarrow> bool" where
  [simp]: "stays d x y \<longleftrightarrow> y = x"

lemma ase_step_after_db: "ase_step good p L s t \<Longrightarrow> same_db t u \<Longrightarrow> ase_step good p L s u"
  by (erule ase_step_trans [OF _ ase_step_db [where L = stays]]) auto

lemma shape_total: "same_shape s t \<Longrightarrow> ase_total t = ase_total s"
  by (simp add: same_shape_def ase_total_def)

lemma shape_tables:
  assumes "same_shape s t"
  shows "length (le_link t) = length (le_link s)"
    and "l < length (le_link s) \<Longrightarrow> map_option length (l_ase (le_link t ! l)) = map_option length (l_ase (le_link s ! l))"
proof -
  let ?f = "\<lambda>l. (l_used l, l_conn_id l, l_conn_handle l, l_mtu_size l, map_option length (l_ase l))"
  have m: "map ?f (le_link t) = map ?f (le_link s)" using assms by (simp add: same_shape_def)
  from map_eq_imp_length_eq [OF m] show len: "length (le_link t) = length (le_link s)" .
  show "map_option length (l_ase (le_link t ! l)) = map_option length (l_ase (le_link s ! l))" if "l < length (le_link s)"
    using arg_cong [OF m, of "\<lambda>xs. snd (snd (snd (snd (xs ! l))))"] that len by simp
qed

lemma get_ase_iff: "get_ase s p \<noteq> None \<longleftrightarrow> fst p < length (le_link s) \<and>
    (\<exists>n. map_option length (l_ase (le_link s ! fst p)) = Some n \<and> snd p < n)"
  by (cases "l_ase (le_link s ! fst p)") (simp_all add: get_ase_def arr_get_def)

text \<open>Every endpoint keeps its place and stays well-formed.\<close>

definition ase_keeps :: "bool \<Rightarrow> st \<Rightarrow> st \<Rightarrow> bool" where
  "ase_keeps good s s' \<longleftrightarrow> same_shape s s' \<and>
     (\<forall>q e. get_ase s q = Some e \<longrightarrow>
        (\<exists>e'. get_ase s' q = Some e' \<and> same_place e e' \<and> (ent_ok good e \<longrightarrow> ent_ok good e')))"

lemma ase_keeps_ok:
  assumes "ase_keeps good s t" "st_ok good s"
  shows "st_ok good t"
proof -
  have sh: "same_shape s t" using assms(1) by (simp add: ase_keeps_def)
  have tabs: "length tab = ase_total s" if "l < length (le_link t)" "l_ase (le_link t ! l) = Some tab" for l tab
  proof -
    have l: "l < length (le_link s)" using that(1) shape_tables(1) [OF sh] by simp
    have "map_option length (l_ase (le_link s ! l)) = Some (length tab)"
      using shape_tables(2) [OF sh l] that(2) by simp
    then obtain tab' where "l_ase (le_link s ! l) = Some tab'" "length tab' = length tab" by auto
    then show ?thesis using assms(2) l unfolding st_ok_def by force
  qed
  moreover have "ent_ok good e' \<and> place_ok t (snd q) e'" if g: "get_ase t q = Some e'" for q e'
  proof -
    have "get_ase s q \<noteq> None"
    proof -
      have "get_ase t q \<noteq> None" using g by simp
      then have "fst q < length (le_link t)"
        and "\<exists>n. map_option length (l_ase (le_link t ! fst q)) = Some n \<and> snd q < n"
        unfolding get_ase_iff by blast+
      then show ?thesis unfolding get_ase_iff using shape_tables [OF sh] by simp
    qed
    then obtain e where e: "get_ase s q = Some e" by blast
    then have "ent_ok good e" "place_ok s (snd q) e" using st_ok_get [OF assms(2)] by blast+
    moreover have "same_place e e'" "ent_ok good e \<longrightarrow> ent_ok good e'"
      using e assms(1) g unfolding ase_keeps_def by fastforce+
    ultimately show ?thesis using sh by (simp add: place_ok_def same_place_def same_shape_def)
  qed
  ultimately show ?thesis using assms(2) sh unfolding st_ok_def by (auto simp: shape_total)
qed

lemma ase_step_ok:
  assumes "ase_step good p L s t" "st_ok good s"
  shows "st_ok good t"
proof (rule ase_keeps_ok [OF _ assms(2)])
  show "ase_keeps good s t" using assms(1) unfolding ase_step_def ase_keeps_def by meson
qed

section \<open>Every operation is a step of its endpoint\<close>

declare ascs_check_current_state.simps [simp del] ase_action_released.simps [simp del]

lemma word_states: "x \<le> (6 :: u8) \<longleftrightarrow> x = 0 \<or> x = 1 \<or> x = 2 \<or> x = 3 \<or> x = 4 \<or> x = 5 \<or> x = 6"
proof
  assume "x \<le> 6"
  then have "unat x \<le> 6" by (simp add: word_le_nat_alt)
  then have "unat x \<in> {0, 1, 2, 3, 4, 5, 6}" by auto
  then show "x = 0 \<or> x = 1 \<or> x = 2 \<or> x = 3 \<or> x = 4 \<or> x = 5 \<or> x = 6"
    by (auto simp: word_unat_eq_iff)
qed auto

lemma ent_ok_change:
  assumes "ent_ok good e"
  shows "e_ase_state e = ASE_STATE_RELEASING \<Longrightarrow> ent_ok good (ascs_change_state ASE_STATE_IDLE e)"
    and "e_ase_state e = ASE_STATE_IDLE \<or> e_ase_state e = ASE_STATE_CODEC_CONFIGURED \<or>
         e_ase_state e = ASE_STATE_QOS_CONFIGURED \<Longrightarrow> ent_ok good (ascs_change_state ASE_STATE_CODEC_CONFIGURED e)"
    and "e_ase_state e \<noteq> ASE_STATE_IDLE \<Longrightarrow> ent_ok good (ascs_change_state ASE_STATE_QOS_CONFIGURED e)"
    and "e_ase_state e = ASE_STATE_ENABLING \<Longrightarrow> ent_ok good (ascs_change_state ASE_STATE_STREAMING e)"
    and "e_ase_state e = ASE_STATE_ENABLING \<or> e_ase_state e = ASE_STATE_STREAMING \<Longrightarrow>
         e_direction e = SERVER_AUDIO_SOURCE \<Longrightarrow> ent_ok good (ascs_change_state ASE_STATE_DISABLING e)"
    and "e_ase_state e \<noteq> ASE_STATE_IDLE \<Longrightarrow> ent_ok good (ascs_change_state ASE_STATE_RELEASING e)"
proof goal_cases
  case 1
  then show ?case using assms by (simp add: ent_ok_def ascs_change_state_def zero_codec_state_def)
next
  case 2
  then show ?case using assms by (elim disjE; simp add: ent_ok_def ascs_change_state_def; auto)
next
  case 3
  show ?case
  proof (cases "e_ase_state e = ASE_STATE_QOS_CONFIGURED")
    case True
    then show ?thesis using assms by (simp add: ascs_change_state_def)
  next
    case False
    then show ?thesis using assms by (cases "e_metadata e") (simp_all add: ent_ok_def ascs_change_state_def)
  qed
next
  case 4
  then show ?case using assms by (simp add: ent_ok_def ascs_change_state_def)
next
  case 5
  then show ?case using assms by (elim disjE) (simp_all add: ent_ok_def ascs_change_state_def)
next
  case 6
  show ?case
  proof (cases "e_ase_state e = ASE_STATE_RELEASING")
    case True
    then show ?thesis using assms by (simp add: ascs_change_state_def)
  next
    case False
    then show ?thesis using assms by (simp add: ent_ok_def ascs_change_state_def)
  qed
qed

lemma setup_path_step:
  "ascs_setup_data_path en p s = Some (r, s') \<Longrightarrow> ase_step good p stays s s'"
proof -
  assume "ascs_setup_data_path en p s = Some (r, s')"
  then obtain e where e: "get_ase s p = Some e"
    and s': "s' = emit (Ev_setup_path (e_cis_conn_handle e) (if e_direction e = SERVER_AUDIO_SINK then DATA_PATH_ADD_OUTPUT else DATA_PATH_ADD_INPUT))
               (put_ase p (e\<lparr>e_added_path_direction := data_path_flag e\<rparr>) s) \<or>
            s' = put_ase p (e\<lparr>e_added_path_direction := 0\<rparr>)
               (emit (Ev_setup_path (e_cis_conn_handle e) (if e_direction e = SERVER_AUDIO_SINK then DATA_PATH_ADD_OUTPUT else DATA_PATH_ADD_INPUT))
                 (put_ase p (e\<lparr>e_added_path_direction := data_path_flag e\<rparr>) s))"
    by (auto simp: ascs_setup_data_path_def Let_def elim!: bind_SomeE split: if_split_asm)
  let ?e1 = "e\<lparr>e_added_path_direction := data_path_flag e\<rparr>"
  have put: "ase_step good p stays s (put_ase p ?e1 s)"
    by (rule ase_step_put [OF e]) (simp_all add: same_place_def ent_ok_def)
  have one: "ase_step good p stays s (emit ev (put_ase p ?e1 s))" for ev
    by (rule ase_step_after_db [OF put]) simp
  have two: "ase_step good p stays s (put_ase p (e\<lparr>e_added_path_direction := 0\<rparr>) (emit ev (put_ase p ?e1 s)))" for ev
    by (rule ase_step_trans [OF one ase_step_put [of _ _ ?e1 _ _ stays]])
       (use e in \<open>simp_all add: same_place_def ent_ok_def\<close>)
  show ?thesis using s' one two by auto
qed

lemma check_idle:
  assumes "get_ase s p = Some e" "e_ase_state e = ASE_STATE_IDLE"
  shows "ascs_check_current_state en conn p s = Some s"
  using assms by (simp add: ascs_check_current_state.simps Let_def split: prod.split)

definition released_to :: "u8 \<Rightarrow> u8 \<Rightarrow> u8 \<Rightarrow> bool" where
  [simp]: "released_to d x y \<longleftrightarrow> x = ASE_STATE_RELEASING \<and> y = ASE_STATE_IDLE"

lemma released_cases:
  assumes "ase_action_released en conn p s = Some (r, s')" "get_ase s p = Some e"
  shows "if r then e_ase_state e = ASE_STATE_RELEASING \<and> ase_sm_check_iosch_status en ASE_SM_CHECK_RELEASE e s \<and>
            ase_sm_send_notify en conn p (put_ase p (ascs_change_state ASE_STATE_IDLE e) s) = Some s'
         else s' = s"
proof -
  have idle: "ascs_check_current_state en conn p t = Some t"
    if "ase_sm_send_notify en conn p (put_ase p (ascs_change_state ASE_STATE_IDLE e) s) = Some t" for t
    using assms(2) send_notify_get [OF that]
    by (intro check_idle [of t p "ascs_change_state ASE_STATE_IDLE e"]) (simp_all add: change_state_sets)
  show ?thesis using assms
    by (auto simp: ase_action_released.simps [of en conn p s] idle elim!: bind_SomeE split: if_split_asm)
qed

lemma released_step:
  assumes "ase_action_released en conn p s = Some (r, s')"
  shows "ase_step good p (if r then released_to else stays) s s'"
proof (cases "get_ase s p")
  case None
  then show ?thesis using assms by (simp add: ase_action_released.simps)
next
  case (Some e)
  show ?thesis
  proof (cases r)
    case False
    then show ?thesis using released_cases [OF assms Some] by (auto intro: ase_step_db)
  next
    case True
    then have st: "e_ase_state e = ASE_STATE_RELEASING"
      and n: "ase_sm_send_notify en conn p (put_ase p (ascs_change_state ASE_STATE_IDLE e) s) = Some s'"
      using released_cases [OF assms Some] by auto
    have "ase_step good p released_to s (put_ase p (ascs_change_state ASE_STATE_IDLE e) s)"
      using st by (intro ase_step_put [OF Some]) (auto simp: same_place_def change_state_sets intro: ent_ok_change(1))
    then show ?thesis using send_notify_db [OF n] True by (auto intro: ase_step_after_db)
  qed
qed

definition may_release :: "u8 \<Rightarrow> u8 \<Rightarrow> u8 \<Rightarrow> bool" where
  [simp]: "may_release d x y \<longleftrightarrow> y = x \<or> (x = ASE_STATE_RELEASING \<and> y = ASE_STATE_IDLE)"

lemma check_state_step:
  assumes "ascs_check_current_state en conn p s = Some s'"
  shows "ase_step good p may_release s s'"
proof -
  have keep: "ase_step good p stays a b \<Longrightarrow> ase_step good p may_release a b" for a b
    by (erule ase_step_mono) simp
  have path_add: "ascs_setup_data_path en p a = Some (r, b) \<Longrightarrow> ase_step good p may_release a b" for r a b
    by (rule keep, erule setup_path_step)
  have path_del: "ascs_remove_data_path en p a = Some (r, b) \<Longrightarrow> ase_step good p may_release a b" for r a b
    by (rule keep, rule ase_step_db, erule remove_path_db) simp
  have rel: "same_db a b \<Longrightarrow> ase_action_released en conn p b = Some (r, c) \<Longrightarrow> ase_step good p may_release a c" for r a b c
    by (rule ase_step_trans [OF ase_step_db [of a b stays] released_step [of en conn p b r c]]) (auto split: if_split_asm)
  have id: "ase_step good p may_release a a" for a by (rule ase_step_db) auto
  show ?thesis
    using assms
    by (subst (asm) ascs_check_current_state.simps)
       (auto simp: Let_def elim!: bind_SomeE split: prod.split_asm if_split_asm
         intro: path_add path_del id rel [OF same_db_refl] rel [OF remove_path_db])
qed

lemma notify_check_step:
  assumes "notify_and_check en conn p s = Some s'"
  shows "ase_step good p may_release s s'"
proof -
  from assms obtain t where n: "ase_sm_send_notify en conn p s = Some t" and c: "ascs_check_current_state en conn p t = Some s'"
    by (auto simp: notify_and_check_def elim!: bind_SomeE)
  show ?thesis
    by (rule ase_step_trans [OF ase_step_db [OF send_notify_db [OF n], of stays] check_state_step [OF c]]) auto
qed

section \<open>The operations as one function, and the state machine they follow\<close>

datatype ase_op =
  Op_cfg_codec cp_codec_cfg "u8 list"
| Op_cfg_qos qos_state_data
| Op_enable u8 "u8 list"
| Op_rec_start_ready
| Op_rec_stop_ready
| Op_disable
| Op_update_metadata u8 "u8 list"
| Op_release
| Op_released
| Op_switch_to_streaming
| Op_switch_to_qos_cfg

fun ase_exec :: "env \<Rightarrow> u16 \<Rightarrow> ase_ptr \<Rightarrow> ase_op \<Rightarrow> st \<Rightarrow> (bool \<times> st) option" where
  "ase_exec en conn p (Op_cfg_codec prm dat) s = ase_action_cfg_codec en conn p prm dat s"
| "ase_exec en conn p (Op_cfg_qos prm) s = ase_action_cfg_qos en conn p prm s"
| "ase_exec en conn p (Op_enable n md) s = ase_action_enable en conn p n md s"
| "ase_exec en conn p Op_rec_start_ready s = ase_action_rec_start_ready en conn p s"
| "ase_exec en conn p Op_rec_stop_ready s = ase_action_rec_stop_ready en conn p s"
| "ase_exec en conn p Op_disable s = ase_action_disable en conn p s"
| "ase_exec en conn p (Op_update_metadata n md) s = ase_action_update_metadata en conn p n md s"
| "ase_exec en conn p Op_release s = ase_action_release en conn p s"
| "ase_exec en conn p Op_released s = ase_action_released en conn p s"
| "ase_exec en conn p Op_switch_to_streaming s = ase_switch_to_streaming en conn p s"
| "ase_exec en conn p Op_switch_to_qos_cfg s = ase_switch_to_qos_cfg en conn p s"

text \<open>
  The state machine of an endpoint: the transitions an operation may make when it succeeds, for an endpoint of
  direction \<open>d\<close>. A release may go on to idle at once when no channel is open.
\<close>

inductive ase_edge :: "ase_op \<Rightarrow> u8 \<Rightarrow> u8 \<Rightarrow> u8 \<Rightarrow> bool" where
  codec: "x = ASE_STATE_IDLE \<or> x = ASE_STATE_CODEC_CONFIGURED \<or> x = ASE_STATE_QOS_CONFIGURED \<Longrightarrow>
    ase_edge (Op_cfg_codec prm dat) d x ASE_STATE_CODEC_CONFIGURED"
| qos: "x = ASE_STATE_CODEC_CONFIGURED \<or> x = ASE_STATE_QOS_CONFIGURED \<Longrightarrow>
    ase_edge (Op_cfg_qos prm) d x ASE_STATE_QOS_CONFIGURED"
| enable: "ase_edge (Op_enable n md) d ASE_STATE_QOS_CONFIGURED ASE_STATE_ENABLING"
| enable_stream: "d = SERVER_AUDIO_SINK \<Longrightarrow>
    ase_edge (Op_enable n md) d ASE_STATE_QOS_CONFIGURED ASE_STATE_STREAMING"
| start_wait: "d = SERVER_AUDIO_SOURCE \<Longrightarrow> ase_edge Op_rec_start_ready d ASE_STATE_ENABLING ASE_STATE_ENABLING"
| start: "d = SERVER_AUDIO_SOURCE \<Longrightarrow> ase_edge Op_rec_start_ready d ASE_STATE_ENABLING ASE_STATE_STREAMING"
| stop_wait: "d = SERVER_AUDIO_SOURCE \<Longrightarrow> ase_edge Op_rec_stop_ready d ASE_STATE_DISABLING ASE_STATE_DISABLING"
| stop: "d = SERVER_AUDIO_SOURCE \<Longrightarrow> ase_edge Op_rec_stop_ready d ASE_STATE_DISABLING ASE_STATE_QOS_CONFIGURED"
| disable: "x = ASE_STATE_ENABLING \<or> x = ASE_STATE_STREAMING \<Longrightarrow>
    ase_edge Op_disable d x (if d = SERVER_AUDIO_SINK then ASE_STATE_QOS_CONFIGURED else ASE_STATE_DISABLING)"
| update: "x = ASE_STATE_ENABLING \<or> x = ASE_STATE_STREAMING \<Longrightarrow> ase_edge (Op_update_metadata n md) d x x"
| release: "x \<noteq> ASE_STATE_IDLE \<Longrightarrow> x \<noteq> ASE_STATE_RELEASING \<Longrightarrow> ase_edge Op_release d x ASE_STATE_RELEASING"
| release_idle: "x \<noteq> ASE_STATE_IDLE \<Longrightarrow> x \<noteq> ASE_STATE_RELEASING \<Longrightarrow> ase_edge Op_release d x ASE_STATE_IDLE"
| released: "ase_edge Op_released d ASE_STATE_RELEASING ASE_STATE_IDLE"
| to_streaming: "ase_edge Op_switch_to_streaming d ASE_STATE_ENABLING ASE_STATE_STREAMING"
| to_qos: "ase_edge Op_switch_to_qos_cfg d ASE_STATE_DISABLING ASE_STATE_QOS_CONFIGURED"

inductive_simps ase_edge_simps [simp]:
  "ase_edge (Op_cfg_codec prm dat) d x y" "ase_edge (Op_cfg_qos q) d x y" "ase_edge (Op_enable n md) d x y"
  "ase_edge Op_rec_start_ready d x y" "ase_edge Op_rec_stop_ready d x y" "ase_edge Op_disable d x y"
  "ase_edge (Op_update_metadata n md) d x y" "ase_edge Op_release d x y" "ase_edge Op_released d x y"
  "ase_edge Op_switch_to_streaming d x y" "ase_edge Op_switch_to_qos_cfg d x y"

text \<open>A configuration that does not parse and an allocation that fails leave the new state behind the result false.\<close>

fun ase_refuse :: "ase_op \<Rightarrow> u8 \<Rightarrow> u8 \<Rightarrow> u8 \<Rightarrow> bool" where
  "ase_refuse (Op_cfg_codec prm dat) d x y \<longleftrightarrow> y = x \<or> ase_edge (Op_cfg_codec prm dat) d x y"
| "ase_refuse (Op_enable n md) d x y \<longleftrightarrow> y = x \<or> ase_edge (Op_enable n md) d x y"
| "ase_refuse _ d x y \<longleftrightarrow> y = x"

definition op_rel :: "ase_op \<Rightarrow> bool \<Rightarrow> u8 \<Rightarrow> u8 \<Rightarrow> u8 \<Rightarrow> bool" where
  "op_rel op r = (if r then ase_edge op else ase_refuse op)"

lemma put_then_check:
  assumes "notify_and_check en conn p (put_ase p e' t) = Some s'" "get_ase s p = Some e" "same_db s t"
    and "same_place e e'" "ent_ok good e \<Longrightarrow> ent_ok good e'"
    and "\<And>z. may_release (e_direction e) (e_ase_state e') z \<Longrightarrow> L (e_direction e) (e_ase_state e) z"
  shows "ase_step good p L s s'"
proof -
  define M where "M d x y \<longleftrightarrow> d = e_direction e \<and> x = e_ase_state e \<and> y = e_ase_state e'" for d x y
  have "get_ase t p = Some e" using assms(2,3) by (simp add: same_db_get)
  then have "ase_step good p M t (put_ase p e' t)"
    by (rule ase_step_put [OF _ assms(4) assms(5)]) (simp_all add: M_def)
  with ase_step_db [OF assms(3), of stays good p] have "ase_step good p M s (put_ase p e' t)"
    by (rule ase_step_trans) auto
  then show ?thesis
    by (rule ase_step_trans [OF _ notify_check_step [OF assms(1)]]) (use assms(6) in \<open>auto simp: M_def\<close>)
qed

lemma copy_buffer_cases:
  assumes "copy_buffer en len dat s = Some (ok, b, s1)"
  shows "same_db s s1" "good_mem en \<Longrightarrow> ok" "ok \<Longrightarrow> buf_ok b len" "\<not> ok \<Longrightarrow> b = None"
  using assms
  by (auto simp: copy_buffer_def Let_def mem_read_def good_mem_def word_le_nat_alt split: if_split_asm option.split_asm)

lemma stays_any: "ase_step good q stays s t \<Longrightarrow> ase_step good p stays s t"
  unfolding ase_step_def stays_def if_cancel .

lemma stays_id [simp]: "ase_step good p stays s s"
  by (rule ase_step_db) auto

lemma cfg_prefer_step:
  assumes "ascs_cfg_ase_prefer_qos conn i pq s = Some (r, s')"
  shows "ase_step good p stays s s'"
proof -
  have upd: "ase_step good p stays t (put_ase q (e\<lparr>e_codec_state_data := set_prefer pq (e_codec_state_data e)\<rparr>) t)"
    if "get_ase t q = Some e" "e_ase_state e = ASE_STATE_CODEC_CONFIGURED" for t q e
    using that by (intro stays_any [OF ase_step_put]) (simp_all add: same_place_def ent_ok_def set_prefer_def)
  show ?thesis using assms
    by (auto simp: ascs_cfg_ase_prefer_qos_def elim!: bind_SomeE split: option.split_asm if_split_asm intro!: upd)
qed

lemma ask_prefer_step:
  assumes "ask_prefer_qos en conn e prm s = Some s'"
  shows "ase_step good p stays s s'"
proof -
  have one: "ase_step good p stays s (emit ev s)" for ev by (rule ase_step_db) auto
  have two: "ase_step good p stays s t" if "ascs_cfg_ase_prefer_qos c i pq (emit ev s) = Some (r, t)" for c i pq ev r t
    by (rule ase_step_trans [OF one cfg_prefer_step [OF that], of stays]) auto
  show ?thesis using assms
    by (auto simp: ask_prefer_qos_def Let_def split: option.split_asm intro: one two)
qed

lemma no_move: "op_rel op False d x x"
  by (cases op) (simp_all add: op_rel_def)

lemma refuse_step: "ase_step good p (op_rel op False) s s"
  by (rule ase_step_mono [OF stays_id]) (simp add: no_move)

lemma ent_ok_codec_data:
  "ent_ok good e \<Longrightarrow> e_ase_state e \<noteq> ASE_STATE_IDLE \<Longrightarrow>
     c_codec_spec_cfg_len d = c_codec_spec_cfg_len (e_codec_state_data e) \<Longrightarrow> ent_ok good (e\<lparr>e_codec_state_data := d\<rparr>)"
  by (simp add: ent_ok_def)

lemma preferred_data_len [simp]: "c_codec_spec_cfg_len (preferred_data qos m b d) = c_codec_spec_cfg_len d"
  by (simp add: preferred_data_def Let_def)

lemma cfg_preferred_cases:
  assumes "cfg_preferred junk prm e = Some e'"
  shows "e' = e \<or> (\<exists>qos b. e' =
    e\<lparr>e_codec_state_data := preferred_data qos (e_min_transport_latency e) b (e_codec_state_data e)\<rparr>)"
proof (cases "fst (p_codec_id prm) = LC3_CODEC_ID")
  case False
  then show ?thesis using assms by (simp add: cfg_preferred_def)
next
  case True
  then obtain ok q where q: "qos_preferred_cfg_get_by_codec (Some (e_codec_cfg e)) (p_target_latency prm) (Some junk) = Some (ok, q)"
    using assms by (auto simp: cfg_preferred_def elim: bind_SomeE)
  show ?thesis
  proof (cases ok)
    case False
    then show ?thesis using assms True q by (simp add: cfg_preferred_def)
  next
    case ok: True
    obtain qos where qos: "q = Some qos" using assms True q ok by (cases q) (simp_all add: cfg_preferred_def)
    obtain b where "phy_bit (p_target_phy prm) = Some b"
      using assms True q ok qos by (cases "phy_bit (p_target_phy prm)") (simp_all add: cfg_preferred_def)
    then have "e' = e\<lparr>e_codec_state_data := preferred_data qos (e_min_transport_latency e) b (e_codec_state_data e)\<rparr>"
      using assms True q ok qos by (simp add: cfg_preferred_def)
    then show ?thesis by blast
  qed
qed

lemma cfg_preferred_keeps:
  assumes "cfg_preferred junk prm e = Some e'" "e_ase_state e \<noteq> ASE_STATE_IDLE"
  shows "same_place e e' \<and> e_ase_state e' = e_ase_state e \<and> (ent_ok good e \<longrightarrow> ent_ok good e')"
proof -
  have "same_place e d \<and> e_ase_state d = e_ase_state e \<and> (ent_ok good e \<longrightarrow> ent_ok good d)"
    if d: "d = e\<lparr>e_codec_state_data := preferred_data qos (e_min_transport_latency e) b (e_codec_state_data e)\<rparr>" for d qos b
  proof -
    have "ent_ok good e \<Longrightarrow> ent_ok good d" unfolding d by (rule ent_ok_codec_data [OF _ assms(2)]) simp_all
    then show ?thesis unfolding d by (simp add: same_place_def)
  qed
  then show ?thesis using cfg_preferred_cases [OF assms(1)] by (elim disjE exE) simp_all
qed

lemma cfg_codec_step:
  assumes x: "ase_action_cfg_codec en conn p prm dat s = Some (r, s')" and good: "good \<Longrightarrow> good_mem en"
  shows "ase_step good p (op_rel (Op_cfg_codec prm dat) r) s s'"
proof -
  obtain e where e: "get_ase s p = Some e" using x by (auto simp: ase_action_cfg_codec_def elim!: bind_SomeE)
  show ?thesis
  proof (cases "e_ase_state e = ASE_STATE_IDLE \<or> e_ase_state e = ASE_STATE_CODEC_CONFIGURED \<or> e_ase_state e = ASE_STATE_QOS_CONFIGURED")
    case False
    then show ?thesis using x e by (simp add: ase_action_cfg_codec_def refuse_step)
  next
    case True
    then have acc: "(e_ase_state e \<noteq> ASE_STATE_IDLE \<and> e_ase_state e \<noteq> ASE_STATE_CODEC_CONFIGURED \<and>
        e_ase_state e \<noteq> ASE_STATE_QOS_CONFIGURED) = False" by blast
    let ?e1 = "ascs_change_state ASE_STATE_CODEC_CONFIGURED e"
    have ok1: "ent_ok good ?e1" if "ent_ok good e" using that True by (rule ent_ok_change(2))
    have st1: "e_ase_state ?e1 = ASE_STATE_CODEC_CONFIGURED" by (simp add: change_state_sets)
    obtain parsed cfg where parse: "codec_cfg_parse (p_codec_spec_cfg_len prm) (Some dat) (Some (e_codec_cfg ?e1)) = Some (parsed, Some cfg)"
      using x e by (auto simp: ase_action_cfg_codec_def Let_def acc elim!: bind_SomeE split: prod.split_asm if_split_asm)
    let ?e2 = "?e1\<lparr>e_codec_cfg := cfg\<rparr>"
    have ok2: "ent_ok good ?e2" if "ent_ok good e" using ok1 [OF that] st1 by (simp add: ent_ok_def)
    show ?thesis
    proof (cases parsed)
      case False
      then have "r = False" "s' = put_ase p ?e2 s" using x e parse by (simp_all add: ase_action_cfg_codec_def Let_def acc)
      then show ?thesis using True ok2
        by (auto intro!: ase_step_put [OF e] simp: same_place_def change_state_sets op_rel_def)
    next
      case parsed: True
      obtain ok b s1 where cp: "copy_buffer en (p_codec_spec_cfg_len prm) dat s = Some (ok, b, s1)"
        using x e parse parsed by (auto simp: ase_action_cfg_codec_def Let_def acc elim!: bind_SomeE split: prod.split_asm)
      note cpf = copy_buffer_cases [OF cp]
      define e3 where "e3 = ?e2\<lparr>e_codec_state_data := (e_codec_state_data ?e2)\<lparr>
            c_codec_spec_cfg_len := p_codec_spec_cfg_len prm, c_codec_id := p_codec_id prm\<rparr>,
          e_codec_spec_cfg := b, e_codec_spec_cfg_len := p_codec_spec_cfg_len prm\<rparr>"
      have rest: "(if \<not> ok then Some (False, put_ase p e3 s1)
          else do {
            e4 \<leftarrow> cfg_preferred (stack_qos en (evlog s1)) prm e3;
            s2 \<leftarrow> ask_prefer_qos en conn e4 prm (put_ase p e4 s1);
            s3 \<leftarrow> notify_and_check en conn p s2;
            Some (True, s3)
          }) = Some (r, s')"
        using x e parse parsed cp unfolding e3_def ase_action_cfg_codec_def by (cases ok) (simp_all add: Let_def acc)
      have st3: "e_ase_state e3 = ASE_STATE_CODEC_CONFIGURED" and pl3: "same_place e e3"
        by (simp_all add: e3_def change_state_sets same_place_def)
      have ok3: "ent_ok good e3" if "ent_ok good e"
        using ok2 [OF that] st1 cpf(2,3) good by (simp add: ent_ok_def e3_def)
      have e': "get_ase s1 p = Some e" using cpf(1) e by (simp add: same_db_get)
      show ?thesis
      proof (cases ok)
        case False
        then have r: "r = False" "s' = put_ase p e3 s1" using rest by auto
        have "ase_step good p (op_rel (Op_cfg_codec prm dat) False) s1 (put_ase p e3 s1)"
          using True ok3 pl3 st3 by (intro ase_step_put [OF e']) (auto simp: op_rel_def)
        with ase_step_db [OF cpf(1), of stays] show ?thesis unfolding r by (rule ase_step_trans) auto
      next
        case ok: True
        obtain e4 s2 where e4: "cfg_preferred (stack_qos en (evlog s1)) prm e3 = Some e4"
          and s2: "ask_prefer_qos en conn e4 prm (put_ase p e4 s1) = Some s2"
          and s3: "notify_and_check en conn p s2 = Some s'" and r: "r"
          using rest ok by (auto elim!: bind_SomeE)
        have n0: "e_ase_state e3 \<noteq> ASE_STATE_IDLE" using st3 by simp
        note k = cfg_preferred_keeps [OF e4 n0]
        have "ase_step good p (op_rel (Op_cfg_codec prm dat) True) s1 (put_ase p e4 s1)"
          using True ok3 pl3 st3 k by (intro ase_step_put [OF e']) (auto simp: op_rel_def same_place_def)
        with ase_step_db [OF cpf(1), of stays] have "ase_step good p (op_rel (Op_cfg_codec prm dat) True) s (put_ase p e4 s1)"
          by (rule ase_step_trans) auto
        then have "ase_step good p (op_rel (Op_cfg_codec prm dat) True) s s2"
          by (rule ase_step_trans [OF _ ask_prefer_step [OF s2]]) simp
        then show ?thesis
          by (rule ase_step_trans [OF _ notify_check_step [OF s3]]) (use r in \<open>auto simp: op_rel_def\<close>)
      qed
    qed
  qed
qed

lemma ent_ok_qos_data:
  "ent_ok good e \<Longrightarrow> e_ase_state e = ASE_STATE_QOS_CONFIGURED \<Longrightarrow> ent_ok good (e\<lparr>e_qos_state_data := d\<rparr>)"
  by (simp add: ent_ok_def; auto)

lemma ent_ok_metadata:
  "ent_ok good e \<Longrightarrow> has_metadata_state (e_ase_state e) \<Longrightarrow> (good \<Longrightarrow> buf_ok b n) \<Longrightarrow>
     ent_ok good (e\<lparr>e_metadata := b, e_metadata_len := n\<rparr>)"
  by (elim disjE) (simp_all add: ent_ok_def)

lemma ent_ok_enabling:
  "ent_ok good e \<Longrightarrow> e_ase_state e = ASE_STATE_QOS_CONFIGURED \<Longrightarrow> ent_ok good (ascs_change_state ASE_STATE_ENABLING e)"
  by (simp add: ent_ok_def ascs_change_state_def; auto)

lemma cfg_qos_step:
  assumes x: "ase_action_cfg_qos en conn p prm s = Some (r, s')"
  shows "ase_step good p (op_rel (Op_cfg_qos prm) r) s s'"
proof -
  obtain e where e: "get_ase s p = Some e" using x by (auto simp: ase_action_cfg_qos_def elim!: bind_SomeE)
  let ?e1 = "(ascs_change_state ASE_STATE_QOS_CONFIGURED e)\<lparr>e_qos_state_data := prm\<rparr>"
  show ?thesis
  proof (cases "e_ase_state e = ASE_STATE_CODEC_CONFIGURED \<or> e_ase_state e = ASE_STATE_QOS_CONFIGURED")
    case False
    then show ?thesis using x e by (simp add: ase_action_cfg_qos_def refuse_step)
  next
    case True
    then have r: "r" and n: "notify_and_check en conn p (put_ase p ?e1 s) = Some s'"
      using x e by (auto simp: ase_action_cfg_qos_def elim!: bind_SomeE)
    have "ent_ok good ?e1" if "ent_ok good e"
      using that True by (intro ent_ok_qos_data ent_ok_change(3)) (auto simp: change_state_sets)
    then show ?thesis
      by (intro put_then_check [OF n e]) (use r True in \<open>auto simp: same_place_def change_state_sets op_rel_def\<close>)
  qed
qed

lemma enable_step:
  assumes x: "ase_action_enable en conn p n md s = Some (r, s')" and good: "good \<Longrightarrow> good_mem en"
  shows "ase_step good p (op_rel (Op_enable n md) r) s s'"
proof -
  obtain e where e: "get_ase s p = Some e" using x by (auto simp: ase_action_enable_def elim!: bind_SomeE)
  show ?thesis
  proof (cases "e_ase_state e = ASE_STATE_QOS_CONFIGURED")
    case False
    then show ?thesis using x e by (simp add: ase_action_enable_def refuse_step)
  next
    case True
    obtain ok b s1 where cp: "copy_buffer en n md s = Some (ok, b, s1)"
      using x e True by (auto simp: ase_action_enable_def elim!: bind_SomeE)
    note cpf = copy_buffer_cases [OF cp]
    define e1 where "e1 = (ascs_change_state ASE_STATE_ENABLING e)\<lparr>e_metadata := b, e_metadata_len := n\<rparr>"
    define e2 where "e2 = (if e_direction e1 = SERVER_AUDIO_SINK \<and>
        ase_sm_check_iosch_status en ASE_SM_CHECK_ENABLE e1 s1 \<and> app_ready e1
      then ascs_change_state ASE_STATE_STREAMING e1 else e1)"
    have rest: "(if \<not> ok then Some (False, put_ase p e1 s1)
        else do { s2 \<leftarrow> notify_and_check en conn p (put_ase p e2 s1); Some (True, s2) }) = Some (r, s')"
      using x e True cp unfolding e2_def e1_def ase_action_enable_def by (cases ok) (simp_all add: Let_def)
    have st1: "e_ase_state e1 = ASE_STATE_ENABLING" and pl1: "same_place e e1"
      by (simp_all add: e1_def change_state_sets same_place_def)
    have ok1: "ent_ok good e1" if "ent_ok good e"
      unfolding e1_def using that True cpf(2,3) good by (intro ent_ok_metadata ent_ok_enabling) (auto simp: change_state_sets)
    have e': "get_ase s1 p = Some e" using cpf(1) e by (simp add: same_db_get)
    show ?thesis
    proof (cases ok)
      case False
      then have r: "r = False" "s' = put_ase p e1 s1" using rest by auto
      have "ase_step good p (op_rel (Op_enable n md) False) s1 (put_ase p e1 s1)"
        using True ok1 pl1 st1 by (intro ase_step_put [OF e']) (auto simp: op_rel_def)
      with ase_step_db [OF cpf(1), of stays] show ?thesis unfolding r by (rule ase_step_trans) auto
    next
      case ok: True
      then have r: "r" and nt: "notify_and_check en conn p (put_ase p e2 s1) = Some s'"
        using rest by (auto elim!: bind_SomeE)
      have pl2: "same_place e e2" using pl1 by (simp add: e2_def same_place_def)
      have st2: "e_ase_state e2 = ASE_STATE_ENABLING \<or> (e_ase_state e2 = ASE_STATE_STREAMING \<and> e_direction e = SERVER_AUDIO_SINK)"
        using st1 pl1 by (simp add: e2_def change_state_sets same_place_def)
      have ok2: "ent_ok good e2" if "ent_ok good e"
        using ok1 [OF that] st1 by (auto simp: e2_def intro: ent_ok_change(4))
      show ?thesis
        by (rule put_then_check [OF nt e cpf(1) pl2 ok2]) (use r True st2 in \<open>auto simp: op_rel_def\<close>)
    qed
  qed
qed

lemma update_metadata_step:
  assumes x: "ase_action_update_metadata en conn p n md s = Some (r, s')" and good: "good \<Longrightarrow> good_mem en"
  shows "ase_step good p (op_rel (Op_update_metadata n md) r) s s'"
proof -
  obtain e where e: "get_ase s p = Some e" using x by (auto simp: ase_action_update_metadata_def elim!: bind_SomeE)
  show ?thesis
  proof (cases "e_ase_state e = ASE_STATE_ENABLING \<or> e_ase_state e = ASE_STATE_STREAMING")
    case False
    then show ?thesis using x e by (simp add: ase_action_update_metadata_def refuse_step)
  next
    case True
    then have acc: "(e_ase_state e \<noteq> ASE_STATE_ENABLING \<and> e_ase_state e \<noteq> ASE_STATE_STREAMING) = False" by blast
    obtain ok b s1 where cp: "copy_buffer en n md s = Some (ok, b, s1)"
      using x e by (auto simp: ase_action_update_metadata_def acc elim!: bind_SomeE)
    note cpf = copy_buffer_cases [OF cp]
    let ?e1 = "e\<lparr>e_metadata := b, e_metadata_len := n\<rparr>"
    have rest: "(if \<not> ok then Some (False, put_ase p ?e1 s1)
        else do { s2 \<leftarrow> notify_and_check en conn p (put_ase p ?e1 s1); Some (True, s2) }) = Some (r, s')"
      using x e cp unfolding ase_action_update_metadata_def by (cases ok) (simp_all add: Let_def acc)
    have ok1: "ent_ok good ?e1" if "ent_ok good e"
      using that True cpf(2,3) good by (intro ent_ok_metadata) auto
    have e': "get_ase s1 p = Some e" using cpf(1) e by (simp add: same_db_get)
    show ?thesis
    proof (cases ok)
      case False
      then have r: "r = False" "s' = put_ase p ?e1 s1" using rest by auto
      have "ase_step good p (op_rel (Op_update_metadata n md) False) s1 (put_ase p ?e1 s1)"
        using True ok1 by (intro ase_step_put [OF e']) (auto simp: op_rel_def same_place_def)
      with ase_step_db [OF cpf(1), of stays] show ?thesis unfolding r by (rule ase_step_trans) auto
    next
      case ok: True
      then have r: "r" and nt: "notify_and_check en conn p (put_ase p ?e1 s1) = Some s'"
        using rest by (auto elim!: bind_SomeE)
      show ?thesis
        by (rule put_then_check [OF nt e cpf(1) _ ok1]) (use r True in \<open>auto simp: op_rel_def same_place_def\<close>)
    qed
  qed
qed

text \<open>The operations that change the state, notify and check.\<close>

lemma change_step:
  assumes "notify_and_check en conn p (put_ase p (ascs_change_state x e) s) = Some s'" "get_ase s p = Some e"
    "ent_ok good e \<Longrightarrow> ent_ok good (ascs_change_state x e)" "\<And>z. may_release (e_direction e) x z \<Longrightarrow> L (e_direction e) (e_ase_state e) z"
  shows "ase_step good p L s s'"
  by (rule put_then_check [OF assms(1,2) same_db_refl]) (use assms(3,4) in \<open>auto simp: same_place_def change_state_sets\<close>)

lemma disable_step:
  assumes "ase_action_disable en conn p s = Some (r, s')"
  shows "ase_step good p (op_rel Op_disable r) s s'"
proof -
  obtain e where e: "get_ase s p = Some e" using assms by (auto simp: ase_action_disable_def elim!: bind_SomeE)
  let ?x = "if e_direction e = SERVER_AUDIO_SINK then ASE_STATE_QOS_CONFIGURED else ASE_STATE_DISABLING"
  show ?thesis
  proof (cases "e_ase_state e = ASE_STATE_ENABLING \<or> e_ase_state e = ASE_STATE_STREAMING")
    case False
    then show ?thesis using assms e by (simp add: ase_action_disable_def refuse_step)
  next
    case True
    then have r: "r" and n: "notify_and_check en conn p (put_ase p (ascs_change_state ?x e) s) = Some s'"
      using assms e by (auto simp: ase_action_disable_def elim!: bind_SomeE)
    have "ent_ok good (ascs_change_state ?x e)" if ok: "ent_ok good e"
    proof (cases "e_direction e = SERVER_AUDIO_SINK")
      case sink: True
      show ?thesis using True ent_ok_change(3) [OF ok] by (simp only: sink if_True) auto
    next
      case False
      then have "e_direction e = SERVER_AUDIO_SOURCE" using ok by (simp add: ent_ok_def)
      then show ?thesis using True ent_ok_change(5) [OF ok] False by simp
    qed
    then show ?thesis by (rule change_step [OF n e]) (use r True in \<open>auto simp: op_rel_def\<close>)
  qed
qed

lemma release_step:
  assumes "ase_action_release en conn p s = Some (r, s')"
  shows "ase_step good p (op_rel Op_release r) s s'"
proof -
  obtain e where e: "get_ase s p = Some e" using assms by (auto simp: ase_action_release_def elim!: bind_SomeE)
  show ?thesis
  proof (cases "e_ase_state e \<noteq> ASE_STATE_IDLE \<and> e_ase_state e \<noteq> ASE_STATE_RELEASING")
    case False
    then show ?thesis using assms e by (auto simp: ase_action_release_def intro: refuse_step)
  next
    case True
    then have r: "r" and n: "notify_and_check en conn p (put_ase p (ascs_change_state ASE_STATE_RELEASING e) s) = Some s'"
      using assms e by (auto simp: ase_action_release_def elim!: bind_SomeE)
    show ?thesis
      by (rule change_step [OF n e]) (use r True in \<open>auto simp: op_rel_def intro: ent_ok_change(6)\<close>)
  qed
qed

lemma switch_streaming_step:
  assumes "ase_switch_to_streaming en conn p s = Some (r, s')"
  shows "ase_step good p (op_rel Op_switch_to_streaming r) s s'"
proof -
  obtain e where e: "get_ase s p = Some e" using assms by (auto simp: ase_switch_to_streaming_def elim!: bind_SomeE)
  show ?thesis
  proof (cases "e_ase_state e = ASE_STATE_ENABLING")
    case False
    then show ?thesis using assms e by (simp add: ase_switch_to_streaming_def refuse_step)
  next
    case True
    then have r: "r" and n: "notify_and_check en conn p (put_ase p (ascs_change_state ASE_STATE_STREAMING e) s) = Some s'"
      using assms e by (auto simp: ase_switch_to_streaming_def elim!: bind_SomeE)
    show ?thesis
      by (rule change_step [OF n e]) (use r True in \<open>auto simp: op_rel_def intro: ent_ok_change(4)\<close>)
  qed
qed

lemma switch_qos_step:
  assumes "ase_switch_to_qos_cfg en conn p s = Some (r, s')"
  shows "ase_step good p (op_rel Op_switch_to_qos_cfg r) s s'"
proof -
  obtain e where e: "get_ase s p = Some e" using assms by (auto simp: ase_switch_to_qos_cfg_def elim!: bind_SomeE)
  show ?thesis
  proof (cases "e_ase_state e = ASE_STATE_DISABLING")
    case False
    then show ?thesis using assms e by (simp add: ase_switch_to_qos_cfg_def refuse_step)
  next
    case True
    then have r: "r" and n: "notify_and_check en conn p (put_ase p (ascs_change_state ASE_STATE_QOS_CONFIGURED e) s) = Some s'"
      using assms e by (auto simp: ase_switch_to_qos_cfg_def elim!: bind_SomeE)
    show ?thesis
      by (rule change_step [OF n e]) (use r True in \<open>auto simp: op_rel_def intro: ent_ok_change(3)\<close>)
  qed
qed

text \<open>The two operations that note the client is ready and notify only when the state changes.\<close>

lemma ready_tail:
  assumes "(do { s1 \<leftarrow> (if e_ase_state e2 \<noteq> e_ase_state e then ase_sm_send_notify en conn p (put_ase p e2 s) else Some (put_ase p e2 s));
              s2 \<leftarrow> ascs_check_current_state en conn p s1; Some (True, s2) }) = Some (r, s')"
    and e: "get_ase s p = Some e" and "same_place e e2" "ent_ok good e \<Longrightarrow> ent_ok good e2"
    and "e_ase_state e2 \<noteq> ASE_STATE_RELEASING" "L (e_direction e) (e_ase_state e) (e_ase_state e2)"
  shows "r \<and> ase_step good p L s s'"
proof -
  obtain s1 where s1: "(if e_ase_state e2 \<noteq> e_ase_state e then ase_sm_send_notify en conn p (put_ase p e2 s)
      else Some (put_ase p e2 s)) = Some s1" and c: "ascs_check_current_state en conn p s1 = Some s'" and r: "r"
    using assms(1) by (auto elim!: bind_SomeE)
  define M where "M d x y \<longleftrightarrow> d = e_direction e \<and> x = e_ase_state e \<and> y = e_ase_state e2" for d x y
  have "ase_step good p M s (put_ase p e2 s)"
    using assms(3,4) by (intro ase_step_put [OF e]) (auto simp: M_def)
  moreover have "same_db (put_ase p e2 s) s1" using s1 by (auto split: if_split_asm dest: send_notify_db)
  ultimately have "ase_step good p M s s1" by (rule ase_step_after_db)
  then have "ase_step good p L s s'"
    by (rule ase_step_trans [OF _ check_state_step [OF c]]) (use assms(5,6) in \<open>auto simp: M_def\<close>)
  with r show ?thesis by simp
qed

lemma rec_start_step:
  assumes x: "ase_action_rec_start_ready en conn p s = Some (r, s')"
  shows "ase_step good p (op_rel Op_rec_start_ready r) s s'"
proof -
  obtain e where e: "get_ase s p = Some e" using x by (auto simp: ase_action_rec_start_ready_def elim!: bind_SomeE)
  show ?thesis
  proof (cases "e_ase_state e = ASE_STATE_ENABLING \<and> e_direction e = SERVER_AUDIO_SOURCE")
    case False
    then show ?thesis using x e by (auto simp: ase_action_rec_start_ready_def intro: refuse_step)
  next
    case True
    let ?e1 = "e\<lparr>e_rec_start_ready := True\<rparr>"
    define e2 where "e2 = (if ase_sm_check_iosch_status en ASE_SM_CHECK_ENABLE ?e1 s
      then ascs_change_state ASE_STATE_STREAMING ?e1 else ?e1)"
    have ok1: "ent_ok good ?e1" if "ent_ok good e" using that True by (simp add: ent_ok_def)
    have ok2: "ent_ok good e2" if "ent_ok good e"
      using ok1 [OF that] ent_ok_change(4) [OF ok1 [OF that]] True by (auto simp: e2_def)
    have "r \<and> ase_step good p (op_rel Op_rec_start_ready True) s s'"
    proof (rule ready_tail [OF _ e _ ok2])
      show "(do { s1 \<leftarrow> (if e_ase_state e2 \<noteq> e_ase_state e then ase_sm_send_notify en conn p (put_ase p e2 s) else Some (put_ase p e2 s));
              s2 \<leftarrow> ascs_check_current_state en conn p s1; Some (True, s2) }) = Some (r, s')"
        using x e True unfolding e2_def by (simp add: ase_action_rec_start_ready_def Let_def)
    qed (use True in \<open>auto simp: e2_def same_place_def change_state_sets op_rel_def\<close>)
    then show ?thesis by auto
  qed
qed

lemma rec_stop_step:
  assumes x: "ase_action_rec_stop_ready en conn p s = Some (r, s')"
  shows "ase_step good p (op_rel Op_rec_stop_ready r) s s'"
proof -
  obtain e where e: "get_ase s p = Some e" using x by (auto simp: ase_action_rec_stop_ready_def elim!: bind_SomeE)
  show ?thesis
  proof (cases "e_ase_state e = ASE_STATE_DISABLING \<and> e_direction e = SERVER_AUDIO_SOURCE")
    case False
    then show ?thesis using x e by (auto simp: ase_action_rec_stop_ready_def intro: refuse_step)
  next
    case True
    let ?e1 = "e\<lparr>e_rec_stop_ready := True\<rparr>"
    define e2 where "e2 = (if ase_sm_check_iosch_status en ASE_SM_CHECK_DISABLE ?e1 s
      then ascs_change_state ASE_STATE_QOS_CONFIGURED ?e1 else ?e1)"
    have ok1: "ent_ok good ?e1" if "ent_ok good e" using that True by (simp add: ent_ok_def)
    have ok2: "ent_ok good e2" if "ent_ok good e"
      using ok1 [OF that] ent_ok_change(3) [OF ok1 [OF that]] True by (auto simp: e2_def)
    have "r \<and> ase_step good p (op_rel Op_rec_stop_ready True) s s'"
    proof (rule ready_tail [OF _ e _ ok2])
      show "(do { s1 \<leftarrow> (if e_ase_state e2 \<noteq> e_ase_state e then ase_sm_send_notify en conn p (put_ase p e2 s) else Some (put_ase p e2 s));
              s2 \<leftarrow> ascs_check_current_state en conn p s1; Some (True, s2) }) = Some (r, s')"
        using x e True unfolding e2_def by (simp add: ase_action_rec_stop_ready_def Let_def)
    qed (use True in \<open>auto simp: e2_def same_place_def change_state_sets op_rel_def\<close>)
    then show ?thesis by auto
  qed
qed

lemma ase_exec_step:
  assumes "ase_exec en conn p op s = Some (r, s')" "good \<Longrightarrow> good_mem en"
  shows "ase_step good p (op_rel op r) s s'"
proof (cases op)
  case Op_released
  have "ase_step good p (if r then released_to else stays) s s'"
    using assms Op_released by (intro released_step) simp
  then show ?thesis by (rule ase_step_mono) (auto simp: Op_released op_rel_def split: if_split_asm)
qed (use assms in \<open>auto intro: cfg_codec_step cfg_qos_step enable_step rec_start_step rec_stop_step disable_step
      update_metadata_step release_step switch_streaming_step switch_qos_step\<close>)

end
