(* ===== verification/Ase_Spec.thy ===== *)
theory Ase_Spec
  imports Ase_Sm
begin

text \<open>
  What the endpoint operations of \<open>Ase_Sm\<close> guarantee: looking up an endpoint of a well-formed server finds the one
  with that identifier; the value of its characteristic is defined and a client reads from it what the application
  is told; on a served connection every operation is defined, is accepted exactly when the state machine allows it
  and reports the state it leaves; creating and freeing a table keeps the server well-formed.
\<close>

section \<open>Looking up an endpoint\<close>

lemma link_table_get:
  assumes "st_ok good s" "link_table conn s = Some (l, tab)"
  shows "l < length (le_link s)" "l_ase (le_link s ! l) = Some tab" "length tab = ase_total s"
    "i < ase_total s \<Longrightarrow> get_ase s (l, i) = Some (tab ! i)"
proof -
  have l: "l < length (le_link s)" and t: "l_ase (le_link s ! l) = Some tab"
    using assms(2)
    by (auto simp: link_table_def ble_audio_link_find_by_conn_handle_def first_index_Some elim!: bind_SomeE)
  then show "l < length (le_link s)" "l_ase (le_link s ! l) = Some tab" by simp_all
  show len: "length tab = ase_total s" using assms(1) l t by (simp add: st_ok_def)
  show "get_ase s (l, i) = Some (tab ! i)" if "i < ase_total s"
    using l t len that by (simp add: get_ase_def arr_get_def)
qed

lemma ase_find_eq:
  assumes "st_ok good s"
  shows "ase_find P conn s = Some (case link_table conn s of None \<Rightarrow> None
    | Some (l, tab) \<Rightarrow> map_option (Pair l) (first_index P tab))"
proof (cases "link_table conn s")
  case None
  then show ?thesis by (simp add: ase_find_def)
next
  case (Some lt)
  obtain l tab where lt: "lt = (l, tab)" by (cases lt)
  have len: "length tab = ase_total s" and n: "ase_total s \<le> 255"
    using link_table_get(3) [OF assms] Some lt assms by (simp_all add: st_ok_def)
  have "min (ase_total s) 256 = length tab" using n len by simp
  then have "ase_search P (ase_total s) tab = Some (first_index P tab)"
    using n arr_find_all [of P tab] first_index_less [of P tab]
    by (cases "first_index P tab") (simp_all add: ase_search_def len)
  then show ?thesis using Some lt by (simp add: ase_find_def)
qed

lemma ase_find_cases:
  assumes "st_ok good s"
  shows "(\<exists>q. ase_find P conn s = Some q) \<and>
    (\<forall>l i. ase_find P conn s = Some (Some (l, i)) \<longrightarrow>
       (\<exists>e tab. link_table conn s = Some (l, tab) \<and> i < ase_total s \<and> get_ase s (l, i) = Some e \<and> P e))"
  unfolding ase_find_eq [OF assms]
  using link_table_get [OF assms] by (auto simp: first_index_Some split: option.splits)

lemma of_nat_u8_inj:
  assumes "i < 255" "j < 255" "(of_nat (i + 1) :: u8) = of_nat (j + 1)"
  shows "i = j"
proof -
  have "unat (of_nat (i + 1) :: u8) = unat (of_nat (j + 1) :: u8)" by (simp only: assms(3))
  then show ?thesis using assms(1,2) by (simp only: unat_u8_of_nat)
qed

lemma find_by_id:
  assumes "st_ok good s" "link_table conn s = Some (l, tab)" "i < ase_total s"
  shows "ase_find_by_ase_id conn (of_nat (i + 1)) s = Some (Some (l, i))"
proof -
  have n: "ase_total s \<le> 255" using assms(1) by (simp add: st_ok_def)
  have id: "e_ase_id (tab ! j) = of_nat (j + 1)" if "j < ase_total s" for j
    using st_ok_get [OF assms(1) link_table_get(4) [OF assms(1,2) that]] by (simp add: place_ok_def)
  have "j = i" if "e_ase_id (tab ! j) = of_nat (i + 1)" "j < ase_total s" for j
    using of_nat_u8_inj [of j i] id [OF that(2)] that n assms(3) by simp
  then have "first_index (\<lambda>e. e_ase_id e = of_nat (i + 1)) tab = Some i"
    unfolding first_index_Some link_table_get(3) [OF assms(1,2)] using id [OF assms(3)] assms(3)
    by (metis (mono_tags, lifting) less_irrefl less_trans)
  then show ?thesis using assms(2) by (simp add: ase_find_by_ase_id_def ase_find_eq [OF assms(1)])
qed

section \<open>The value of the characteristic, as a client reads it\<close>

text \<open>
  The format of the ASE characteristic: identifier, state and the parameters of that state. The variable part comes
  last and its length is in the byte before it.
\<close>

definition codec_state_of :: "u8 list \<Rightarrow> codec_state_data" where
  "codec_state_of b = \<lparr>c_supported_framing = b ! 0, c_preferred_phy = b ! 1, c_preferred_retrans_number = b ! 2,
     c_max_transport_latency = (b ! 3, b ! 4), c_presentation_delay_min = (b ! 5, b ! 6, b ! 7),
     c_presentation_delay_max = (b ! 8, b ! 9, b ! 10),
     c_preferred_presentation_delay_min = (b ! 11, b ! 12, b ! 13),
     c_preferred_presentation_delay_max = (b ! 14, b ! 15, b ! 16),
     c_codec_id = (b ! 17, b ! 18, b ! 19, b ! 20, b ! 21), c_codec_spec_cfg_len = b ! 22\<rparr>"

definition qos_state_of :: "u8 list \<Rightarrow> qos_state_data" where
  "qos_state_of b = \<lparr>s_cig_id = b ! 0, s_cis_id = b ! 1, s_sdu_interval = (b ! 2, b ! 3, b ! 4), s_framing = b ! 5,
     s_phy = b ! 6, s_max_sdu = (b ! 7, b ! 8), s_retransmission_number = b ! 9,
     s_max_transport_latency = (b ! 10, b ! 11), s_presentation_delay = (b ! 12, b ! 13, b ! 14)\<rparr>"

definition counted :: "u8 \<Rightarrow> u8 list \<Rightarrow> u8 list option option" where
  "counted n b = (if length b \<noteq> unat n then None else Some (if n = 0 then None else Some b))"

definition parse_value :: "u8 list \<Rightarrow> (u8 \<times> u8 \<times> ase_data) option" where
  "parse_value v = (case v of
     i # x # b \<Rightarrow>
       map_option (\<lambda>d. (i, x, d))
         (if x = ASE_STATE_CODEC_CONFIGURED
          then (if length b < 23 then None
                else map_option (CodecConfigured (codec_state_of b)) (counted (b ! 22) (drop 23 b)))
          else if x = ASE_STATE_QOS_CONFIGURED
          then (if length b \<noteq> 15 then None else Some (QosConfigured (qos_state_of b)))
          else if has_metadata_state x
          then (if length b < 3 then None
                else map_option (WithMetadata (b ! 0) (b ! 1) (b ! 2)) (counted (b ! 2) (drop 3 b)))
          else if b = [] then Some NoData else None)
   | _ \<Rightarrow> None)"

lemma bytes_lengths [simp]: "length (bytes2 a) = 2" "length (bytes3 b) = 3" "length (bytes5 c) = 5"
  by (cases a; cases b; cases c; simp)+

lemma codec_bytes_length [simp]: "length (codec_state_bytes d) = 23"
  by (simp add: codec_state_bytes_def)

lemma qos_bytes_length [simp]: "length (qos_state_bytes d) = 15"
  by (simp add: qos_state_bytes_def)

lemma bytes_as_list:
  "bytes2 a = [fst a, snd a]" "bytes3 b = [fst b, fst (snd b), snd (snd b)]"
  "bytes5 c = [fst c, fst (snd c), fst (snd (snd c)), fst (snd (snd (snd c))), snd (snd (snd (snd c)))]"
  by (cases a; cases b; cases c; simp)+

lemma codec_state_roundtrip: "codec_state_of (codec_state_bytes d @ b) = d" "(codec_state_bytes d @ b) ! 22 = c_codec_spec_cfg_len d"
  by (simp_all add: codec_state_of_def codec_state_bytes_def bytes_as_list)

lemma qos_state_roundtrip: "qos_state_of (qos_state_bytes d) = d"
  by (simp add: qos_state_of_def qos_state_bytes_def bytes_as_list)

lemma char_data_ok:
  assumes "ent_ok True e"
  obtains v where "char_data e = Some v" "char_data_length e = Some (length v)"
    "parse_value v = Some (e_ase_id e, e_ase_state e, d_param (ase_data_of e))"
proof -
  have "e_ase_state e = ASE_STATE_DISABLING \<Longrightarrow> e_direction e = SERVER_AUDIO_SOURCE"
    using assms by (simp add: ent_ok_def)
  then have dir: "\<not> (e_direction e = SERVER_AUDIO_SINK \<and> e_ase_state e = ASE_STATE_DISABLING)" by auto
  have cfg: "buf_ok (e_codec_spec_cfg e) (e_codec_spec_cfg_len e)" and md: "buf_ok (e_metadata e) (e_metadata_len e)"
    and len: "c_codec_spec_cfg_len (e_codec_state_data e) = e_codec_spec_cfg_len e"
    using assms by (simp_all add: ent_ok_def)
  have read: "(if n \<noteq> 0 then mem_read b (unat n) else Some []) = Some (case b of None \<Rightarrow> [] | Some x \<Rightarrow> x)"
    and cnt: "counted n (case b of None \<Rightarrow> [] | Some x \<Rightarrow> x) = Some b" if "buf_ok b n" for b and n :: u8
    using that by (cases b; simp add: mem_read_def counted_def)+
  have st: "e_ase_state e = 0 \<or> e_ase_state e = 1 \<or> e_ase_state e = 2 \<or> e_ase_state e = 3 \<or> e_ase_state e = 4 \<or>
      e_ase_state e = 5 \<or> e_ase_state e = 6"
    using assms word_states [of "e_ase_state e"] by (simp add: ent_ok_def)
  have lens: "length (case b of None \<Rightarrow> [] | Some x \<Rightarrow> x) = unat n" if "buf_ok b n" for b :: "u8 list option" and n
    using that by (cases b) auto
  let ?cfg = "case e_codec_spec_cfg e of None \<Rightarrow> [] | Some x \<Rightarrow> x"
  let ?md = "case e_metadata e of None \<Rightarrow> [] | Some x \<Rightarrow> x"
  let ?hd = "[e_ase_id e, e_ase_state e]"
  show ?thesis
  proof (cases "e_ase_state e = ASE_STATE_CODEC_CONFIGURED")
    case True
    show ?thesis
      by (rule that [of "?hd @ codec_state_bytes (e_codec_state_data e) @ ?cfg"])
         (simp_all add: char_data_def char_data_length_def True Let_def read [OF cfg] lens [OF cfg]
          parse_value_def codec_state_roundtrip len cnt [OF cfg] ase_data_of_def)
  next
    case c: False
    show ?thesis
    proof (cases "e_ase_state e = ASE_STATE_QOS_CONFIGURED")
      case True
      show ?thesis
        by (rule that [of "?hd @ qos_state_bytes (e_qos_state_data e)"])
           (simp_all add: char_data_def char_data_length_def True Let_def parse_value_def qos_state_roundtrip ase_data_of_def)
    next
      case q: False
      show ?thesis
      proof (cases "has_metadata_state (e_ase_state e)")
        case True
        have h: "char_data e = Some (?hd @ [s_cig_id (e_qos_state_data e), s_cis_id (e_qos_state_data e), e_metadata_len e] @ ?md)"
          using True dir by (elim disjE) (simp_all add: char_data_def Let_def read [OF md])
        show ?thesis
          by (rule that [OF h])
             (use True in \<open>elim disjE; simp add: char_data_length_def lens [OF md] parse_value_def cnt [OF md] ase_data_of_def\<close>)+
      next
        case False
        then have "e_ase_state e = ASE_STATE_IDLE \<or> e_ase_state e = ASE_STATE_RELEASING" using st c q by blast
        then show ?thesis
          by (elim disjE) (rule that [of ?hd]; simp add: char_data_def char_data_length_def Let_def parse_value_def ase_data_of_def)+
      qed
    qed
  qed
qed

text \<open>C10: The value of an ASE characteristic of a well-formed server is always defined, fits exactly in the buffer
  allocated for it and, read by the format of the service, gives the identifier, the state and the data the
  application gets for that endpoint.\<close>

theorem ase_char_value:
  assumes "st_ok True s" "good_mem en" "link_table conn s = Some (l, tab)" "i < ase_total s"
  shows "\<exists>v s' n. ase_gen_char_data en conn (of_nat (i + 1)) s = Some (Some v, s') \<and>
     evlog s' = evlog s @ [Ev_alloc n] \<and> length v = n \<and>
     (\<exists>d. ascs_get_ase_data conn (of_nat (i + 1)) s' = Some (Some d) \<and>
          parse_value v = Some (of_nat (i + 1), d_ase_state d, d_param d))"
proof -
  note g = link_table_get(4) [OF assms(1,3,4)]
  note f = find_by_id [OF assms(1,3,4)]
  have ok: "ent_ok True (tab ! i)" and pl: "place_ok s i (tab ! i)" using st_ok_get [OF assms(1) g] by auto
  obtain v where v: "char_data (tab ! i) = Some v" "char_data_length (tab ! i) = Some (length v)"
    "parse_value v = Some (e_ase_id (tab ! i), e_ase_state (tab ! i), d_param (ase_data_of (tab ! i)))"
    using char_data_ok [OF ok] by blast
  let ?s = "emit (Ev_alloc (length v)) s"
  have "st_ok True ?s" using assms(1) by (simp add: st_ok_def place_ok_def)
  moreover have "link_table conn ?s = Some (l, tab)"
    using assms(3) by (simp add: link_table_def ble_audio_link_find_by_conn_handle_def)
  ultimately have f': "ase_find_by_ase_id conn (of_nat (i + 1)) ?s = Some (Some (l, i))"
    using assms(4) by (intro find_by_id) simp_all
  have "ase_gen_char_data en conn (of_nat (i + 1)) s = Some (Some v, ?s)"
    using f g v assms(2) by (simp add: ase_gen_char_data_def good_mem_def)
  moreover have "ascs_get_ase_data conn (of_nat (i + 1)) ?s = Some (Some (ase_data_of (tab ! i)))"
    using f' g by (simp add: ascs_get_ase_data_def)
  ultimately show ?thesis
    using v pl by (intro exI [of _ v] exI [of _ ?s] exI [of _ "length v"]) (simp add: ase_data_of_def place_ok_def)
qed

section \<open>Operations are defined and accepted by the state machine\<close>

lemma first_index_map: "first_index Q (map f xs) = first_index (\<lambda>x. Q (f x)) xs"
  by (induction xs) simp_all

lemma shape_find:
  assumes "same_shape s t"
  shows "ble_audio_link_find_by_conn_handle conn t = ble_audio_link_find_by_conn_handle conn s"
    "ble_audio_link_find_by_conn_id cid t = ble_audio_link_find_by_conn_id cid s"
    "l < length (le_link s) \<Longrightarrow> l_mtu_size (le_link t ! l) = l_mtu_size (le_link s ! l)"
    "l < length (le_link s) \<Longrightarrow> l_conn_handle (le_link t ! l) = l_conn_handle (le_link s ! l)"
proof -
  let ?f = "\<lambda>l. (l_used l, l_conn_id l, l_conn_handle l, l_mtu_size l, map_option length (l_ase l))"
  have m: "map ?f (le_link t) = map ?f (le_link s)" using assms by (simp add: same_shape_def)
  have "first_index (\<lambda>x. Q (?f x)) (le_link t) = first_index (\<lambda>x. Q (?f x)) (le_link s)" for Q
    unfolding first_index_map [symmetric, of Q ?f] m ..
  from this [of "\<lambda>(u, i, h, m, n). u \<and> h = conn"] this [of "\<lambda>(u, i, h, m, n). u \<and> i = cid"]
  show "ble_audio_link_find_by_conn_handle conn t = ble_audio_link_find_by_conn_handle conn s"
    "ble_audio_link_find_by_conn_id cid t = ble_audio_link_find_by_conn_id cid s"
    by (simp_all add: ble_audio_link_find_by_conn_handle_def ble_audio_link_find_by_conn_id_def)
  assume l: "l < length (le_link s)"
  have nth: "map ?f (le_link t) ! l = map ?f (le_link s) ! l" by (simp only: m)
  show "l_mtu_size (le_link t ! l) = l_mtu_size (le_link s ! l)" "l_conn_handle (le_link t ! l) = l_conn_handle (le_link s ! l)"
    using nth l shape_tables(1) [OF assms] by simp_all
qed

text \<open>
  The endpoint \<open>p\<close> of the connection \<open>conn\<close> can be served: the tables are well-formed, memory can be had, and the
  connection is the one \<open>p\<close> belongs to, with an MTU that leaves room for a notification.
\<close>

definition served :: "env \<Rightarrow> u16 \<Rightarrow> ase_ptr \<Rightarrow> st \<Rightarrow> bool" where
  "served en conn p s \<longleftrightarrow> st_ok True s \<and> good_mem en \<and>
     ble_audio_link_find_by_conn_handle conn s = Some (fst p) \<and> 3 \<le> l_mtu_size (le_link s ! fst p) \<and>
     get_ase s p \<noteq> None"

lemma served_step:
  assumes "served en conn p s" "ase_step True p L s t"
  shows "served en conn p t"
proof -
  have sh: "same_shape s t" using assms(2) by (simp add: ase_step_def)
  have l: "fst p < length (le_link s)" using assms(1) get_ase_iff [of s p] by (simp add: served_def)
  obtain e where "get_ase s p = Some e" using assms(1) by (auto simp: served_def)
  then have "get_ase t p \<noteq> None" using assms(2) unfolding ase_step_def by (metis option.distinct(1))
  then show ?thesis
    using assms(1) shape_find [OF sh] l ase_step_ok [OF assms(2)] by (simp add: served_def)
qed

lemma served_db: "served en conn p s \<Longrightarrow> same_db s t \<Longrightarrow> served en conn p t"
  by (rule served_step [OF _ ase_step_db [of _ _ stays]]) auto

lemma served_table:
  assumes "served en conn p s"
  obtains tab where "link_table conn s = Some (fst p, tab)" "snd p < ase_total s" "get_ase s p = Some (tab ! snd p)"
proof -
  have "ble_audio_link_find_by_conn_handle conn s = Some (fst p)" and g: "get_ase s p \<noteq> None"
    using assms by (simp_all add: served_def)
  moreover obtain tab where "l_ase (le_link s ! fst p) = Some tab" using get_ase_iff [of s p] g by auto
  ultimately have t: "link_table conn s = Some (fst p, tab)" by (simp add: link_table_def)
  have st: "st_ok True s" using assms by (simp add: served_def)
  have "snd p < length tab"
    using get_ase_iff [of s p] g link_table_get(2) [OF st t] by auto
  then have "snd p < ase_total s" using link_table_get(3) [OF st t] by simp
  then show ?thesis using that [OF t] link_table_get(4) [OF st t, of "snd p"] by simp
qed

lemma notify_total:
  assumes "served en conn p s"
  shows "\<exists>s'. ase_sm_send_notify en conn p s = Some s'"
proof -
  have st: "st_ok True s" and mem: "good_mem en" and lk: "ble_audio_link_find_by_conn_handle conn s = Some (fst p)"
    and mtu: "3 \<le> l_mtu_size (le_link s ! fst p)" using assms by (simp_all add: served_def)
  obtain tab where t: "link_table conn s = Some (fst p, tab)" "snd p < ase_total s" "get_ase s p = Some (tab ! snd p)"
    by (rule served_table [OF assms])
  have id: "e_ase_id (tab ! snd p) = of_nat (snd p + 1)" using st_ok_get [OF st t(3)] by (simp add: place_ok_def)
  obtain v s1 n where g: "ase_gen_char_data en conn (of_nat (snd p + 1)) s = Some (Some v, s1)"
    and "evlog s1 = evlog s @ [Ev_alloc n]"
    using ase_char_value [OF st mem t(1,2)] by blast
  have db: "same_db s s1" by (rule gen_char_data_db [OF g])
  have "ble_audio_link_find_by_conn_handle conn s1 = Some (fst p)" and "le_link s1 = le_link s"
    using db lk by (simp_all add: same_db_def ble_audio_link_find_by_conn_handle_def)
  then have "\<exists>x. ascs_send_ase_notify en conn (of_nat (snd p + 1)) v s1 = Some x"
    using mtu by (auto simp: ascs_send_ase_notify_def Let_def word_le_nat_alt simp del: of_nat_Suc of_nat_add)
  then obtain r s2 where s2: "ascs_send_ase_notify en conn (of_nat (snd p + 1)) v s1 = Some (r, s2)" by auto
  have "served en conn p s2" using served_db [OF served_db [OF assms db] ase_notify_db [OF s2]] .
  then have st2: "st_ok True s2" by (simp add: served_def)
  note f = ase_find_cases [OF st2, of "\<lambda>e. e_ase_id e = of_nat (snd p + 1)" conn]
  obtain q where "ase_find_by_ase_id conn (of_nat (snd p + 1)) s2 = Some q"
      "\<forall>l i. q = Some (l, i) \<longrightarrow> (\<exists>e. get_ase s2 (l, i) = Some e)"
    using f unfolding ase_find_by_ase_id_def by blast
  then have "\<exists>a. ascs_get_ase_data conn (of_nat (snd p + 1)) s2 = Some a"
    by (cases q) (auto simp: ascs_get_ase_data_def)
  then show ?thesis
    using t(3) id g s2 by (auto simp: ase_sm_send_notify_def split: option.split)
qed

lemma check_total:
  assumes "served en conn p s"
  shows "\<exists>s'. ascs_check_current_state en conn p s = Some s'"
proof -
  obtain e where e: "get_ase s p = Some e" using assms by (auto simp: served_def)
  have path: "\<exists>x. ascs_setup_data_path en p s = Some x" "\<exists>x. ascs_remove_data_path en p s = Some x"
    using e by (auto simp: ascs_setup_data_path_def ascs_remove_data_path_def Let_def)
  have rel: "\<exists>x. ase_action_released en conn p t = Some x" if "same_db s t" for t
  proof -
    have sv: "served en conn p t" by (rule served_db [OF assms that])
    have e': "get_ase t p = Some e" using e that by (simp add: same_db_get)
    show ?thesis
    proof (cases "ase_sm_check_iosch_status en ASE_SM_CHECK_RELEASE e t \<and> e_ase_state e = ASE_STATE_RELEASING")
      case False
      then show ?thesis using e' by (subst ase_action_released.simps) auto
    next
      case True
      let ?t = "put_ase p (ascs_change_state ASE_STATE_IDLE e) t"
      have "ase_step True p released_to t ?t"
        using True by (intro ase_step_put [OF e'] ent_ok_change(1)) (auto simp: same_place_def change_state_sets)
      then have "served en conn p ?t" by (rule served_step [OF sv])
      then obtain u where u: "ase_sm_send_notify en conn p ?t = Some u" using notify_total by blast
      have "ascs_check_current_state en conn p u = Some u"
        using send_notify_get [OF u, of p] e' by (intro check_idle) (auto simp: change_state_sets)
      then have "ase_action_released en conn p t = Some (True, u)"
        using e' True u by (simp add: ase_action_released.simps [of en conn p t])
      then show ?thesis by blast
    qed
  qed
  show ?thesis
    using path rel [OF same_db_refl] rel [OF remove_path_db]
    by (subst ascs_check_current_state.simps) (force simp: e Let_def split: prod.split)
qed

text \<open>The state of an endpoint that the application was last told.\<close>

fun state_msg :: "u16 \<Rightarrow> u8 \<Rightarrow> event \<Rightarrow> ase_char_data option" where
  "state_msg conn i (Ev_msg (Msg_ase_state c d)) = (if c = conn \<and> d_ase_id d = i then Some d else None)"
| "state_msg conn i _ = None"

definition reported :: "u16 \<Rightarrow> u8 \<Rightarrow> st \<Rightarrow> ase_char_data option" where
  "reported conn i s = newest (state_msg conn i) (evlog s)"

definition told :: "u16 \<Rightarrow> ase_ptr \<Rightarrow> st \<Rightarrow> bool" where
  "told conn p s \<longleftrightarrow> (\<exists>e. get_ase s p = Some e \<and> reported conn (e_ase_id e) s = Some (ase_data_of e))"

lemma reported_emit: "reported conn i (emit ev s) = (case state_msg conn i ev of Some d \<Rightarrow> Some d | None \<Rightarrow> reported conn i s)"
  by (simp add: reported_def newest_append split: option.split)

lemma reported_put [simp]: "reported conn i (put_ase p e s) = reported conn i s"
  by (simp add: reported_def)

lemma ase_data_id: "d_ase_id (ase_data_of e) = e_ase_id e"
  by (simp add: ase_data_of_def)

lemma ase_data_path: "ase_data_of (e\<lparr>e_added_path_direction := x\<rparr>) = ase_data_of e"
  by (simp add: ase_data_of_def)

lemma notify_told:
  assumes "served en conn p s" "ase_sm_send_notify en conn p s = Some s'"
  shows "told conn p s'"
proof -
  have st: "st_ok True s" using assms(1) by (simp add: served_def)
  obtain tab where t: "link_table conn s = Some (fst p, tab)" "snd p < ase_total s" "get_ase s p = Some (tab ! snd p)"
    by (rule served_table [OF assms(1)])
  define i where "i = e_ase_id (tab ! snd p)"
  have id: "i = of_nat (snd p + 1)" using st_ok_get [OF st t(3)] by (simp add: i_def place_ok_def)
  have unf: "ase_sm_send_notify en conn p s = do {
      (d, s1) \<leftarrow> ase_gen_char_data en conn i s;
      s2 \<leftarrow> (case d of None \<Rightarrow> Some s1 | Some bytes \<Rightarrow> map_option snd (ascs_send_ase_notify en conn i bytes s1));
      a \<leftarrow> ascs_get_ase_data conn i s2;
      Some (case a of None \<Rightarrow> s2 | Some data \<Rightarrow> emit (Ev_msg (Msg_ase_state conn data)) s2) }"
    unfolding ase_sm_send_notify_def t(3) i_def by simp
  obtain d s1 s2 a where g: "ase_gen_char_data en conn i s = Some (d, s1)"
    and n: "(case d of None \<Rightarrow> Some s1 | Some bytes \<Rightarrow> map_option snd (ascs_send_ase_notify en conn i bytes s1)) = Some s2"
    and a: "ascs_get_ase_data conn i s2 = Some a"
      "s' = (case a of None \<Rightarrow> s2 | Some data \<Rightarrow> emit (Ev_msg (Msg_ase_state conn data)) s2)"
    using assms(2) unfolding unf by (auto elim!: bind_SomeE)
  have "same_db s1 s2" using n by (auto split: option.split_asm dest: ase_notify_db)
  with gen_char_data_db [OF g] have db: "same_db s s2" by (rule same_db_trans)
  then have lt2: "link_table conn s2 = Some (fst p, tab)" and tot: "ase_total s2 = ase_total s"
    using t(1) by (simp_all add: same_db_def link_table_def ble_audio_link_find_by_conn_handle_def ase_total_def)
  have st2: "st_ok True s2" using served_db [OF assms(1) db] by (simp add: served_def)
  have "ase_find_by_ase_id conn i s2 = Some (Some p)"
    unfolding id using find_by_id [OF st2 lt2, of "snd p"] t(2) tot by simp
  moreover have g2: "get_ase s2 p = Some (tab ! snd p)" using t(3) db by (simp add: same_db_get)
  ultimately have "a = Some (ase_data_of (tab ! snd p))" using a(1) by (simp add: ascs_get_ase_data_def)
  then have "s' = emit (Ev_msg (Msg_ase_state conn (ase_data_of (tab ! snd p)))) s2" using a(2) by simp
  then show ?thesis using g2 by (simp add: told_def reported_emit ase_data_id)
qed

lemma setup_path_told: "ascs_setup_data_path en q s = Some (r, s') \<Longrightarrow> told conn q s \<Longrightarrow> told conn q s'"
  by (auto simp: ascs_setup_data_path_def told_def reported_emit Let_def ase_data_path elim!: bind_SomeE split: if_split_asm)

lemma remove_path_told: "ascs_remove_data_path en q s = Some (r, s') \<Longrightarrow> told conn q s \<Longrightarrow> told conn q s'"
  by (auto simp: ascs_remove_data_path_def told_def reported_emit elim!: bind_SomeE)

lemma released_told:
  assumes "served en conn p s" "ase_action_released en conn p s = Some (r, s')" "told conn p s"
  shows "told conn p s'"
proof -
  obtain e where e: "get_ase s p = Some e" using assms(1) by (auto simp: served_def)
  show ?thesis
  proof (cases r)
    case False
    then show ?thesis using released_cases [OF assms(2) e] assms(3) by simp
  next
    case True
    let ?t = "put_ase p (ascs_change_state ASE_STATE_IDLE e) s"
    have c: "e_ase_state e = ASE_STATE_RELEASING" and n: "ase_sm_send_notify en conn p ?t = Some s'"
      using released_cases [OF assms(2) e] True by auto
    have "ase_step True p released_to s ?t"
      using c by (intro ase_step_put [OF e] ent_ok_change(1)) (auto simp: same_place_def change_state_sets)
    then show ?thesis by (rule notify_told [OF served_step [OF assms(1)] n])
  qed
qed

lemma check_told:
  assumes "served en conn p s" "ascs_check_current_state en conn p s = Some s'" "told conn p s"
  shows "told conn p s'"
proof -
  have rel: "told conn p u" if "same_db s t" "told conn p t" "ase_action_released en conn p t = Some (r, u)" for t u r
    by (rule released_told [OF served_db [OF assms(1) that(1)] that(3,2)])
  note step = setup_path_told [OF _ assms(3)] remove_path_told [OF _ assms(3)]
    rel [OF same_db_refl assms(3)] rel [OF remove_path_db remove_path_told [OF _ assms(3)]]
  obtain e where e: "get_ase s p = Some e" using assms(1) by (auto simp: served_def)
  show ?thesis
    using assms(2,3) unfolding ascs_check_current_state.simps [of en conn p s] e Option.bind.bind_lunit Let_def
    by (auto elim!: bind_SomeE split: prod.split_asm if_split_asm intro: step)
qed

lemma notify_check_total:
  assumes "served en conn p s"
  shows "\<exists>s'. notify_and_check en conn p s = Some s' \<and> told conn p s'"
proof -
  obtain t where t: "ase_sm_send_notify en conn p s = Some t" using notify_total [OF assms] by blast
  have sv: "served en conn p t" by (rule served_db [OF assms send_notify_db [OF t]])
  obtain u where u: "ascs_check_current_state en conn p t = Some u" using check_total [OF sv] by blast
  show ?thesis using t u check_told [OF sv u notify_told [OF assms t]] by (simp add: notify_and_check_def)
qed

text \<open>What an operation needs of its arguments, and when it is accepted.\<close>

fun op_ready :: "ase_op \<Rightarrow> ase_entry \<Rightarrow> bool" where
  "op_ready (Op_cfg_codec prm dat) e \<longleftrightarrow>
     codec_cfg_parse (p_codec_spec_cfg_len prm) (Some dat) (Some (e_codec_cfg e)) \<noteq> None \<and>
     unat (p_codec_spec_cfg_len prm) \<le> length dat \<and>
     (fst (p_codec_id prm) = LC3_CODEC_ID \<longrightarrow> 1 \<le> unat (p_target_phy prm) \<and> unat (p_target_phy prm) \<le> 31)"
| "op_ready (Op_enable n md) e \<longleftrightarrow> unat n \<le> length md"
| "op_ready (Op_update_metadata n md) e \<longleftrightarrow> unat n \<le> length md"
| "op_ready _ e \<longleftrightarrow> True"

fun op_guard :: "env \<Rightarrow> st \<Rightarrow> ase_entry \<Rightarrow> ase_op \<Rightarrow> bool" where
  "op_guard en s e (Op_cfg_codec prm dat) \<longleftrightarrow>
     e_ase_state e \<in> {ASE_STATE_IDLE, ASE_STATE_CODEC_CONFIGURED, ASE_STATE_QOS_CONFIGURED} \<and>
     (\<exists>c. codec_cfg_parse (p_codec_spec_cfg_len prm) (Some dat) (Some (e_codec_cfg e)) = Some (True, c))"
| "op_guard en s e (Op_cfg_qos prm) \<longleftrightarrow> e_ase_state e \<in> {ASE_STATE_CODEC_CONFIGURED, ASE_STATE_QOS_CONFIGURED}"
| "op_guard en s e (Op_enable n md) \<longleftrightarrow> e_ase_state e = ASE_STATE_QOS_CONFIGURED"
| "op_guard en s e Op_rec_start_ready \<longleftrightarrow> e_ase_state e = ASE_STATE_ENABLING \<and> e_direction e = SERVER_AUDIO_SOURCE"
| "op_guard en s e Op_rec_stop_ready \<longleftrightarrow> e_ase_state e = ASE_STATE_DISABLING \<and> e_direction e = SERVER_AUDIO_SOURCE"
| "op_guard en s e Op_disable \<longleftrightarrow> e_ase_state e \<in> {ASE_STATE_ENABLING, ASE_STATE_STREAMING}"
| "op_guard en s e (Op_update_metadata n md) \<longleftrightarrow> e_ase_state e \<in> {ASE_STATE_ENABLING, ASE_STATE_STREAMING}"
| "op_guard en s e Op_release \<longleftrightarrow> e_ase_state e \<notin> {ASE_STATE_IDLE, ASE_STATE_RELEASING}"
| "op_guard en s e Op_released \<longleftrightarrow>
     e_ase_state e = ASE_STATE_RELEASING \<and> ase_sm_check_iosch_status en ASE_SM_CHECK_RELEASE e s"
| "op_guard en s e Op_switch_to_streaming \<longleftrightarrow> e_ase_state e = ASE_STATE_ENABLING"
| "op_guard en s e Op_switch_to_qos_cfg \<longleftrightarrow> e_ase_state e = ASE_STATE_DISABLING"

lemma put_check_total:
  assumes "served en conn p s" "get_ase s p = Some e" "same_place e e'" "ent_ok True e \<Longrightarrow> ent_ok True e'"
  shows "\<exists>s'. notify_and_check en conn p (put_ase p e' s) = Some s' \<and> told conn p s'"
proof -
  have "ase_step True p (\<lambda>d x y. True) s (put_ase p e' s)"
    by (rule ase_step_put [OF assms(2,3)]) (simp_all add: assms(4))
  then show ?thesis by (rule notify_check_total [OF served_step [OF assms(1)]])
qed

lemma copy_total:
  assumes "good_mem en" "unat n \<le> length dat"
  shows "\<exists>b s1. copy_buffer en n dat s = Some (True, b, s1)"
  using assms by (auto simp: copy_buffer_def Let_def good_mem_def mem_read_def)

lemma cis_table_lengths: "length lc3_cis_low_latency_qos = 16" "length lc3_cis_high_reliability_qos = 16"
  by (simp_all add: lc3_cis_low_latency_qos_def lc3_cis_high_reliability_qos_def)

lemma cfg_preferred_total:
  assumes "fst (p_codec_id prm) = LC3_CODEC_ID \<Longrightarrow> 1 \<le> unat (p_target_phy prm) \<and> unat (p_target_phy prm) \<le> 31"
  shows "\<exists>e'. cfg_preferred junk prm e = Some e'"
proof (cases "fst (p_codec_id prm) = LC3_CODEC_ID")
  case True
  have "\<exists>b. phy_bit (p_target_phy prm) = Some b"
    using assms [OF True] by (auto simp: phy_bit_def word_less_nat_alt)
  then obtain b where "phy_bit (p_target_phy prm) = Some b" by blast
  moreover have "\<exists>q. qos_preferred_cfg_get_by_codec (Some c) lat (Some junk) = Some (True, Some q)" for c lat
    using length_table cis_table_lengths arr_find_all [of _ lc3_codec_cfg]
    by (auto simp: qos_preferred_cfg_get_by_codec_def arr_get_def)
  then obtain q where "qos_preferred_cfg_get_by_codec (Some (e_codec_cfg e)) (p_target_latency prm) (Some junk) = Some (True, Some q)"
    by blast
  ultimately show ?thesis by (simp add: cfg_preferred_def)
qed (simp add: cfg_preferred_def)

lemma cfg_prefer_total:
  assumes "st_ok good s"
  shows "\<exists>r s'. ascs_cfg_ase_prefer_qos c i pq s = Some (r, s')"
  using ase_find_cases [OF assms, of "\<lambda>e. e_ase_id e = i" c]
  by (fastforce simp: ascs_cfg_ase_prefer_qos_def ase_find_by_ase_id_def split: option.split)

lemma ask_prefer_total:
  assumes "served en conn p s"
  shows "\<exists>s'. ask_prefer_qos en conn e prm s = Some s'"
proof -
  have "st_ok True (emit ev s)" for ev using assms by (simp add: served_def st_ok_def place_ok_def)
  note cfg_prefer_total [OF this]
  then have "\<exists>s'. map_option snd (ascs_cfg_ase_prefer_qos c i pq (emit ev s)) = Some s'" for c i pq ev
    by (metis option.simps(9))
  then show ?thesis by (simp add: ask_prefer_qos_def Let_def split: option.split)
qed

lemma cfg_codec_total:
  assumes sv: "served en conn p s" and e: "get_ase s p = Some e" and rdy: "op_ready (Op_cfg_codec prm dat) e"
  shows "\<exists>s'. ase_action_cfg_codec en conn p prm dat s = Some (op_guard en s e (Op_cfg_codec prm dat), s') \<and>
    (op_guard en s e (Op_cfg_codec prm dat) \<longrightarrow> told conn p s')"
proof (cases "e_ase_state e = ASE_STATE_IDLE \<or> e_ase_state e = ASE_STATE_CODEC_CONFIGURED \<or> e_ase_state e = ASE_STATE_QOS_CONFIGURED")
  case False
  then show ?thesis using e by (simp add: ase_action_cfg_codec_def)
next
  case True
  then have acc: "(e_ase_state e \<noteq> ASE_STATE_IDLE \<and> e_ase_state e \<noteq> ASE_STATE_CODEC_CONFIGURED \<and>
      e_ase_state e \<noteq> ASE_STATE_QOS_CONFIGURED) = False" by blast
  let ?e1 = "ascs_change_state ASE_STATE_CODEC_CONFIGURED e"
  have same_cfg: "e_codec_cfg ?e1 = e_codec_cfg e" by (simp add: ascs_change_state_def)
  obtain parsed c where "codec_cfg_parse (p_codec_spec_cfg_len prm) (Some dat) (Some (e_codec_cfg e)) = Some (parsed, c)"
    using rdy by auto
  moreover from this obtain cfg where "c = Some cfg"
    by (auto simp: codec_cfg_parse_def elim!: bind_SomeE split: if_split_asm)
  ultimately have parse: "codec_cfg_parse (p_codec_spec_cfg_len prm) (Some dat) (Some (e_codec_cfg e)) = Some (parsed, Some cfg)"
    by simp
  show ?thesis
  proof (cases parsed)
    case False
    then show ?thesis using e parse acc by (simp add: ase_action_cfg_codec_def Let_def same_cfg)
  next
    case parsed: True
    have guard: "op_guard en s e (Op_cfg_codec prm dat)" using True parse parsed by auto
    have mem: "good_mem en" using sv by (simp add: served_def)
    obtain b s1 where cp: "copy_buffer en (p_codec_spec_cfg_len prm) dat s = Some (True, b, s1)"
      using copy_total [OF mem] rdy by force
    note cpf = copy_buffer_cases [OF cp]
    have sv1: "served en conn p s1" by (rule served_db [OF sv cpf(1)])
    have e1: "get_ase s1 p = Some e" using e cpf(1) by (simp add: same_db_get)
    define e3 where "e3 = ?e1\<lparr>e_codec_cfg := cfg, e_codec_state_data := (e_codec_state_data ?e1)\<lparr>
        c_codec_spec_cfg_len := p_codec_spec_cfg_len prm, c_codec_id := p_codec_id prm\<rparr>,
      e_codec_spec_cfg := b, e_codec_spec_cfg_len := p_codec_spec_cfg_len prm\<rparr>"
    have st3: "e_ase_state e3 \<noteq> ASE_STATE_IDLE" and pl3: "same_place e e3"
      by (simp_all add: e3_def change_state_sets same_place_def)
    have ok3: "ent_ok True e3" if "ent_ok True e"
      using ent_ok_change(2) [OF that True] cpf(3) change_state_sets [of 1 e] by (simp add: ent_ok_def e3_def)
    obtain e4 where e4: "cfg_preferred (stack_qos en (evlog s1)) prm e3 = Some e4"
      using cfg_preferred_total rdy by (metis op_ready.simps(1))
    note k = cfg_preferred_keeps [OF e4 st3, of True]
    have stp: "ase_step True p (\<lambda>d x y. True) s1 (put_ase p e4 s1)"
      by (rule ase_step_put [OF e1]) (use pl3 ok3 k in \<open>auto simp: same_place_def\<close>)
    have sv4: "served en conn p (put_ase p e4 s1)" by (rule served_step [OF sv1 stp])
    obtain s2 where s2: "ask_prefer_qos en conn e4 prm (put_ase p e4 s1) = Some s2" using ask_prefer_total [OF sv4] by blast
    obtain s3 where s3: "notify_and_check en conn p s2 = Some s3" "told conn p s3"
      using notify_check_total [OF served_step [OF sv4 ask_prefer_step [OF s2]]] by blast
    have "ase_action_cfg_codec en conn p prm dat s = Some (True, s3)"
      using e parse parsed cp e4 s2 s3 acc unfolding e3_def by (simp add: ase_action_cfg_codec_def Let_def same_cfg)
    then show ?thesis using guard s3(2) by simp
  qed
qed

definition state_at :: "ase_ptr \<Rightarrow> st \<Rightarrow> u8 option" where
  "state_at p s = map_option e_ase_state (get_ase s p)"

lemma ready_total:
  assumes sv: "served en conn p s" and e: "get_ase s p = Some e" and "same_place e e2" "ent_ok True e \<Longrightarrow> ent_ok True e2"
    and "e_ase_state e2 \<noteq> ASE_STATE_RELEASING"
  shows "\<exists>s'. (do { s1 \<leftarrow> (if c then ase_sm_send_notify en conn p (put_ase p e2 s) else Some (put_ase p e2 s));
              s2 \<leftarrow> ascs_check_current_state en conn p s1; Some (True, s2) }) = Some (True, s') \<and>
    (c \<longrightarrow> told conn p s') \<and> (\<not> c \<longrightarrow> state_at p s' = Some (e_ase_state e2))"
proof -
  have "ase_step True p (\<lambda>d x y. True) s (put_ase p e2 s)"
    by (rule ase_step_put [OF e assms(3)]) (simp_all add: assms(4))
  then have sv1: "served en conn p (put_ase p e2 s)" by (rule served_step [OF sv])
  obtain s1 where s1: "(if c then ase_sm_send_notify en conn p (put_ase p e2 s) else Some (put_ase p e2 s)) = Some s1"
    using notify_total [OF sv1] by (cases c) auto
  then have "same_db (put_ase p e2 s) s1" by (auto split: if_split_asm dest: send_notify_db)
  then have sv2: "served en conn p s1" by (rule served_db [OF sv1])
  obtain s2 where s2: "ascs_check_current_state en conn p s1 = Some s2" using check_total [OF sv2] by blast
  have "told conn p s1" if c using s1 that notify_told [OF sv1] by simp
  then have "told conn p s2" if c using that check_told [OF sv2 s2] by blast
  moreover have "state_at p s2 = Some (e_ase_state e2)" if "\<not> c"
  proof -
    have "s1 = put_ase p e2 s" using s1 that by simp
    then have "get_ase s1 p = Some e2" using e by simp
    then show ?thesis
      using check_state_step [OF s2, of True] assms(5) unfolding ase_step_def state_at_def by fastforce
  qed
  ultimately show ?thesis using s1 s2 by simp
qed

lemma enable_total:
  assumes sv: "served en conn p s" and e: "get_ase s p = Some e" and rdy: "unat n \<le> length md"
  shows "\<exists>s'. ase_action_enable en conn p n md s = Some (e_ase_state e = ASE_STATE_QOS_CONFIGURED, s') \<and>
    (e_ase_state e = ASE_STATE_QOS_CONFIGURED \<longrightarrow> told conn p s')"
proof (cases "e_ase_state e = ASE_STATE_QOS_CONFIGURED")
  case False
  then show ?thesis using e by (simp add: ase_action_enable_def)
next
  case True
  have mem: "good_mem en" using sv by (simp add: served_def)
  obtain b s1 where cp: "copy_buffer en n md s = Some (True, b, s1)" using copy_total [OF mem rdy] by blast
  note cpf = copy_buffer_cases [OF cp]
  have sv1: "served en conn p s1" by (rule served_db [OF sv cpf(1)])
  have e': "get_ase s1 p = Some e" using cpf(1) e by (simp add: same_db_get)
  define e1 where "e1 = (ascs_change_state ASE_STATE_ENABLING e)\<lparr>e_metadata := b, e_metadata_len := n\<rparr>"
  define e2 where "e2 = (if e_direction e1 = SERVER_AUDIO_SINK \<and>
      ase_sm_check_iosch_status en ASE_SM_CHECK_ENABLE e1 s1 \<and> app_ready e1
    then ascs_change_state ASE_STATE_STREAMING e1 else e1)"
  have st1: "e_ase_state e1 = ASE_STATE_ENABLING" and "same_place e e1" by (simp_all add: e1_def change_state_sets same_place_def)
  then have pl2: "same_place e e2" by (simp add: e2_def same_place_def)
  have ok1: "ent_ok True e1" if "ent_ok True e"
    unfolding e1_def using that True cpf(3) by (intro ent_ok_metadata ent_ok_enabling) (auto simp: change_state_sets)
  have ok2: "ent_ok True e2" if "ent_ok True e" using ok1 [OF that] st1 by (auto simp: e2_def intro: ent_ok_change(4))
  obtain s2 where "notify_and_check en conn p (put_ase p e2 s1) = Some s2" "told conn p s2"
    using put_check_total [OF sv1 e' pl2 ok2] by blast
  then show ?thesis using e True cp unfolding e2_def e1_def by (simp add: ase_action_enable_def Let_def)
qed

lemma update_metadata_total:
  assumes sv: "served en conn p s" and e: "get_ase s p = Some e" and rdy: "unat n \<le> length md"
  shows "\<exists>s'. ase_action_update_metadata en conn p n md s = Some (op_guard en s e (Op_update_metadata n md), s') \<and>
    (op_guard en s e (Op_update_metadata n md) \<longrightarrow> told conn p s')"
proof (cases "e_ase_state e = ASE_STATE_ENABLING \<or> e_ase_state e = ASE_STATE_STREAMING")
  case False
  then show ?thesis using e by (simp add: ase_action_update_metadata_def)
next
  case True
  then have acc: "(e_ase_state e \<noteq> ASE_STATE_ENABLING \<and> e_ase_state e \<noteq> ASE_STATE_STREAMING) = False" by blast
  have mem: "good_mem en" using sv by (simp add: served_def)
  obtain b s1 where cp: "copy_buffer en n md s = Some (True, b, s1)" using copy_total [OF mem rdy] by blast
  note cpf = copy_buffer_cases [OF cp]
  have sv1: "served en conn p s1" by (rule served_db [OF sv cpf(1)])
  have e': "get_ase s1 p = Some e" using cpf(1) e by (simp add: same_db_get)
  let ?e1 = "e\<lparr>e_metadata := b, e_metadata_len := n\<rparr>"
  have "ent_ok True ?e1" if "ent_ok True e" using that True cpf(3) by (intro ent_ok_metadata) auto
  then obtain s2 where "notify_and_check en conn p (put_ase p ?e1 s1) = Some s2" "told conn p s2"
    using put_check_total [OF sv1 e', of ?e1] by (auto simp: same_place_def)
  then show ?thesis using e True cp by (simp add: ase_action_update_metadata_def Let_def acc)
qed

lemma released_total:
  assumes sv: "served en conn p s" and e: "get_ase s p = Some e"
  shows "\<exists>s'. ase_action_released en conn p s = Some (op_guard en s e Op_released, s') \<and>
    (op_guard en s e Op_released \<longrightarrow> told conn p s')"
proof -
  obtain r s' where "ase_action_released en conn p s = Some (r, s')" "r \<Longrightarrow> told conn p s'"
  proof (cases "ase_sm_check_iosch_status en ASE_SM_CHECK_RELEASE e s \<and> e_ase_state e = ASE_STATE_RELEASING")
    case False
    then show ?thesis using that [of False s] e by (auto simp: ase_action_released.simps [of en conn p s])
  next
    case True
    let ?t = "put_ase p (ascs_change_state ASE_STATE_IDLE e) s"
    have "ase_step True p released_to s ?t"
      using True by (intro ase_step_put [OF e] ent_ok_change(1)) (auto simp: same_place_def change_state_sets)
    then have svt: "served en conn p ?t" by (rule served_step [OF sv])
    obtain u where u: "ase_sm_send_notify en conn p ?t = Some u" using notify_total [OF svt] by blast
    have svu: "served en conn p u" by (rule served_db [OF svt send_notify_db [OF u]])
    obtain v where v: "ascs_check_current_state en conn p u = Some v" using check_total [OF svu] by blast
    show ?thesis
      using that [of True v] e True u v check_told [OF svu v notify_told [OF svt u]]
      by (simp add: ase_action_released.simps [of en conn p s])
  qed
  then show ?thesis
    using e by (auto simp: ase_action_released.simps [of en conn p s] elim!: bind_SomeE split: if_split_asm)
qed

lemma change_total:
  assumes "served en conn p s" "get_ase s p = Some e" "ent_ok True e \<Longrightarrow> ent_ok True (ascs_change_state x e)"
  shows "\<exists>s'. notify_and_check en conn p (put_ase p (ascs_change_state x e) s) = Some s' \<and> told conn p s'"
  by (rule put_check_total [OF assms(1,2)]) (simp_all add: same_place_def assms(3))

lemma simple_total:
  assumes sv: "served en conn p s" and e: "get_ase s p = Some e"
  shows "\<exists>s'. ase_action_cfg_qos en conn p prm s = Some (op_guard en s e (Op_cfg_qos prm), s') \<and> (op_guard en s e (Op_cfg_qos prm) \<longrightarrow> told conn p s')"
    and "\<exists>s'. ase_action_disable en conn p s = Some (op_guard en s e Op_disable, s') \<and> (op_guard en s e Op_disable \<longrightarrow> told conn p s')"
    and "\<exists>s'. ase_action_release en conn p s = Some (op_guard en s e Op_release, s') \<and> (op_guard en s e Op_release \<longrightarrow> told conn p s')"
    and "\<exists>s'. ase_switch_to_streaming en conn p s = Some (op_guard en s e Op_switch_to_streaming, s') \<and> (op_guard en s e Op_switch_to_streaming \<longrightarrow> told conn p s')"
    and "\<exists>s'. ase_switch_to_qos_cfg en conn p s = Some (op_guard en s e Op_switch_to_qos_cfg, s') \<and> (op_guard en s e Op_switch_to_qos_cfg \<longrightarrow> told conn p s')"
proof goal_cases
  case 1
  let ?e = "(ascs_change_state ASE_STATE_QOS_CONFIGURED e)\<lparr>e_qos_state_data := prm\<rparr>"
  have "ent_ok True e \<Longrightarrow> e_ase_state e \<noteq> ASE_STATE_IDLE \<Longrightarrow> ent_ok True ?e"
    by (intro ent_ok_qos_data ent_ok_change(3)) (auto simp: change_state_sets)
  then have "e_ase_state e \<noteq> ASE_STATE_IDLE \<Longrightarrow> \<exists>s'. notify_and_check en conn p (put_ase p ?e s) = Some s' \<and> told conn p s'"
    by (intro put_check_total [OF sv e]) (simp_all add: same_place_def)
  then show ?case using e by (auto simp: ase_action_cfg_qos_def)
next
  case 2
  have d: "e_direction e = SERVER_AUDIO_SINK \<or> e_direction e = SERVER_AUDIO_SOURCE"
    using st_ok_get [of True s p e] sv e by (simp add: served_def ent_ok_def)
  have "e_ase_state e = ASE_STATE_ENABLING \<or> e_ase_state e = ASE_STATE_STREAMING \<Longrightarrow>
      \<exists>s'. notify_and_check en conn p (put_ase p (ascs_change_state (if e_direction e = SERVER_AUDIO_SINK
        then ASE_STATE_QOS_CONFIGURED else ASE_STATE_DISABLING) e) s) = Some s' \<and> told conn p s'"
    using d by (intro change_total [OF sv e]) (auto intro: ent_ok_change(3,5))
  then show ?case using e by (auto simp: ase_action_disable_def)
next
  case 3
  have "e_ase_state e \<noteq> ASE_STATE_IDLE \<Longrightarrow>
      \<exists>s'. notify_and_check en conn p (put_ase p (ascs_change_state ASE_STATE_RELEASING e) s) = Some s' \<and> told conn p s'"
    by (intro change_total [OF sv e] ent_ok_change(6))
  then show ?case using e by (auto simp: ase_action_release_def)
next
  case 4
  have "e_ase_state e = ASE_STATE_ENABLING \<Longrightarrow>
      \<exists>s'. notify_and_check en conn p (put_ase p (ascs_change_state ASE_STATE_STREAMING e) s) = Some s' \<and> told conn p s'"
    by (intro change_total [OF sv e] ent_ok_change(4))
  then show ?case using e by (auto simp: ase_switch_to_streaming_def)
next
  case 5
  have "e_ase_state e = ASE_STATE_DISABLING \<Longrightarrow>
      \<exists>s'. notify_and_check en conn p (put_ase p (ascs_change_state ASE_STATE_QOS_CONFIGURED e) s) = Some s' \<and> told conn p s'"
    by (intro change_total [OF sv e] ent_ok_change(3)) auto
  then show ?case using e by (auto simp: ase_switch_to_qos_cfg_def)
qed

lemma rec_ready_total:
  assumes sv: "served en conn p s" and e: "get_ase s p = Some e"
  shows "\<exists>s'. ase_action_rec_start_ready en conn p s = Some (op_guard en s e Op_rec_start_ready, s') \<and>
      (op_guard en s e Op_rec_start_ready \<longrightarrow> told conn p s' \<or> state_at p s' = Some (e_ase_state e))"
    and "\<exists>s'. ase_action_rec_stop_ready en conn p s = Some (op_guard en s e Op_rec_stop_ready, s') \<and>
      (op_guard en s e Op_rec_stop_ready \<longrightarrow> told conn p s' \<or> state_at p s' = Some (e_ase_state e))"
proof goal_cases
  case 1
  show ?case
  proof (cases "e_ase_state e = ASE_STATE_ENABLING \<and> e_direction e = SERVER_AUDIO_SOURCE")
    case True
    let ?e1 = "e\<lparr>e_rec_start_ready := True\<rparr>"
    define e2 where "e2 = (if ase_sm_check_iosch_status en ASE_SM_CHECK_ENABLE ?e1 s
      then ascs_change_state ASE_STATE_STREAMING ?e1 else ?e1)"
    have "ent_ok True ?e1" if "ent_ok True e" using that True by (simp add: ent_ok_def)
    then have ok2: "ent_ok True e2" if "ent_ok True e" using ent_ok_change(4) [of True ?e1] that True by (auto simp: e2_def)
    have "same_place e e2" by (simp add: e2_def same_place_def)
    moreover have "e_ase_state e2 \<noteq> ASE_STATE_RELEASING" using True by (simp add: e2_def change_state_sets)
    ultimately obtain s' where s': "(do { s1 \<leftarrow> (if e_ase_state e2 \<noteq> e_ase_state e then ase_sm_send_notify en conn p (put_ase p e2 s)
              else Some (put_ase p e2 s));
            s2 \<leftarrow> ascs_check_current_state en conn p s1; Some (True, s2) }) = Some (True, s')"
        "e_ase_state e2 \<noteq> e_ase_state e \<longrightarrow> told conn p s'" "\<not> e_ase_state e2 \<noteq> e_ase_state e \<longrightarrow> state_at p s' = Some (e_ase_state e2)"
      using ready_total [OF sv e _ ok2, of "e_ase_state e2 \<noteq> e_ase_state e"] by blast
    have "ase_action_rec_start_ready en conn p s = Some (True, s')"
      using e True s'(1) unfolding e2_def by (simp add: ase_action_rec_start_ready_def Let_def)
    then show ?thesis using s'(2,3) True by auto
  qed (use e in \<open>auto simp: ase_action_rec_start_ready_def\<close>)
next
  case 2
  show ?case
  proof (cases "e_ase_state e = ASE_STATE_DISABLING \<and> e_direction e = SERVER_AUDIO_SOURCE")
    case True
    let ?e1 = "e\<lparr>e_rec_stop_ready := True\<rparr>"
    define e2 where "e2 = (if ase_sm_check_iosch_status en ASE_SM_CHECK_DISABLE ?e1 s
      then ascs_change_state ASE_STATE_QOS_CONFIGURED ?e1 else ?e1)"
    have "ent_ok True ?e1" if "ent_ok True e" using that True by (simp add: ent_ok_def)
    then have ok2: "ent_ok True e2" if "ent_ok True e" using ent_ok_change(3) [of True ?e1] that True by (auto simp: e2_def)
    have "same_place e e2" by (simp add: e2_def same_place_def)
    moreover have "e_ase_state e2 \<noteq> ASE_STATE_RELEASING" using True by (simp add: e2_def change_state_sets)
    ultimately obtain s' where s': "(do { s1 \<leftarrow> (if e_ase_state e2 \<noteq> e_ase_state e then ase_sm_send_notify en conn p (put_ase p e2 s)
              else Some (put_ase p e2 s));
            s2 \<leftarrow> ascs_check_current_state en conn p s1; Some (True, s2) }) = Some (True, s')"
        "e_ase_state e2 \<noteq> e_ase_state e \<longrightarrow> told conn p s'" "\<not> e_ase_state e2 \<noteq> e_ase_state e \<longrightarrow> state_at p s' = Some (e_ase_state e2)"
      using ready_total [OF sv e _ ok2, of "e_ase_state e2 \<noteq> e_ase_state e"] by blast
    have "ase_action_rec_stop_ready en conn p s = Some (True, s')"
      using e True s'(1) unfolding e2_def by (simp add: ase_action_rec_stop_ready_def Let_def)
    then show ?thesis using s'(2,3) True by auto
  qed (use e in \<open>auto simp: ase_action_rec_stop_ready_def\<close>)
qed

lemma ase_exec_total:
  assumes "served en conn p s" "get_ase s p = Some e" "op_ready op e"
  shows "\<exists>s'. ase_exec en conn p op s = Some (op_guard en s e op, s') \<and>
    (op_guard en s e op \<longrightarrow> told conn p s' \<or> state_at p s' = Some (e_ase_state e))"
proof (cases op)
  case (Op_cfg_codec prm dat)
  then show ?thesis
    using cfg_codec_total [OF assms(1,2), of prm dat] assms(3) by (simp only: ase_exec.simps) blast
next
  case (Op_enable n md)
  then show ?thesis
    using enable_total [OF assms(1,2), of n md] assms(3) by (simp only: ase_exec.simps op_guard.simps op_ready.simps) blast
next
  case (Op_update_metadata n md)
  then show ?thesis
    using update_metadata_total [OF assms(1,2), of n md] assms(3) by (simp only: ase_exec.simps op_ready.simps) blast
qed (simp only: ase_exec.simps, use simple_total [OF assms(1,2)] rec_ready_total [OF assms(1,2)] released_total [OF assms(1,2)] in blast)+

section \<open>Creating and freeing a table\<close>

lemma upd_range_spec:
  assumes "hi \<le> length tab"
  shows "\<exists>t. upd_range lo hi f tab = Some t \<and> length t = length tab \<and>
    (\<forall>i < length tab. t ! i = (if lo \<le> i \<and> i < hi then f i (tab ! i) else tab ! i))"
proof (cases "hi \<le> lo")
  case True
  then show ?thesis by (auto simp: upd_range_def)
next
  case False
  then show ?thesis using assms
    by (auto simp: upd_range_def nth_append not_less nth_Cons')
qed

lemma ent_ok_zero: "d = SERVER_AUDIO_SINK \<or> d = SERVER_AUDIO_SOURCE \<Longrightarrow> ent_ok good (init_ase conn d i zero_ase)"
  by (auto simp: ent_ok_def init_ase_def zero_ase_def zero_codec_state_def)

lemma st_ok_set_table:
  assumes "st_ok good s" "ase_total s = ase_total s'" "snk_ase_num s' = snk_ase_num s"
    and "le_link s' = (le_link s)[l := (le_link s ! l)\<lparr>l_ase := t\<rparr>]"
    and "\<And>tab. t = Some tab \<Longrightarrow> length tab = ase_total s \<and> (\<forall>i < ase_total s. ent_ok good (tab ! i) \<and> place_ok s i (tab ! i))"
  shows "st_ok good s'"
  unfolding st_ok_def
proof (intro conjI allI impI)
  show "ase_total s' \<le> 255" using assms(1,2) by (simp add: st_ok_def)
next
  fix k tab assume "k < length (le_link s')" "l_ase (le_link s' ! k) = Some tab"
  then show "length tab = ase_total s'"
    using assms by (cases "k = l") (auto simp: st_ok_def)
next
  fix p e assume g: "get_ase s' p = Some e"
  show "ent_ok good e"  "place_ok s' (snd p) e"
  proof (atomize (full), cases "fst p = l")
    case True
    then obtain tab where "t = Some tab" "snd p < length tab" "e = tab ! snd p"
      using g assms(4) by (auto simp: get_ase_def arr_get_def elim!: bind_SomeE split: if_split_asm)
    then show "ent_ok good e \<and> place_ok s' (snd p) e"
      using assms(3) assms(5) [of tab] by (simp add: place_ok_def)
  next
    case False
    then have "get_ase s p = Some e"
      using g assms(4) by (auto simp: get_ase_def arr_get_def elim!: bind_SomeE split: if_split_asm)
    then show "ent_ok good e \<and> place_ok s' (snd p) e"
      using st_ok_get [OF assms(1)] assms(3) by (auto simp: place_ok_def)
  qed
qed

lemma link_init_ok:
  assumes "ase_sm_link_init en conn s = Some (r, s')" "st_ok good s"
  shows "st_ok good s'"
proof (cases "ble_audio_link_find_by_conn_handle conn s")
  case None
  then show ?thesis using assms by (simp add: ase_sm_link_init_def)
next
  case (Some l)
  then have l: "l < length (le_link s)" by (auto simp: ble_audio_link_find_by_conn_handle_def first_index_less)
  have n: "ase_total s \<le> 255" using assms(2) by (simp add: st_ok_def)
  define tab where "tab = (case l_ase (le_link s ! l) of Some t \<Rightarrow> t | None \<Rightarrow> replicate (ase_total s) zero_ase)"
  have len: "length tab = ase_total s"
    using assms(2) l by (auto simp: tab_def st_ok_def split: option.split)
  have snk: "unat (snk_ase_num s) \<le> ase_total s" by (simp add: ase_total_def)
  obtain t1 where t1: "upd_range 0 (unat (snk_ase_num s)) (init_ase conn SERVER_AUDIO_SINK) tab = Some t1"
    "length t1 = length tab" "\<forall>i < length tab. t1 ! i = (if i < unat (snk_ase_num s) then init_ase conn SERVER_AUDIO_SINK i (tab ! i) else tab ! i)"
    using upd_range_spec [of "unat (snk_ase_num s)" tab 0 "init_ase conn SERVER_AUDIO_SINK"] snk len by auto
  obtain t2 where t2: "upd_range (unat (snk_ase_num s)) (ase_total s) (init_ase conn SERVER_AUDIO_SOURCE) t1 = Some t2"
    "length t2 = length tab" "\<forall>i < length tab. t2 ! i = (if unat (snk_ase_num s) \<le> i then init_ase conn SERVER_AUDIO_SOURCE i (t1 ! i) else t1 ! i)"
    using upd_range_spec [of "ase_total s" t1 "unat (snk_ase_num s)" "init_ase conn SERVER_AUDIO_SOURCE"] len t1(2) by auto
  have ent: "ent_ok good (t2 ! i) \<and> place_ok s i (t2 ! i)" if i: "i < ase_total s" for i
  proof -
    let ?d = "if i < unat (snk_ase_num s) then SERVER_AUDIO_SINK else SERVER_AUDIO_SOURCE"
    have t: "t2 ! i = init_ase conn ?d i (tab ! i)" using t1(3) t2(3) i len by (auto simp: not_less)
    have "ent_ok good (init_ase conn ?d i (tab ! i))"
    proof (cases "l_ase (le_link s ! l)")
      case None
      then show ?thesis using i by (simp add: tab_def ent_ok_zero)
    next
      case (Some t)
      then have "get_ase s (l, i) = Some (tab ! i)" using l i len by (simp add: get_ase_def arr_get_def tab_def)
      then have "ent_ok good (tab ! i)" "e_direction (tab ! i) = ?d"
        using st_ok_get [OF assms(2)] by (auto simp: place_ok_def)
      then show ?thesis by (simp add: ent_ok_def init_ase_def)
    qed
    then show ?thesis unfolding t by (simp add: place_ok_def init_ase_def)
  qed
  have res: "s' = s \<or> (\<exists>ev. s' = emit ev s) \<or>
      (\<exists>u. same_db s u \<and> s' = u\<lparr>le_link := (le_link u)[l := (le_link u ! l)\<lparr>l_ase := Some t2\<rparr>]\<rparr>)"
  proof (cases "l_ase (le_link s ! l)")
    case None
    let ?u = "emit (Ev_alloc (ase_total s)) s"
    have "s' = ?u \<or> s' = ?u\<lparr>le_link := (le_link ?u)[l := (le_link ?u ! l)\<lparr>l_ase := Some t2\<rparr>]\<rparr>"
      using assms(1) Some n t1(1) t2(1) None
      by (auto simp: ase_sm_link_init_def tab_def Let_def split: if_split_asm)
    moreover have "same_db s ?u" by simp
    ultimately show ?thesis by blast
  next
    case (Some t)
    have "s' = s\<lparr>le_link := (le_link s)[l := (le_link s ! l)\<lparr>l_ase := Some t2\<rparr>]\<rparr>"
      using assms(1) \<open>ble_audio_link_find_by_conn_handle conn s = Some l\<close> n t1(1) t2(1) Some
      by (auto simp: ase_sm_link_init_def tab_def Let_def split: if_split_asm)
    then show ?thesis using same_db_refl [of s] by blast
  qed
  moreover have "st_ok good u" if "same_db s u" for u
    by (rule ase_step_ok [OF ase_step_db [OF that, of stays] assms(2)]) simp
  moreover have "st_ok good (u\<lparr>le_link := (le_link u)[l := (le_link u ! l)\<lparr>l_ase := Some t2\<rparr>]\<rparr>)" if "same_db s u" for u
    by (rule st_ok_set_table [OF assms(2)])
       (use that ent t2(2) len in \<open>auto simp: same_db_def ase_total_def\<close>)
  ultimately show ?thesis by auto
qed

lemma link_free_ok:
  assumes "ase_sm_link_free conn s = Some s'" "st_ok good s"
  shows "st_ok good s'"
proof (cases "link_table conn s")
  case None
  then show ?thesis using assms by (simp add: ase_sm_link_free_def)
next
  case (Some lt)
  then show ?thesis using assms(1)
    by (cases lt) (auto simp: ase_sm_link_free_def ase_total_def split: if_split_asm intro!: st_ok_set_table [OF assms(2)])
qed

section \<open>Properties of the operations\<close>

text \<open>C1: Every operation on an endpoint keeps the tables well-formed, leaves the state of every other endpoint alone
  and, when it succeeds, moves its endpoint along an edge of the state machine of the service; when it is refused
  the state stays, except after a configuration that does not parse and after a failed allocation.\<close>

theorem ase_transitions:
  assumes "st_ok (good_mem en) s" "get_ase s p = Some e" "ase_exec en conn p op s = Some (r, s')"
  shows "st_ok (good_mem en) s' \<and>
    (\<exists>e'. get_ase s' p = Some e' \<and>
       (if r then ase_edge op (e_direction e) (e_ase_state e) (e_ase_state e')
        else ase_refuse op (e_direction e) (e_ase_state e) (e_ase_state e'))) \<and>
    (\<forall>q. q \<noteq> p \<longrightarrow> get_ase s q \<noteq> None \<longrightarrow> state_at q s' = state_at q s)"
proof (intro conjI)
  have step: "ase_step (good_mem en) p (op_rel op r) s s'" by (rule ase_exec_step [OF assms(3)])
  show "st_ok (good_mem en) s'" by (rule ase_step_ok [OF step assms(1)])
  obtain e' where "get_ase s' p = Some e'" "op_rel op r (e_direction e) (e_ase_state e) (e_ase_state e')"
    using step assms(2) unfolding ase_step_def by (metis (full_types))
  then show "\<exists>e'. get_ase s' p = Some e' \<and>
      (if r then ase_edge op (e_direction e) (e_ase_state e) (e_ase_state e')
       else ase_refuse op (e_direction e) (e_ase_state e) (e_ase_state e'))"
    by (auto simp: op_rel_def)
  show "\<forall>q. q \<noteq> p \<longrightarrow> get_ase s q \<noteq> None \<longrightarrow> state_at q s' = state_at q s"
    using step unfolding ase_step_def state_at_def by (metis (full_types) not_None_eq option.simps(9))
qed

definition quiet_env :: env where
  "quiet_env = \<lparr>isoch_of = (\<lambda>_ _. (False, \<lparr>i_state = 0, i_data_path_flags = 0, i_data_path_adding = False,
       i_data_path_removing = False\<rparr>)),
     mem_ok = (\<lambda>_. True), send_ok = (\<lambda>_. True), setup_ok = (\<lambda>_. True), remove_ok = (\<lambda>_. True),
     app_result = (\<lambda>_. 0), app_prefer = (\<lambda>_. None), stack_qos = (\<lambda>_. qos_row 0 0 0 0 0),
     cis_of = (\<lambda>_ _. (0, 0, 0)), handle_of = (\<lambda>_ _. 0x40), mtu_of = (\<lambda>_ _. 64), start_handle = (\<lambda>_. 0x20),
     clear_ok = (\<lambda>_. True), read_ok = (\<lambda>_. True)\<rparr>"

definition demo_st :: st where
  "demo_st = \<lparr>le_link = [\<lparr>l_used = True, l_conn_id = 0, l_conn_handle = 0x40, l_mtu_size = 64,
       l_ase = Some [init_ase 0x40 SERVER_AUDIO_SINK 0 zero_ase, init_ase 0x40 SERVER_AUDIO_SOURCE 1 zero_ase]\<rparr>],
     snk_ase_num = 1, src_ase_num = 1, evlog = []\<rparr>"

definition demo_cfg :: cp_codec_cfg where
  "demo_cfg = \<lparr>p_ase_id = 1, p_target_latency = 1, p_target_phy = 2, p_codec_id = (6, 0, 0, 0, 0),
     p_codec_spec_cfg_len = 10\<rparr>"

definition demo_ltv :: "u8 list" where
  "demo_ltv = [2, 1, 8, 2, 2, 1, 3, 4, 100, 0]"

lemma demo_get: "get_ase demo_st p = Some e \<longleftrightarrow>
    p = (0, 0) \<and> e = init_ase 0x40 SERVER_AUDIO_SINK 0 zero_ase \<or> p = (0, 1) \<and> e = init_ase 0x40 SERVER_AUDIO_SOURCE 1 zero_ase"
  by (cases p) (auto simp: get_ase_def demo_st_def arr_get_def less_Suc_eq)

lemma demo_st_ok: "st_ok good demo_st"
proof -
  have n: "ase_total demo_st = 2" "snk_ase_num demo_st = 1" by (simp_all add: ase_total_def demo_st_def)
  have "ent_ok good e \<and> place_ok demo_st (snd p) e" if "get_ase demo_st p = Some e" for p e
  proof
    show "ent_ok good e" using that unfolding demo_get by (auto intro: ent_ok_zero)
    show "place_ok demo_st (snd p) e" using that n(2) unfolding demo_get by (auto simp: place_ok_def init_ase_def)
  qed
  moreover have "length tab = 2" if "l < length (le_link demo_st)" "l_ase (le_link demo_st ! l) = Some tab" for l tab
    using that by (auto simp: demo_st_def)
  ultimately show ?thesis by (simp add: st_ok_def n)
qed

lemma quiet_good: "good_mem quiet_env"
  by (simp add: good_mem_def quiet_env_def)

lemma demo_served: "served quiet_env 0x40 (0, 0) demo_st"
  using demo_st_ok quiet_good demo_get [of "(0, 0)"]
  by (auto simp: served_def ble_audio_link_find_by_conn_handle_def demo_st_def)

theorem ase_transitions_witness:
  "case ase_exec quiet_env 0x40 (0, 0) (Op_cfg_codec demo_cfg demo_ltv) demo_st of
     None \<Rightarrow> False
   | Some (r, s') \<Rightarrow> r \<and> st_ok True s' \<and> state_at (0, 0) s' = Some ASE_STATE_CODEC_CONFIGURED"
proof -
  let ?x = "ase_exec quiet_env 0x40 (0, 0) (Op_cfg_codec demo_cfg demo_ltv) demo_st"
  have "map_option fst ?x = Some True" by code_simp
  then obtain s' where x: "?x = Some (True, s')" by auto
  have g: "get_ase demo_st (0, 0) = Some (init_ase 0x40 SERVER_AUDIO_SINK 0 zero_ase)" by (simp add: demo_get)
  have "st_ok (good_mem quiet_env) demo_st" by (rule demo_st_ok)
  from ase_transitions [OF this g x] show ?thesis
    unfolding x by (auto simp: quiet_good state_at_def)
qed



theorem ase_char_value_witness:
  "\<exists>v s' n. ase_gen_char_data quiet_env 0x40 1 demo_st = Some (Some v, s') \<and> length v = n \<and>
     parse_value v = Some (1, 0, NoData)"
proof -
  have t: "link_table 0x40 demo_st = Some (0, [init_ase 0x40 SERVER_AUDIO_SINK 0 zero_ase, init_ase 0x40 SERVER_AUDIO_SOURCE 1 zero_ase])"
    by (simp add: link_table_def ble_audio_link_find_by_conn_handle_def demo_st_def)
  have "0 < ase_total demo_st" by (simp add: ase_total_def demo_st_def)
  from ase_char_value [OF demo_st_ok quiet_good t this] obtain v s' where
    v: "ase_gen_char_data quiet_env 0x40 1 demo_st = Some (Some v, s')" by auto
  have "map_option fst (ase_gen_char_data quiet_env 0x40 1 demo_st) = Some (Some [1, 0])" by code_simp
  then have "v = [1, 0]" using v(1) by simp
  then show ?thesis using v by (simp add: parse_value_def)
qed

end
