(* ===== verification/Ase_Cp.thy ===== *)
theory Ase_Cp
  imports Ase_Spec
begin

text \<open>
  The ASE control point: the checks of a request that a client writes,
  \<open>src/app/ble_audio_lib/bap/ase_handle_cp.c\<close>, with the look-up of a published audio capability of
  \<open>pac_mgr.c\<close>.

  The request is the list of bytes from \<open>p_data\<close> to the end of the buffer it is in, at least \<open>len\<close> of them. The
  list of capability records is an argument. A parsed request is the list of the array elements written so far;
  the array has \<open>ASCS_AES_CHAR_MAX_NUM\<close> elements and writing past it is \<^const>\<open>None\<close>. Both allocations of
  \<open>ase_check_cp_data\<close> ask \<^const>\<open>mem_ok\<close>.
\<close>

abbreviation ASE_CP_OP_NONE :: u8 where "ASE_CP_OP_NONE \<equiv> 0x00"
abbreviation ASE_CP_OP_CONFIG_CODEC :: u8 where "ASE_CP_OP_CONFIG_CODEC \<equiv> 0x01"
abbreviation ASE_CP_OP_CONFIG_QOS :: u8 where "ASE_CP_OP_CONFIG_QOS \<equiv> 0x02"
abbreviation ASE_CP_OP_ENABLE :: u8 where "ASE_CP_OP_ENABLE \<equiv> 0x03"
abbreviation ASE_CP_OP_REC_START_READY :: u8 where "ASE_CP_OP_REC_START_READY \<equiv> 0x04"
abbreviation ASE_CP_OP_DISABLE :: u8 where "ASE_CP_OP_DISABLE \<equiv> 0x05"
abbreviation ASE_CP_OP_REC_STOP_READY :: u8 where "ASE_CP_OP_REC_STOP_READY \<equiv> 0x06"
abbreviation ASE_CP_OP_UPDATE_METADATA :: u8 where "ASE_CP_OP_UPDATE_METADATA \<equiv> 0x07"
abbreviation ASE_CP_OP_RELEASE :: u8 where "ASE_CP_OP_RELEASE \<equiv> 0x08"

abbreviation ASE_CP_RESP_UNSUPPORTED_OPCODE :: u8 where "ASE_CP_RESP_UNSUPPORTED_OPCODE \<equiv> 0x01"
abbreviation ASE_CP_RESP_INVALID_LENGTH :: u8 where "ASE_CP_RESP_INVALID_LENGTH \<equiv> 0x02"
abbreviation ASE_CP_RESP_INVALID_ASE_ID :: u8 where "ASE_CP_RESP_INVALID_ASE_ID \<equiv> 0x03"
abbreviation ASE_CP_RESP_INVALID_ASE_SM_TRANSITION :: u8 where "ASE_CP_RESP_INVALID_ASE_SM_TRANSITION \<equiv> 0x04"
abbreviation ASE_CP_RESP_INVALID_ASE_DIRECTION :: u8 where "ASE_CP_RESP_INVALID_ASE_DIRECTION \<equiv> 0x05"
abbreviation ASE_CP_RESP_UNSUPPORTED_AUDIO_CAP :: u8 where "ASE_CP_RESP_UNSUPPORTED_AUDIO_CAP \<equiv> 0x06"
abbreviation ASE_CP_RESP_REJECTED_PARAM :: u8 where "ASE_CP_RESP_REJECTED_PARAM \<equiv> 0x08"
abbreviation ASE_CP_RESP_INVALID_PARAM :: u8 where "ASE_CP_RESP_INVALID_PARAM \<equiv> 0x09"
abbreviation ASE_CP_RESP_INSUFFICIENT_RESOURCE :: u8 where "ASE_CP_RESP_INSUFFICIENT_RESOURCE \<equiv> 0x0D"
abbreviation ASE_CP_RESP_UNSPECIFIED_ERROR :: u8 where "ASE_CP_RESP_UNSPECIFIED_ERROR \<equiv> 0x0E"

abbreviation ASE_CP_REASON_CODEC_ID :: u8 where "ASE_CP_REASON_CODEC_ID \<equiv> 0x01"
abbreviation ASE_CP_REASON_CODEC_CFG :: u8 where "ASE_CP_REASON_CODEC_CFG \<equiv> 0x02"
abbreviation ASE_CP_REASON_SDU_INTERVAL :: u8 where "ASE_CP_REASON_SDU_INTERVAL \<equiv> 0x03"
abbreviation ASE_CP_REASON_FRAMING :: u8 where "ASE_CP_REASON_FRAMING \<equiv> 0x04"
abbreviation ASE_CP_REASON_PHY :: u8 where "ASE_CP_REASON_PHY \<equiv> 0x05"
abbreviation ASE_CP_REASON_MAX_SDU_SIZE :: u8 where "ASE_CP_REASON_MAX_SDU_SIZE \<equiv> 0x06"
abbreviation ASE_CP_REASON_MAX_TRANSPORT_LATENCY :: u8 where "ASE_CP_REASON_MAX_TRANSPORT_LATENCY \<equiv> 0x08"
abbreviation ASE_CP_REASON_PRESENTATION_DELAY :: u8 where "ASE_CP_REASON_PRESENTATION_DELAY \<equiv> 0x09"
abbreviation ASE_CP_REASON_INVALID_ASE_CIS_MAPPING :: u8 where "ASE_CP_REASON_INVALID_ASE_CIS_MAPPING \<equiv> 0x0A"
abbreviation METADATA_TYPE_STREAMING_AUDIO_CONTEXTS :: u8 where "METADATA_TYPE_STREAMING_AUDIO_CONTEXTS \<equiv> 0x02"
abbreviation BLE_AUDIO_CB_RESULT_SUCCESS :: u16 where "BLE_AUDIO_CB_RESULT_SUCCESS \<equiv> 0"
abbreviation BLE_AUDIO_CB_RESULT_REJECT :: u16 where "BLE_AUDIO_CB_RESULT_REJECT \<equiv> 0x0D04"

section \<open>Published capabilities\<close>

record pac_record =
  pac_direction :: u8
  pac_data_len :: u8
  pac_data :: "u8 list option"

definition slice_of :: "u8 list \<Rightarrow> nat \<Rightarrow> nat \<Rightarrow> u8 list option" where
  "slice_of d i n = (if i + n \<le> length d then Some (take n (drop i d)) else None)"

text \<open>The loop of \<open>pac_find_record\<close>, \<open>k\<close> records to go; \<open>idx\<close> is a \<open>uint8_t\<close>.\<close>

fun pac_loop :: "u8 list \<Rightarrow> arr5 \<Rightarrow> codec_cfg \<Rightarrow> nat \<Rightarrow> nat \<Rightarrow> bool option" where
  "pac_loop d codec_id cfg 0 idx = Some False"
| "pac_loop d codec_id cfg (Suc k) idx = do {
     i \<leftarrow> slice_of d idx 5;
     let idx1 = (idx + 5) mod 256;
     cap_len \<leftarrow> arr_get d idx1;
     let idx2 = (idx1 + 1) mod 256;
     hit \<leftarrow> (if i = bytes5 codec_id then codec_cap_check cap_len (Some (drop idx2 d)) (Some cfg) else Some False);
     (if hit then Some True
      else do {
        let idx3 = (idx2 + unat cap_len) mod 256;
        metadata_len \<leftarrow> arr_get d idx3;
        pac_loop d codec_id cfg k (((idx3 + 1) mod 256 + unat metadata_len) mod 256)
      })
   }"

definition pac_find_record :: "u8 list option \<Rightarrow> u8 \<Rightarrow> arr5 \<Rightarrow> codec_cfg \<Rightarrow> bool option" where
  "pac_find_record data data_len codec_id cfg =
     (case data of None \<Rightarrow> Some False
      | Some d \<Rightarrow> (if data_len < 8 then Some False
          else do { n \<leftarrow> arr_get d 0; pac_loop d codec_id cfg (unat n) 1 }))"

fun pac_find_by_codec_data :: "u8 \<Rightarrow> arr5 \<Rightarrow> codec_cfg \<Rightarrow> pac_record list \<Rightarrow> pac_record option option" where
  "pac_find_by_codec_data direction codec_id cfg [] = Some None"
| "pac_find_by_codec_data direction codec_id cfg (r # rs) =
     (if pac_direction r = direction then do {
        hit \<leftarrow> pac_find_record (pac_data r) (pac_data_len r) codec_id cfg;
        (if hit then Some (Some r) else pac_find_by_codec_data direction codec_id cfg rs)
      } else pac_find_by_codec_data direction codec_id cfg rs)"

section \<open>Checking a request\<close>

text \<open>\<open>A && B || C\<close> is \<open>(A && B) || C\<close> in C.\<close>

definition ase_cp_check_sm_state :: "u8 \<Rightarrow> u8 \<Rightarrow> u8 \<Rightarrow> bool \<Rightarrow> bool" where
  "ase_cp_check_sm_state ase_state direction cp_op is_client =
     (if cp_op = ASE_CP_OP_CONFIG_CODEC then
        ase_state = ASE_STATE_IDLE \<or> ase_state = ASE_STATE_CODEC_CONFIGURED \<or> ase_state = ASE_STATE_QOS_CONFIGURED
      else if cp_op = ASE_CP_OP_CONFIG_QOS then
        is_client \<and> (ase_state = ASE_STATE_CODEC_CONFIGURED \<or> ase_state = ASE_STATE_QOS_CONFIGURED)
      else if cp_op = ASE_CP_OP_ENABLE then is_client \<and> ase_state = ASE_STATE_QOS_CONFIGURED
      else if cp_op = ASE_CP_OP_REC_START_READY then
        (ase_state = ASE_STATE_ENABLING \<and> (is_client \<and> direction = SERVER_AUDIO_SOURCE))
        \<or> (\<not> is_client \<and> direction = SERVER_AUDIO_SINK)
      else if cp_op = ASE_CP_OP_REC_STOP_READY then
        (ase_state = ASE_STATE_DISABLING \<and> (is_client \<and> direction = SERVER_AUDIO_SOURCE))
        \<or> (\<not> is_client \<and> direction = SERVER_AUDIO_SINK)
      else if cp_op = ASE_CP_OP_DISABLE \<or> cp_op = ASE_CP_OP_UPDATE_METADATA then
        ase_state = ASE_STATE_ENABLING \<or> ase_state = ASE_STATE_STREAMING
      else if cp_op = ASE_CP_OP_RELEASE then ase_state \<noteq> ASE_STATE_IDLE \<and> ase_state \<noteq> ASE_STATE_RELEASING
      else False)"

text \<open>
  The two loops of \<open>ase_cp_check_msg_len\<close> that walk over parameters with a length inside: \<open>skip\<close> bytes to the length
  byte, then the length byte and the bytes it counts; \<open>idx\<close> is a \<open>uint16_t\<close>.
\<close>

fun len_loop :: "u8 list \<Rightarrow> nat \<Rightarrow> nat \<Rightarrow> nat \<Rightarrow> nat option" where
  "len_loop d skip 0 idx = Some idx"
| "len_loop d skip (Suc k) idx = do {
     let idx1 = (idx + skip) mod 2 ^ 16;
     n \<leftarrow> arr_get d idx1;
     len_loop d skip k (((idx1 + 1) mod 2 ^ 16 + unat n) mod 2 ^ 16)
   }"

definition ase_cp_check_msg_len :: "u8 \<Rightarrow> u8 list \<Rightarrow> u16 \<Rightarrow> bool option" where
  "ase_cp_check_msg_len cp_op d len =
     (if len < 3 then Some False
      else do {
        ase_num \<leftarrow> arr_get d 1;
        (if cp_op = ASE_CP_OP_CONFIG_CODEC then do { idx \<leftarrow> len_loop d 8 (unat ase_num) 2; Some (idx = unat len) }
         else if cp_op = ASE_CP_OP_CONFIG_QOS then Some (unat len = 2 + unat ase_num * 16)
         else if cp_op = ASE_CP_OP_REC_START_READY \<or> cp_op = ASE_CP_OP_REC_STOP_READY \<or>
                 cp_op = ASE_CP_OP_RELEASE \<or> cp_op = ASE_CP_OP_DISABLE then Some (unat len = 2 + unat ase_num)
         else if cp_op = ASE_CP_OP_ENABLE \<or> cp_op = ASE_CP_OP_UPDATE_METADATA then
           do { idx \<leftarrow> len_loop d 1 (unat ase_num) 2; Some (idx = unat len) }
         else Some False)
      })"

text \<open>
  The response code and the reason are written through pointers: they go in with the content of the response array
  and come out. The result is whether the parameter is accepted.
\<close>

definition ase_check_cfg_codec_param ::
    "pac_record list \<Rightarrow> ase_entry option \<Rightarrow> cp_codec_cfg option \<Rightarrow> u8 list \<Rightarrow> u8 \<Rightarrow> codec_cfg \<Rightarrow>
     (bool \<times> u8 \<times> u8 \<times> codec_cfg) option" where
  "ase_check_cfg_codec_param pacs p_entry p_codec_cfg dat old_reason parsed =
     (case (p_entry, p_codec_cfg) of
        (Some e, Some c) \<Rightarrow>
          (if p_target_latency c > 3 then
             Some (False, ASE_CP_RESP_INVALID_PARAM, ASE_CP_REASON_MAX_TRANSPORT_LATENCY, parsed)
           else if p_target_phy c > 3 then Some (False, ASE_CP_RESP_INVALID_PARAM, ASE_CP_REASON_PHY, parsed)
           else if fst (p_codec_id c) \<noteq> LC3_CODEC_ID \<and> fst (p_codec_id c) \<noteq> VENDOR_CODEC_ID then
             Some (False, ASE_CP_RESP_INVALID_PARAM, ASE_CP_REASON_CODEC_ID, parsed)
           else if fst (p_codec_id c) = LC3_CODEC_ID \<and> p_codec_id c \<noteq> (LC3_CODEC_ID, 0, 0, 0, 0) then
             Some (False, ASE_CP_RESP_INVALID_PARAM, ASE_CP_REASON_CODEC_ID, parsed)
           else do {
             (ok, out) \<leftarrow> codec_cfg_parse (p_codec_spec_cfg_len c) (Some dat) (Some parsed);
             cfg \<leftarrow> out;
             (if \<not> ok then Some (False, ASE_CP_RESP_INVALID_PARAM, ASE_CP_REASON_CODEC_CFG, cfg)
              else if fst (p_codec_id c) = LC3_CODEC_ID then do {
                r \<leftarrow> pac_find_by_codec_data (e_direction e) (p_codec_id c) cfg pacs;
                Some (if r = None then (False, ASE_CP_RESP_UNSUPPORTED_AUDIO_CAP, ASE_CP_REASON_CODEC_CFG, cfg)
                      else (True, 0, 0, cfg))
              }
              else Some (True, 0, 0, cfg))
           })
      | _ \<Rightarrow> Some (False, ASE_CP_RESP_INVALID_PARAM, old_reason, parsed))"

definition ase_check_cfg_qos_param ::
    "ase_entry option \<Rightarrow> qos_state_data option \<Rightarrow> u8 \<Rightarrow> bool \<times> u8 \<times> u8" where
  "ase_check_cfg_qos_param p_entry p_qos_cfg old_reason =
     (case (p_entry, p_qos_cfg) of
        (Some e, Some q) \<Rightarrow>
          (let sdu_interval = array_to_uint24 (s_sdu_interval q);
               max_sdu_size = array_to_uint16 (s_max_sdu q);
               transport_latency = array_to_uint16 (s_max_transport_latency q);
               presentation_delay = array_to_uint24 (s_presentation_delay q);
               presentation_delay_min = array_to_uint24 (c_presentation_delay_min (e_codec_state_data e));
               presentation_delay_max = array_to_uint24 (c_presentation_delay_max (e_codec_state_data e));
               lc3 = fst (c_codec_id (e_codec_state_data e)) = LC3_CODEC_ID
           in if sdu_interval < 0x0000FF \<or> sdu_interval > 0xFFFFFF then
                (False, ASE_CP_RESP_INVALID_PARAM, ASE_CP_REASON_SDU_INTERVAL)
              else if max_sdu_size > 0x0FFF then (False, ASE_CP_RESP_INVALID_PARAM, ASE_CP_REASON_MAX_SDU_SIZE)
              else if (transport_latency < 0x0005 \<or> transport_latency > 0x0FA0) \<and>
                      (lc3 \<or> (\<not> lc3 \<and> transport_latency > 0x0FA0)) then
                (False, ASE_CP_RESP_INVALID_PARAM, ASE_CP_REASON_MAX_TRANSPORT_LATENCY)
              else if presentation_delay < presentation_delay_min \<or> presentation_delay > presentation_delay_max then
                (False, ASE_CP_RESP_REJECTED_PARAM, ASE_CP_REASON_PRESENTATION_DELAY)
              else if s_phy q OR 0x07 \<noteq> 0x07 then (False, ASE_CP_RESP_INVALID_PARAM, ASE_CP_REASON_PHY)
              else if s_framing q > 0x01 then (False, ASE_CP_RESP_INVALID_PARAM, ASE_CP_REASON_FRAMING)
              else if c_supported_framing (e_codec_state_data e) = 0x01 \<and> s_framing q = 0x00 then
                (False, ASE_CP_RESP_REJECTED_PARAM, ASE_CP_REASON_FRAMING)
              else (True, 0, 0))
      | _ \<Rightarrow> (False, ASE_CP_RESP_INVALID_PARAM, old_reason))"

section \<open>Parsing a request\<close>

datatype cp_param =
  Cp_codec cp_codec_cfg "u8 list" codec_cfg
| Cp_qos u8 qos_state_data
| Cp_metadata u8 u8 "u8 list"
| Cp_id u8

fun cp_param_id :: "cp_param \<Rightarrow> u8" where
  "cp_param_id (Cp_codec c d g) = p_ase_id c"
| "cp_param_id (Cp_qos i q) = i"
| "cp_param_id (Cp_metadata i n d) = i"
| "cp_param_id (Cp_id i) = i"

record ascs_ase_cp =
  cp_op :: u8
  cp_number_of_ase :: u8
  cp_params :: "cp_param list"

text \<open>\<open>T_ASE_CP_NOTIFY_ARRAY_PARAM\<close>: identifier, response code, reason\<close>

type_synonym cp_resp = "u8 \<times> u8 \<times> u8"

fun resp_bytes :: "cp_resp \<Rightarrow> u8 list" where "resp_bytes (i, c, r) = [i, c, r]"

definition codec_cfg_of_bytes :: "u8 list \<Rightarrow> cp_codec_cfg" where
  "codec_cfg_of_bytes b = \<lparr>p_ase_id = b ! 0, p_target_latency = b ! 1, p_target_phy = b ! 2,
     p_codec_id = (b ! 3, b ! 4, b ! 5, b ! 6, b ! 7), p_codec_spec_cfg_len = b ! 8\<rparr>"

definition max_ase :: nat where "max_ase = 7"

text \<open>\<open>ascs_send_ase_cp_notify\<close>, on the attribute of the control point\<close>

definition ascs_send_ase_cp_notify :: "u16 \<Rightarrow> u8 list \<Rightarrow> st \<Rightarrow> st" where
  "ascs_send_ase_cp_notify conn_handle d s = emit (Ev_data conn_handle 2 d) s"

text \<open>
  The body of the loop of \<open>ase_check_cp_data\<close> for the parameter at \<open>idx\<close>: \<open>Inl\<close> is the response with which it jumps to
  \<open>failed2\<close>, \<open>Inr\<close> the index after the parameter and the parameter.
\<close>

definition cp_metadata_item ::
    "env \<Rightarrow> u16 \<Rightarrow> u8 \<Rightarrow> u8 list \<Rightarrow> nat \<Rightarrow> nat \<Rightarrow> ase_entry \<Rightarrow> st \<Rightarrow> ((cp_resp + nat \<times> cp_param) \<times> st) option" where
  "cp_metadata_item en conn op d ase_idx idx e s = do {
     ase_id \<leftarrow> arr_get d idx;
     let idx1 = (idx + 1) mod 2 ^ 16;
     metadata_len \<leftarrow> arr_get d idx1;
     let idx2 = (idx1 + 1) mod 2 ^ 16;
     let store = (\<lambda>i. if ase_idx < max_ase then Some (Inr (i, Cp_metadata ase_id metadata_len (drop idx2 d))) else None);
     let idx3 = (idx2 + unat metadata_len) mod 2 ^ 16;
     (if metadata_len = 0 then map_option (\<lambda>r. (r, s)) (store idx3)
      else do {
        (ok, out) \<leftarrow> metadata_check_format (ucast metadata_len) (Some (drop idx2 d))
                       (Some \<lparr>resp_code = 0, reason = 0, audio_contexts = 0xFFFF\<rparr>);
        o1 \<leftarrow> out;
        (if \<not> ok then Some (Inl (ase_id, resp_code o1, reason o1), s)
         else if audio_contexts o1 \<noteq> 0xFFFF then
           (let s1 = emit (Ev_msg (Msg_audio_contexts_check conn (op \<noteq> ASE_CP_OP_ENABLE) ase_id (e_direction e)
                       (audio_contexts o1))) s
            in if app_result en (evlog s1) = BLE_AUDIO_CB_RESULT_REJECT
               then Some (Inl (ase_id, ASE_CP_RESP_REJECTED_METADATA, METADATA_TYPE_STREAMING_AUDIO_CONTEXTS), s1)
               else map_option (\<lambda>r. (r, s1)) (store idx3))
         else map_option (\<lambda>r. (r, s)) (store idx3))
      })
   }"

text \<open>The element of the array is first written by the parser of the codec configuration, then by the copy.\<close>

definition cp_codec_item ::
    "pac_record list \<Rightarrow> u8 list \<Rightarrow> nat \<Rightarrow> nat \<Rightarrow> ase_entry \<Rightarrow> (cp_resp + nat \<times> cp_param) option" where
  "cp_codec_item pacs d ase_idx idx e = do {
     b \<leftarrow> slice_of d idx 9;
     let c = codec_cfg_of_bytes b;
     let idx1 = (idx + 9) mod 2 ^ 16;
     (ok, code, why, cfg) \<leftarrow> ase_check_cfg_codec_param pacs (Some e) (Some c) (drop idx1 d) 0 zero_cfg;
     (if \<not> ase_idx < max_ase \<and> (ok \<or> (why = ASE_CP_REASON_CODEC_CFG \<and> p_codec_spec_cfg_len c \<noteq> 0)) then None
      else Some (if \<not> ok then Inl (p_ase_id c, code, why)
           else Inr ((idx1 + unat (p_codec_spec_cfg_len c)) mod 2 ^ 16, Cp_codec c (drop idx1 d) cfg)))
   }"

definition cp_qos_item ::
    "u16 \<Rightarrow> u8 list \<Rightarrow> nat \<Rightarrow> nat \<Rightarrow> ase_ptr \<Rightarrow> ase_entry \<Rightarrow> st \<Rightarrow> (cp_resp + nat \<times> cp_param) option" where
  "cp_qos_item conn d ase_idx idx p e s = do {
     b \<leftarrow> slice_of d idx 16;
     let q = qos_state_of (tl b);
     let (ok, code, why) = ase_check_cfg_qos_param (Some e) (Some q) 0;
     (if \<not> ok then Some (Inl (hd b, code, why))
      else if \<not> ase_idx < max_ase then None
      else do {
        other \<leftarrow> ase_find_by_cig_cis conn (e_direction e) (s_cig_id q) (s_cis_id q) s;
        Some (if other \<noteq> None \<and> other \<noteq> Some p
              then Inl (hd b, ASE_CP_RESP_INVALID_PARAM, ASE_CP_REASON_INVALID_ASE_CIS_MAPPING)
              else Inr ((idx + 16) mod 2 ^ 16, Cp_qos (hd b) q))
      })
   }"

definition cp_item ::
    "env \<Rightarrow> pac_record list \<Rightarrow> u16 \<Rightarrow> u8 \<Rightarrow> u8 list \<Rightarrow> nat \<Rightarrow> nat \<Rightarrow> st \<Rightarrow>
     ((cp_resp + nat \<times> cp_param) \<times> st) option" where
  "cp_item en pacs conn op d ase_idx idx s = do {
     ase_id \<leftarrow> arr_get d idx;
     q \<leftarrow> ase_find_by_ase_id conn ase_id s;
     (case q of
        None \<Rightarrow> Some (Inl (ase_id, ASE_CP_RESP_INVALID_ASE_ID, 0), s)
      | Some p \<Rightarrow> do {
          e \<leftarrow> get_ase s p;
          (if (op = ASE_CP_OP_REC_START_READY \<or> op = ASE_CP_OP_REC_STOP_READY) \<and> e_direction e = SERVER_AUDIO_SINK
           then Some (Inl (ase_id, ASE_CP_RESP_INVALID_ASE_DIRECTION, 0), s)
           else if \<not> ase_cp_check_sm_state (e_ase_state e) (e_direction e) op True
           then Some (Inl (ase_id, ASE_CP_RESP_INVALID_ASE_SM_TRANSITION, 0), s)
           else if op = ASE_CP_OP_CONFIG_CODEC then map_option (\<lambda>r. (r, s)) (cp_codec_item pacs d ase_idx idx e)
           else if op = ASE_CP_OP_CONFIG_QOS then map_option (\<lambda>r. (r, s)) (cp_qos_item conn d ase_idx idx p e s)
           else if op = ASE_CP_OP_ENABLE \<or> op = ASE_CP_OP_UPDATE_METADATA then cp_metadata_item en conn op d ase_idx idx e s
           else if \<not> ase_idx < max_ase then None
           else Some (Inr ((idx + 1) mod 2 ^ 16, Cp_id ase_id), s))
        })
   }"

text \<open>The response array has \<open>ase_num\<close> elements.\<close>

partial_function (option) cp_loop ::
    "env \<Rightarrow> pac_record list \<Rightarrow> u16 \<Rightarrow> u8 \<Rightarrow> u8 list \<Rightarrow> nat \<Rightarrow> nat \<Rightarrow> nat \<Rightarrow> cp_param list \<Rightarrow> st \<Rightarrow>
     ((cp_resp + nat \<times> cp_param) option \<times> cp_param list \<times> st) option" where
  "cp_loop en pacs conn op d len ase_num idx params s =
     (if idx < len then
        (if \<not> length params < ase_num then None
         else do {
           x \<leftarrow> cp_item en pacs conn op d (length params) idx s;
           (case fst x of
              Inl r \<Rightarrow> Some (Some (Inl r), params, snd x)
            | Inr y \<Rightarrow> cp_loop en pacs conn op d len ase_num (fst y) (params @ [snd y]) (snd x))
         })
      else Some (None, params, s))"

text \<open>The message to the application; the two receiver operations are not reported.\<close>

definition cp_indication :: "env \<Rightarrow> u16 \<Rightarrow> u8 \<Rightarrow> cp_param list \<Rightarrow> st \<Rightarrow> u16 \<times> st" where
  "cp_indication en conn op params s =
     (if op = ASE_CP_OP_REC_START_READY \<or> op = ASE_CP_OP_REC_STOP_READY then (BLE_AUDIO_CB_RESULT_SUCCESS, s)
      else let s1 = emit (Ev_msg (Msg_cp_ind conn op (map cp_param_id params))) s in (app_result en (evlog s1), s1))"

definition cp_response :: "u8 \<Rightarrow> u8 \<Rightarrow> cp_resp list \<Rightarrow> u8 list" where
  "cp_response op n rs = [op, n] @ concat (map resp_bytes rs)"

text \<open>
  The result is the request to carry out, or \<^const>\<open>None\<close> for \<open>NULL\<close>. A response of fewer elements than \<open>ase_num\<close> is
  filled up with the zeros of the allocation.
\<close>

definition ase_check_cp_data ::
    "env \<Rightarrow> pac_record list \<Rightarrow> u16 \<Rightarrow> u8 list \<Rightarrow> u16 \<Rightarrow> st \<Rightarrow> (ascs_ase_cp option \<times> st) option" where
  "ase_check_cp_data en pacs conn d len s = do {
     op \<leftarrow> arr_get d 0;
     let failed1 = (\<lambda>code. Some (None, ascs_send_ase_cp_notify conn (cp_response op 0xFF [(0, code, 0)]) s));
     (if op > ASE_CP_OP_RELEASE \<or> op = ASE_CP_OP_NONE then failed1 ASE_CP_RESP_UNSUPPORTED_OPCODE
      else do {
        len_ok \<leftarrow> ase_cp_check_msg_len op d len;
        (if \<not> len_ok then failed1 ASE_CP_RESP_INVALID_LENGTH
         else do {
           ase_num \<leftarrow> arr_get d 1;
           (if ase_num = 0 \<and> len \<noteq> 2 then failed1 ASE_CP_RESP_INVALID_LENGTH
            else let s1 = emit (Ev_alloc (2 + 3 * unat ase_num)) s
            in if \<not> mem_ok en (evlog s1) then Some (None, s1)
            else let s2 = emit (Ev_alloc 0) s1
            in if \<not> mem_ok en (evlog s2) then Some (None, s2)
            else do {
              (failed, params, s3) \<leftarrow> cp_loop en pacs conn op d (unat len) (unat ase_num) 2 [] s2;
              let done = map (\<lambda>p. (cp_param_id p, 0, 0)) params;
              (case failed of
                 Some (Inl r) \<Rightarrow>
                   Some (None, ascs_send_ase_cp_notify conn
                     (cp_response op (of_nat (length params + 1)) (done @ [r])) s3)
               | _ \<Rightarrow>
                   (let (cb_result, s4) = cp_indication en conn op params s3;
                        code = (if cb_result \<noteq> BLE_AUDIO_CB_RESULT_SUCCESS \<and>
                                   (cb_result = ucast ASE_CP_RESP_INSUFFICIENT_RESOURCE \<or>
                                    cb_result = ucast ASE_CP_RESP_UNSPECIFIED_ERROR) then ucast cb_result else 0);
                        rs = map (\<lambda>p. (cp_param_id p, code, 0)) params @ replicate (unat ase_num - length params) (0, 0, 0);
                        s5 = ascs_send_ase_cp_notify conn (cp_response op ase_num rs) s4
                    in Some (if cb_result = BLE_AUDIO_CB_RESULT_SUCCESS
                             then Some \<lparr>cp_op = op, cp_number_of_ase = ase_num, cp_params = params\<rparr> else None, s5)))
            })
         })
      })
   }"

section \<open>What an accepted request says\<close>

text \<open>The bytes a parameter takes at \<open>i\<close>, and the index after \<open>k\<close> parameters.\<close>

definition cp_width :: "u8 \<Rightarrow> u8 list \<Rightarrow> nat \<Rightarrow> nat" where
  "cp_width op d i =
     (if op = ASE_CP_OP_CONFIG_CODEC then 9 + unat (d ! (i + 8))
      else if op = ASE_CP_OP_CONFIG_QOS then 16
      else if op = ASE_CP_OP_ENABLE \<or> op = ASE_CP_OP_UPDATE_METADATA then 2 + unat (d ! (i + 1))
      else 1)"

fun cp_pos :: "u8 \<Rightarrow> u8 list \<Rightarrow> nat \<Rightarrow> nat \<Rightarrow> nat" where
  "cp_pos op d i 0 = i"
| "cp_pos op d i (Suc k) = cp_pos op d (i + cp_width op d i) k"

lemma cp_width_pos: "0 < cp_width op d i"
  by (simp add: cp_width_def)

lemma cp_pos_ge: "i + k \<le> cp_pos op d i k"
proof (induction k arbitrary: i)
  case (Suc k)
  show ?case using Suc [of "i + cp_width op d i"] cp_width_pos [of op d i] by simp
qed simp

lemma cp_pos_add: "cp_pos op d i (a + b) = cp_pos op d (cp_pos op d i a) b"
  by (induction a arbitrary: i) simp_all

text \<open>No request is so long that the index wraps.\<close>

abbreviation max_request :: nat where "max_request \<equiv> 65000"

lemma len_loop_pos:
  assumes "len_loop d skip k i = Some j" "length d \<le> max_request" "i \<le> 65256" "skip \<le> 8"
    "\<And>i. i + skip < length d \<Longrightarrow> cp_width op d i = skip + 1 + unat (d ! (i + skip))"
  shows "cp_pos op d i k = j"
  using assms(1,3)
proof (induction k arbitrary: i)
  case (Suc k)
  have n: "unat (d ! x) < 256" for x using unsigned_less [of "d ! x"] by simp
  have m: "(i + skip) mod 2 ^ 16 = i + skip" using Suc.prems assms(4) by simp
  then have lt: "i + skip < length d" using Suc.prems(1) by (auto simp: Let_def elim!: bind_SomeE dest: arr_get_SomeD)
  have w: "((i + skip + 1) mod 2 ^ 16 + unat (d ! (i + skip))) mod 2 ^ 16 = i + cp_width op d i"
    using lt assms(2,4) n [of "i + skip"] assms(5) [OF lt] by simp
  have "len_loop d skip k (i + cp_width op d i) = Some j"
    using Suc.prems(1) lt w m by (simp add: Let_def arr_simps)
  moreover have "i + cp_width op d i \<le> 65256"
    using lt assms(2) n [of "i + skip"] assms(5) [OF lt] by simp
  ultimately show ?case using Suc.IH by simp
qed simp

lemma cp_pos_const: "(\<And>i. cp_width op d i = w) \<Longrightarrow> cp_pos op d i k = i + w * k"
  by (induction k arbitrary: i) simp_all

lemma msg_len_pos:
  assumes "ase_cp_check_msg_len op d len = Some True" "length d \<le> max_request"
  shows "3 \<le> len" "2 \<le> length d" "cp_pos op d 2 (unat (d ! 1)) = unat len"
proof -
  obtain n where len: "\<not> len < 3" and n: "arr_get d 1 = Some n"
    using assms(1) by (auto simp: ase_cp_check_msg_len_def elim!: bind_SomeE split: if_split_asm)
  then show "3 \<le> len" by (simp add: not_less)
  have d1: "1 < length d" "n = d ! 1" using arr_get_SomeD [OF n] by auto
  then show "2 \<le> length d" by simp
  let ?C = "op = ASE_CP_OP_CONFIG_CODEC"
  let ?Q = "op = ASE_CP_OP_CONFIG_QOS"
  let ?M = "op = ASE_CP_OP_ENABLE \<or> op = ASE_CP_OP_UPDATE_METADATA"
  consider (c) "?C" | (q) "?Q" | (m) "?M" | (i) "\<not> ?C" "\<not> ?Q" "\<not> ?M" by blast
  then show "cp_pos op d 2 (unat (d ! 1)) = unat len"
  proof cases
    case c
    then have "len_loop d 8 (unat n) 2 = Some (unat len)"
      using assms(1) len n by (auto simp: ase_cp_check_msg_len_def elim!: bind_SomeE)
    from len_loop_pos [OF this assms(2)] show ?thesis using c d1(2) by (simp add: cp_width_def)
  next
    case q
    then have "unat len = 2 + unat n * 16"
      using assms(1) len n by (auto simp: ase_cp_check_msg_len_def elim!: bind_SomeE)
    then show ?thesis using q d1(2) by (simp add: cp_pos_const [of _ _ 16] cp_width_def)
  next
    case m
    then have "len_loop d 1 (unat n) 2 = Some (unat len)"
      using assms(1) len n by (auto simp: ase_cp_check_msg_len_def elim!: bind_SomeE)
    from len_loop_pos [OF this assms(2)] show ?thesis using m d1(2) by (auto simp: cp_width_def)
  next
    case i
    then have "unat len = 2 + unat n"
      using assms(1) len n by (auto simp: ase_cp_check_msg_len_def elim!: bind_SomeE split: if_split_asm)
    then show ?thesis using i d1(2) by (simp add: cp_pos_const [of _ _ 1] cp_width_def)
  qed
qed

text \<open>The parameter that begins at \<open>i\<close>, and the endpoint it names.\<close>

fun cp_at :: "u8 \<Rightarrow> u8 list \<Rightarrow> nat \<Rightarrow> cp_param \<Rightarrow> bool" where
  "cp_at op d i (Cp_codec c b g) \<longleftrightarrow> op = ASE_CP_OP_CONFIG_CODEC \<and> i + 9 \<le> length d \<and>
     c = codec_cfg_of_bytes (take 9 (drop i d)) \<and> b = drop (i + 9) d \<and>
     p_target_latency c \<le> 3 \<and> p_target_phy c \<le> 3 \<and>
     codec_cfg_parse (p_codec_spec_cfg_len c) (Some b) (Some zero_cfg) = Some (True, Some g)"
| "cp_at op d i (Cp_qos a q) \<longleftrightarrow> op = ASE_CP_OP_CONFIG_QOS \<and> i + 16 \<le> length d \<and>
     a = d ! i \<and> q = qos_state_of (take 15 (drop (i + 1) d))"
| "cp_at op d i (Cp_metadata a n b) \<longleftrightarrow> (op = ASE_CP_OP_ENABLE \<or> op = ASE_CP_OP_UPDATE_METADATA) \<and>
     i + 1 < length d \<and> a = d ! i \<and> n = d ! (i + 1) \<and> b = drop (i + 2) d"
| "cp_at op d i (Cp_id a) \<longleftrightarrow> i < length d \<and> a = d ! i \<and>
     op \<in> {ASE_CP_OP_REC_START_READY, ASE_CP_OP_REC_STOP_READY, ASE_CP_OP_DISABLE, ASE_CP_OP_RELEASE}"

lemma cp_at_id: "cp_at op d i x \<Longrightarrow> cp_param_id x = d ! i"
  by (cases x) (auto simp: codec_cfg_of_bytes_def)

definition cp_allowed :: "u8 \<Rightarrow> ase_entry \<Rightarrow> bool" where
  "cp_allowed op e \<longleftrightarrow>
     (if op = ASE_CP_OP_CONFIG_CODEC then e_ase_state e \<in> {ASE_STATE_IDLE, ASE_STATE_CODEC_CONFIGURED, ASE_STATE_QOS_CONFIGURED}
      else if op = ASE_CP_OP_CONFIG_QOS then e_ase_state e \<in> {ASE_STATE_CODEC_CONFIGURED, ASE_STATE_QOS_CONFIGURED}
      else if op = ASE_CP_OP_ENABLE then e_ase_state e = ASE_STATE_QOS_CONFIGURED
      else if op = ASE_CP_OP_REC_START_READY then e_ase_state e = ASE_STATE_ENABLING \<and> e_direction e = SERVER_AUDIO_SOURCE
      else if op = ASE_CP_OP_REC_STOP_READY then e_ase_state e = ASE_STATE_DISABLING \<and> e_direction e = SERVER_AUDIO_SOURCE
      else if op = ASE_CP_OP_DISABLE \<or> op = ASE_CP_OP_UPDATE_METADATA then e_ase_state e \<in> {ASE_STATE_ENABLING, ASE_STATE_STREAMING}
      else op = ASE_CP_OP_RELEASE \<and> e_ase_state e \<notin> {ASE_STATE_IDLE, ASE_STATE_RELEASING})"

definition cp_target :: "u16 \<Rightarrow> u8 \<Rightarrow> st \<Rightarrow> u8 \<Rightarrow> bool" where
  "cp_target conn op s i \<longleftrightarrow>
     (\<exists>p e. ase_find_by_ase_id conn i s = Some (Some p) \<and> get_ase s p = Some e \<and> cp_allowed op e)"

lemma sm_state_allowed: "ase_cp_check_sm_state (e_ase_state e) (e_direction e) op True = cp_allowed op e"
  by (simp add: ase_cp_check_sm_state_def cp_allowed_def)

lemma slice_of_nth: "slice_of d i n = Some b \<Longrightarrow> i + n \<le> length d \<and> length b = n \<and> (\<forall>k < n. b ! k = d ! (i + k))"
  by (auto simp: slice_of_def split: if_split_asm)

lemma metadata_item_result:
  assumes "cp_metadata_item en conn op d k i e s = Some (r, s')" "length d \<le> max_request"
    "op = ASE_CP_OP_ENABLE \<or> op = ASE_CP_OP_UPDATE_METADATA"
  shows "same_db s s' \<and> (\<forall>j x. r = Inr (j, x) \<longrightarrow> k < max_ase \<and> j = i + cp_width op d i \<and> cp_at op d i x)"
proof -
  obtain a n where a: "arr_get d i = Some a" and n: "arr_get d ((i + 1) mod 2 ^ 16) = Some n"
    using assms(1) unfolding cp_metadata_item_def by (auto simp only: Let_def elim!: bind_SomeE)
  have i: "i < length d" "a = d ! i" using arr_get_SomeD [OF a] by auto
  have i1: "(i + 1) mod 2 ^ 16 = i + 1" using i assms(2) by simp
  have d1: "i + 1 < length d" "n = d ! (i + 1)" using arr_get_SomeD [OF n] i1 by auto
  have "unat n < 256" using unsigned_less [of n] by simp
  then have i2: "(i + 1 + 1) mod 2 ^ 16 = i + 2" "(i + 2 + unat n) mod 2 ^ 16 = i + 2 + unat n"
    using d1 assms(2) by simp_all
  let ?x = "Cp_metadata a n (drop (i + 2) d)"
  have w: "i + 2 + unat n = i + cp_width op d i" "cp_at op d i ?x"
    using assms(3) d1 i(2) by (auto simp: cp_width_def)
  define store where "store j = (if k < max_ase then Some (Inr (j, ?x) :: cp_resp + nat \<times> cp_param) else None)" for j
  have unf: "cp_metadata_item en conn op d k i e s =
      (if n = 0 then map_option (\<lambda>r. (r, s)) (store (i + 2 + unat n))
       else do {
         (ok, out) \<leftarrow> metadata_check_format (ucast n) (Some (drop (i + 2) d))
                        (Some \<lparr>resp_code = 0, reason = 0, audio_contexts = 0xFFFF\<rparr>);
         o1 \<leftarrow> out;
         (if \<not> ok then Some (Inl (a, resp_code o1, reason o1), s)
          else if audio_contexts o1 \<noteq> 0xFFFF then
            (let s1 = emit (Ev_msg (Msg_audio_contexts_check conn (op \<noteq> ASE_CP_OP_ENABLE) a (e_direction e)
                        (audio_contexts o1))) s
             in if app_result en (evlog s1) = BLE_AUDIO_CB_RESULT_REJECT
                then Some (Inl (a, ASE_CP_RESP_REJECTED_METADATA, METADATA_TYPE_STREAMING_AUDIO_CONTEXTS), s1)
                else map_option (\<lambda>r. (r, s1)) (store (i + 2 + unat n)))
          else map_option (\<lambda>r. (r, s)) (store (i + 2 + unat n)))
       })"
    unfolding cp_metadata_item_def a n [unfolded i1] i1 i2 store_def Option.bind.bind_lunit Let_def ..
  have st: "store j = Some r \<Longrightarrow> r = Inr (j, ?x) \<and> k < max_ase" for j r
    by (auto simp: store_def split: if_split_asm)
  show ?thesis
    using assms(1) w unfolding unf
    by (auto simp: Let_def elim!: bind_SomeE split: if_split_asm prod.split_asm dest!: st)
qed

lemma codec_param_ok:
  assumes "ase_check_cfg_codec_param pacs (Some e) (Some c) dat r0 g0 = Some (True, x)"
  shows "p_target_latency c \<le> 3 \<and> p_target_phy c \<le> 3 \<and>
    (\<exists>g. x = (0, 0, g) \<and> codec_cfg_parse (p_codec_spec_cfg_len c) (Some dat) (Some g0) = Some (True, Some g))"
  using assms
  by (auto simp: ase_check_cfg_codec_param_def not_less elim!: bind_SomeE split: if_split_asm prod.split_asm)

lemma codec_item_result:
  assumes "cp_codec_item pacs d k i e = Some (Inr (j, x))" "length d \<le> max_request" "op = ASE_CP_OP_CONFIG_CODEC"
  shows "k < max_ase \<and> j = i + cp_width op d i \<and> cp_at op d i x"
proof -
  obtain b where b: "slice_of d i 9 = Some b"
    using assms(1) by (auto simp: cp_codec_item_def elim!: bind_SomeE)
  have bt: "b = take 9 (drop i d)" and i: "i + 9 \<le> length d" using b by (auto simp: slice_of_def split: if_split_asm)
  have i9: "(i + 9) mod 2 ^ 16 = i + 9" using i assms(2) by simp
  have len: "p_codec_spec_cfg_len (codec_cfg_of_bytes b) = d ! (i + 8)" using i by (simp add: codec_cfg_of_bytes_def bt)
  have "unat (d ! (i + 8)) < 256" using unsigned_less [of "d ! (i + 8)"] by simp
  then have j: "(i + 9 + unat (d ! (i + 8))) mod 2 ^ 16 = i + cp_width op d i"
    using i assms(2,3) by (simp add: cp_width_def)
  obtain code why g where
    c: "ase_check_cfg_codec_param pacs (Some e) (Some (codec_cfg_of_bytes b)) (drop (i + 9) d) 0 zero_cfg = Some (True, code, why, g)"
    and r: "k < max_ase" "j = i + cp_width op d i" "x = Cp_codec (codec_cfg_of_bytes b) (drop (i + 9) d) g"
    using assms(1) b unfolding cp_codec_item_def
    by (auto simp: Let_def i9 [simplified] len j [simplified] elim!: bind_SomeE split: if_split_asm)
  show ?thesis using r codec_param_ok [OF c] i assms(3) by (simp add: bt)
qed

lemma qos_item_result:
  assumes "cp_qos_item conn d k i p e s = Some (Inr (j, x))" "length d \<le> max_request" "op = ASE_CP_OP_CONFIG_QOS"
  shows "k < max_ase \<and> j = i + cp_width op d i \<and> cp_at op d i x"
proof -
  obtain b where b: "slice_of d i 16 = Some b"
    using assms(1) by (auto simp: cp_qos_item_def elim!: bind_SomeE)
  then have i: "i + 16 \<le> length d" "(i + 16) mod 2 ^ 16 = i + 16" and bt: "b = take 16 (drop i d)"
    using assms(2) by (auto simp: slice_of_def split: if_split_asm)
  have h: "hd b = d ! i" "tl b = take 15 (drop (i + 1) d)"
    using i(1) by (simp_all add: bt hd_drop_conv_nth tl_take tl_drop drop_Suc)
  obtain ok code why where c: "ase_check_cfg_qos_param (Some e) (Some (qos_state_of (tl b))) 0 = (ok, code, why)"
    by (metis prod_cases3)
  have "k < max_ase \<and> j = i + 16 \<and> x = Cp_qos (hd b) (qos_state_of (tl b))"
    using assms(1) unfolding cp_qos_item_def b Option.bind.bind_lunit Let_def c i(2)
    by (auto elim!: bind_SomeE split: if_split_asm)
  then show ?thesis using i(1) assms(3) h by (simp add: cp_width_def)
qed

lemma cp_item_result:
  assumes "cp_item en pacs conn op d k i s = Some (r, s')" "length d \<le> max_request"
    "op \<noteq> ASE_CP_OP_NONE" "op \<le> ASE_CP_OP_RELEASE"
  shows "same_db s s'"
    "r = Inr (j, x) \<Longrightarrow> k < max_ase \<and> i < length d \<and> j = i + cp_width op d i \<and> cp_at op d i x \<and> cp_target conn op s (d ! i)"
proof -
  obtain a q where a: "arr_get d i = Some a" and q: "ase_find_by_ase_id conn a s = Some q"
    using assms(1) by (auto simp: cp_item_def elim!: bind_SomeE)
  have i: "i < length d" "a = d ! i" using arr_get_SomeD [OF a] by auto
  note unf = cp_item_def a q Option.bind.bind_lunit Let_def
  have main: "same_db s s' \<and> (r = Inr (j, x) \<longrightarrow> k < max_ase \<and> j = i + cp_width op d i \<and> cp_at op d i x \<and> cp_target conn op s (d ! i))"
  proof (cases q)
    case None
    then show ?thesis using assms(1) by (auto simp: unf)
  next
    case (Some p)
    obtain e where e: "get_ase s p = Some e" using assms(1) Some by (auto simp: unf elim!: bind_SomeE)
    define body where "body =
      (if op = ASE_CP_OP_CONFIG_CODEC then map_option (\<lambda>r. (r, s)) (cp_codec_item pacs d k i e)
           else if op = ASE_CP_OP_CONFIG_QOS then map_option (\<lambda>r. (r, s)) (cp_qos_item conn d k i p e s)
           else if op = ASE_CP_OP_ENABLE \<or> op = ASE_CP_OP_UPDATE_METADATA then cp_metadata_item en conn op d k i e s
           else if \<not> k < max_ase then None
           else Some (Inr ((i + 1) mod 2 ^ 16, Cp_id a), s))"
    have "cp_item en pacs conn op d k i s =
        (if (op = ASE_CP_OP_REC_START_READY \<or> op = ASE_CP_OP_REC_STOP_READY) \<and> e_direction e = SERVER_AUDIO_SINK
         then Some (Inl (a, ASE_CP_RESP_INVALID_ASE_DIRECTION, 0), s)
         else if \<not> cp_allowed op e then Some (Inl (a, ASE_CP_RESP_INVALID_ASE_SM_TRANSITION, 0), s) else body)"
      unfolding unf Some option.case sm_state_allowed e body_def ..
    then consider (no) y where "r = Inl y" "s' = s" | (yes) "cp_allowed op e" "body = Some (r, s')"
      using assms(1) by (auto split: if_split_asm)
    then show ?thesis
    proof cases
      case no
      then show ?thesis by simp
    next
      case yes
      have t: "cp_target conn op s (d ! i)" using q Some e yes(1) i(2) by (auto simp: cp_target_def)
      have i1: "(i + 1) mod 2 ^ 16 = i + 1" using i assms(2) by simp
      have "unat op \<le> 8" "unat op \<noteq> 0" using assms(3,4) by (simp_all add: word_le_nat_alt unat_eq_0)
      then have "unat op \<in> {1, 2, 3, 4, 5, 6, 7, 8}" by auto
      then have ops: "op = 1 \<or> op = 2 \<or> op = 3 \<or> op = 7 \<or> op \<in> {4, 6, 5, 8}" by (auto simp: word_unat_eq_iff)
      from ops show ?thesis
      proof (elim disjE)
        assume op: "op = 1"
        then have "map_option (\<lambda>r. (r, s)) (cp_codec_item pacs d k i e) = Some (r, s')" using yes(2) by (auto simp: body_def)
        then show ?thesis using codec_item_result [of pacs d k i e j x, OF _ assms(2) op] t by auto
      next
        assume op: "op = 2"
        then have "map_option (\<lambda>r. (r, s)) (cp_qos_item conn d k i p e s) = Some (r, s')" using yes(2) by (auto simp: body_def)
        then show ?thesis using qos_item_result [of conn d k i p e s j x, OF _ assms(2) op] t by auto
      next
        assume op: "op = 3"
        then have "cp_metadata_item en conn op d k i e s = Some (r, s')" using yes(2) by (simp add: body_def)
        then show ?thesis using metadata_item_result [OF _ assms(2)] op t by blast
      next
        assume op: "op = 7"
        then have "cp_metadata_item en conn op d k i e s = Some (r, s')" using yes(2) by (simp add: body_def)
        then show ?thesis using metadata_item_result [OF _ assms(2)] op t by blast
      next
        assume op: "op \<in> {4, 6, 5, 8}"
        then have b: "(if \<not> k < max_ase then None else Some (Inr ((i + 1) mod 2 ^ 16, Cp_id a), s)) = Some (r, s')"
          and w: "cp_width op d i = 1"
          using yes(2) by (auto simp only: body_def cp_width_def) simp_all
        from b have "k < max_ase" by (cases "k < max_ase") simp_all
        with b i1 have "k < max_ase \<and> r = Inr (i + 1, Cp_id a) \<and> s' = s" by simp
        then show ?thesis using op t i by (auto simp: w)
      qed
    qed
  qed
  then show "same_db s s'" by simp
  show "k < max_ase \<and> i < length d \<and> j = i + cp_width op d i \<and> cp_at op d i x \<and> cp_target conn op s (d ! i)" if "r = Inr (j, x)"
    using main that i by simp
qed

lemma same_db_find: "same_db s s' \<Longrightarrow> ase_find P conn s' = ase_find P conn s"
  unfolding same_db_def ase_find_def link_table_def ble_audio_link_find_by_conn_handle_def ase_total_def by (elim conjE) presburger

lemma cp_allowed_db: "same_db s s' \<Longrightarrow> cp_target conn op s' i = cp_target conn op s i"
  by (simp add: cp_target_def same_db_find ase_find_by_ase_id_def same_db_get)

text \<open>The parameters from \<open>i\<close> on.\<close>

fun cp_list :: "u16 \<Rightarrow> u8 \<Rightarrow> u8 list \<Rightarrow> st \<Rightarrow> nat \<Rightarrow> cp_param list \<Rightarrow> bool" where
  "cp_list conn op d s i [] \<longleftrightarrow> True"
| "cp_list conn op d s i (x # xs) \<longleftrightarrow> cp_at op d i x \<and> cp_target conn op s (d ! i) \<and>
     cp_list conn op d s (i + cp_width op d i) xs"

lemma cp_list_db: "same_db s s' \<Longrightarrow> cp_list conn op d s' i xs = cp_list conn op d s i xs"
  by (induction xs arbitrary: i) (simp_all add: cp_allowed_db)

lemma cp_list_nth:
  "cp_list conn op d s i xs \<Longrightarrow> k < length xs \<Longrightarrow>
     cp_at op d (cp_pos op d i k) (xs ! k) \<and> cp_target conn op s (cp_param_id (xs ! k))"
proof (induction xs arbitrary: i k)
  case (Cons x xs)
  then show ?case by (cases k) (auto simp: cp_at_id)
qed simp

definition loop_result :: "u16 \<Rightarrow> u8 \<Rightarrow> u8 list \<Rightarrow> nat \<Rightarrow> nat \<Rightarrow> nat \<Rightarrow> cp_param list \<Rightarrow> st \<Rightarrow>
    (cp_resp + nat \<times> cp_param) option \<times> cp_param list \<times> st \<Rightarrow> bool" where
  "loop_result conn op d len n i params s y \<longleftrightarrow>
     same_db s (snd (snd y)) \<and> (\<forall>z. fst y \<noteq> Some (Inr z)) \<and>
     (\<exists>xs. fst (snd y) = params @ xs \<and> cp_list conn op d s i xs \<and>
        (xs \<noteq> [] \<longrightarrow> length (fst (snd y)) \<le> min n max_ase) \<and>
        (fst y = None \<longrightarrow> len \<le> cp_pos op d i (length xs)))"

lemma loop_result_step:
  assumes "loop_result conn op d len n (i + cp_width op d i) (params @ [x]) t y" "same_db s t"
    "length params < n" "length params < max_ase" "cp_at op d i x" "cp_target conn op s (d ! i)"
  shows "loop_result conn op d len n i params s y"
proof -
  obtain xs where xs: "fst (snd y) = (params @ [x]) @ xs" "cp_list conn op d t (i + cp_width op d i) xs"
      "xs \<noteq> [] \<longrightarrow> length (fst (snd y)) \<le> min n max_ase"
      "fst y = None \<longrightarrow> len \<le> cp_pos op d (i + cp_width op d i) (length xs)"
    using assms(1) unfolding loop_result_def by (elim conjE exE) (rule that)
  have "cp_list conn op d s i (x # xs)" using xs(2) assms(2,5,6) by (simp add: cp_list_db)
  moreover have "length (fst (snd y)) \<le> min n max_ase" using xs(1,3) assms(3,4) by (cases xs) auto
  moreover have "same_db s (snd (snd y))" "\<forall>z. fst y \<noteq> Some (Inr z)"
    using assms(1,2) by (auto simp: loop_result_def intro: same_db_trans)
  ultimately show ?thesis using xs unfolding loop_result_def by (intro conjI exI [of _ "x # xs"]) auto
qed

lemma cp_loop_result:
  assumes "cp_loop en pacs conn op d len n i params s = Some y"
  shows "length d \<le> max_request \<and> op \<noteq> ASE_CP_OP_NONE \<and> op \<le> ASE_CP_OP_RELEASE \<longrightarrow> loop_result conn op d len n i params s y"
proof (rule cp_loop.raw_induct [OF _ assms, where P = "\<lambda>en pacs conn op d len n i params s y.
    length d \<le> max_request \<and> op \<noteq> ASE_CP_OP_NONE \<and> op \<le> ASE_CP_OP_RELEASE \<longrightarrow> loop_result conn op d len n i params s y"],
    intro impI, elim conjE)
  fix loop en pacs conn and op :: u8 and d len n i params s y
  assume IH: "\<And>en pacs conn op d len n i params s y. loop en pacs conn op d len n i params s = Some y \<Longrightarrow>
      length d \<le> max_request \<and> op \<noteq> ASE_CP_OP_NONE \<and> op \<le> ASE_CP_OP_RELEASE \<longrightarrow> loop_result conn op d len n i params s y"
    and step: "(if i < len then
        (if \<not> length params < n then None
         else do {
           x \<leftarrow> cp_item en pacs conn op d (length params) i s;
           (case fst x of
              Inl r \<Rightarrow> Some (Some (Inl r), params, snd x)
            | Inr y \<Rightarrow> loop en pacs conn op d len n (fst y) (params @ [snd y]) (snd x))
         })
      else Some (None, params, s)) = Some y"
    and hyps: "length d \<le> max_request" "op \<noteq> ASE_CP_OP_NONE" "op \<le> ASE_CP_OP_RELEASE"
  show "loop_result conn op d len n i params s y"
  proof (cases "i < len")
    case False
    then show ?thesis using step by (auto simp: loop_result_def)
  next
    case True
    then have n: "length params < n" using step by (auto split: if_split_asm)
    then obtain z where z: "cp_item en pacs conn op d (length params) i s = Some z"
      and cz: "(case fst z of Inl r \<Rightarrow> Some (Some (Inl r), params, snd z)
            | Inr y \<Rightarrow> loop en pacs conn op d len n (fst y) (params @ [snd y]) (snd z)) = Some y"
      using step True by (auto elim!: bind_SomeE)
    obtain r t where rt: "z = (r, t)" by (cases z)
    have it: "cp_item en pacs conn op d (length params) i s = Some (r, t)"
      and c: "(case r of Inl r \<Rightarrow> Some (Some (Inl r), params, t)
            | Inr y \<Rightarrow> loop en pacs conn op d len n (fst y) (params @ [snd y]) t) = Some y"
      using z cz unfolding rt fst_conv snd_conv by - assumption+
    note res = cp_item_result [OF it hyps]
    show ?thesis
    proof (cases r)
      case (Inl z)
      then show ?thesis using c res(1) by (auto simp: loop_result_def)
    next
      case (Inr z)
      obtain j x where z: "z = (j, x)" by (cases z)
      have rx: "length params < max_ase" "j = i + cp_width op d i" "cp_at op d i x" "cp_target conn op s (d ! i)"
        using res(2) Inr z by auto
      have "loop_result conn op d len n (i + cp_width op d i) (params @ [x]) t y"
        using IH c Inr z hyps rx(2) by simp
      then show ?thesis by (rule loop_result_step [OF _ res(1) n rx(1,3,4)])
    qed
  qed
qed

section \<open>The control point\<close>

text \<open>Every answer is one notification; only when memory runs out there is none.\<close>

definition cp_answer :: "u16 \<Rightarrow> st \<Rightarrow> u8 list option" where
  "cp_answer conn s = (case rev (evlog s) of Ev_data c k v # _ \<Rightarrow> if c = conn \<and> k = 2 then Some v else None | _ \<Rightarrow> None)"

lemma cp_answer_send [simp]: "cp_answer conn (ascs_send_ase_cp_notify conn v s) = Some v"
  by (simp add: cp_answer_def ascs_send_ase_cp_notify_def)

lemma send_cp_db [simp]: "same_db s (ascs_send_ase_cp_notify conn v t) = same_db s t"
  by (simp add: ascs_send_ase_cp_notify_def)

lemma indication_db: "cp_indication en conn op params s = (c, t) \<Longrightarrow> same_db s t"
  by (auto simp: cp_indication_def Let_def split: if_split_asm)

text \<open>A parameter is refused with a code that is not the one of success.\<close>

lemma metadata_refused:
  assumes "metadata_check_format n p (Some out) = Some (False, Some out')"
  shows "resp_code out' \<noteq> 0"
proof -
  have item: "metadata_item p n ty i out = Some r \<Longrightarrow> \<not> fst r \<Longrightarrow> resp_code (snd r) \<noteq> 0" for p n ty i out r
    by (auto simp: metadata_item_def Let_def elim!: bind_SomeE split: if_split_asm)
  have "\<not> fst y \<longrightarrow> resp_code (snd y) \<noteq> 0" if "metadata_loop p n i out = Some y" for p n i out y
    using that
    by (rule metadata_loop.raw_induct [rotated, where P = "\<lambda>p n i out y. \<not> fst y \<longrightarrow> resp_code (snd y) \<noteq> 0"])
       (auto elim!: bind_SomeE split: if_split_asm dest: item)
  then show ?thesis using assms
    by (auto simp: metadata_check_format_def split: option.split_asm if_split_asm)
qed

lemma codec_param_refused:
  "ase_check_cfg_codec_param pacs (Some e) (Some c) dat r0 g0 = Some (False, code, x) \<Longrightarrow> code \<noteq> 0"
  by (auto simp: ase_check_cfg_codec_param_def elim!: bind_SomeE split: if_split_asm)

lemma qos_param_refused: "ase_check_cfg_qos_param (Some e) (Some q) r0 = (False, code, x) \<Longrightarrow> code \<noteq> 0"
  by (auto simp: ase_check_cfg_qos_param_def Let_def split: if_split_asm)

lemma codec_item_refused: "cp_codec_item pacs d k i e = Some (Inl (a, code, why)) \<Longrightarrow> code \<noteq> 0"
  by (auto simp: cp_codec_item_def Let_def elim!: bind_SomeE split: if_split_asm dest: codec_param_refused)

lemma qos_item_refused: "cp_qos_item conn d k i p e s = Some (Inl (a, code, why)) \<Longrightarrow> code \<noteq> 0"
  by (auto simp: cp_qos_item_def Let_def elim!: bind_SomeE split: if_split_asm prod.split_asm dest: qos_param_refused)

lemma metadata_item_refused: "cp_metadata_item en conn op d k i e s = Some (Inl (a, code, why), s') \<Longrightarrow> code \<noteq> 0"
  using metadata_refused
  by (fastforce simp: cp_metadata_item_def Let_def elim!: bind_SomeE split: if_split_asm option.split_asm)

lemma cp_item_refused:
  assumes "cp_item en pacs conn op d k i s = Some (Inl (a, code, why), s')"
  shows "code \<noteq> 0"
proof -
  obtain b q where b: "arr_get d i = Some b" and q: "ase_find_by_ase_id conn b s = Some q"
    using assms by (auto simp: cp_item_def elim!: bind_SomeE)
  note unf = cp_item_def b q Option.bind.bind_lunit
  show ?thesis
  proof (cases q)
    case None
    then show ?thesis using assms by (auto simp: unf)
  next
    case (Some p)
    then obtain e where e: "get_ase s p = Some e" using assms by (auto simp: unf elim!: bind_SomeE)
    show ?thesis
      using assms unfolding unf Some option.case e
      by (auto split: if_split_asm dest: codec_item_refused qos_item_refused metadata_item_refused)
  qed
qed

lemma cp_loop_refused:
  assumes "cp_loop en pacs conn op d len n i params s = Some (Some (Inl (a, code, why)), x)"
  shows "code \<noteq> 0"
proof -
  have "\<forall>a code why. fst y = Some (Inl (a, code, why)) \<longrightarrow> code \<noteq> 0"
    if "cp_loop en pacs conn op d len n i params s = Some y" for y
  proof (rule cp_loop.raw_induct [OF _ that, where P = "\<lambda>en pacs conn op d len n i params s y.
        \<forall>a code why. fst y = Some (Inl (a, code, why)) \<longrightarrow> code \<noteq> 0"], intro allI impI)
    fix loop en pacs conn op d len n i params s y a and code why :: u8
    assume IH: "\<And>en pacs conn op d len n i params s y. loop en pacs conn op d len n i params s = Some y \<Longrightarrow>
        \<forall>a code why. fst y = Some (Inl (a, code, why)) \<longrightarrow> code \<noteq> 0"
      and step: "(if i < len then
        (if \<not> length params < n then None
         else do {
           x \<leftarrow> cp_item en pacs conn op d (length params) i s;
           (case fst x of
              Inl r \<Rightarrow> Some (Some (Inl r), params, snd x)
            | Inr y \<Rightarrow> loop en pacs conn op d len n (fst y) (params @ [snd y]) (snd x))
         })
      else Some (None, params, s)) = Some y"
      and y: "fst y = Some (Inl (a, code, why))"
    have "i < len" using step y by (auto split: if_split_asm)
    then obtain z where z: "cp_item en pacs conn op d (length params) i s = Some z"
      "(case fst z of Inl r \<Rightarrow> Some (Some (Inl r), params, snd z)
            | Inr y \<Rightarrow> loop en pacs conn op d len n (fst y) (params @ [snd y]) (snd z)) = Some y"
      using step by (auto elim!: bind_SomeE split: if_split_asm)
    show "code \<noteq> 0"
    proof (cases "fst z")
      case (Inl r)
      then have "z = (Inl (a, code, why), snd z)" using z(2) y by (cases z) auto
      then show ?thesis using cp_item_refused z(1) by metis
    next
      case (Inr r)
      then show ?thesis using z(2) IH y by auto
    qed
  qed
  then show ?thesis using assms by fastforce
qed

text \<open>A request that passes every check of the server.\<close>

definition cp_valid :: "u16 \<Rightarrow> u8 list \<Rightarrow> u16 \<Rightarrow> st \<Rightarrow> cp_param list \<Rightarrow> bool" where
  "cp_valid conn d len s xs \<longleftrightarrow> d ! 0 \<noteq> ASE_CP_OP_NONE \<and> d ! 0 \<le> ASE_CP_OP_RELEASE \<and> 2 \<le> length d \<and> 3 \<le> len \<and>
     length xs = unat (d ! 1) \<and> 1 \<le> length xs \<and> length xs \<le> max_ase \<and>
     cp_pos (d ! 0) d 2 (length xs) = unat len \<and> cp_list conn (d ! 0) d s 2 xs"

lemma loop_count:
  fixes len :: u16 and n :: u8
  assumes "loop_result conn op d (unat len) (unat n) 2 [] s (None, xs, t)" "cp_pos op d 2 (unat n) = unat len" "3 \<le> len"
  shows "length xs = unat n \<and> 1 \<le> length xs \<and> length xs \<le> max_ase \<and> cp_list conn op d s 2 xs"
proof -
  have r: "cp_list conn op d s 2 xs" "xs \<noteq> [] \<Longrightarrow> length xs \<le> min (unat n) max_ase"
    "unat len \<le> cp_pos op d 2 (length xs)"
    using assms(1) by (auto simp: loop_result_def)
  have "3 \<le> unat len" using assms(3) by (simp add: word_le_nat_alt)
  then have ne: "xs \<noteq> []" using r(3) by auto
  have "\<not> length xs < unat n"
  proof
    assume lt: "length xs < unat n"
    then have "cp_pos op d 2 (unat n) = cp_pos op d (cp_pos op d 2 (length xs)) (unat n - length xs)"
      using cp_pos_add [of op d 2 "length xs" "unat n - length xs"] by simp
    then have "cp_pos op d 2 (length xs) < unat len"
      using cp_pos_ge [of "cp_pos op d 2 (length xs)" "unat n - length xs" op d] lt assms(2) by simp
    then show False using r(3) by simp
  qed
  then show ?thesis using r(1) r(2) [OF ne] ne by (cases xs) auto
qed

lemma check_cp_cases:
  assumes "ase_check_cp_data en pacs conn d len s = Some (r, s')" "length d \<le> max_request"
  obtains (format) code where "r = None" "code \<in> {ASE_CP_RESP_UNSUPPORTED_OPCODE, ASE_CP_RESP_INVALID_LENGTH}"
      "s' = ascs_send_ase_cp_notify conn (cp_response (d ! 0) 0xFF [(0, code, 0)]) s"
  | (memory) l where "r = None" "same_db s s'" "\<not> mem_ok en l"
  | (param) a code why xs t where "r = None" "code \<noteq> 0" "same_db s t" "cp_list conn (d ! 0) d s 2 xs"
      "s' = ascs_send_ase_cp_notify conn (cp_response (d ! 0) (of_nat (length xs + 1))
              (map (\<lambda>p. (cp_param_id p, 0, 0)) xs @ [(a, code, why)])) t"
  | (app) cb xs t where "r = None" "same_db s t" "cp_valid conn d len s xs" "cb \<noteq> BLE_AUDIO_CB_RESULT_SUCCESS"
      "s' = ascs_send_ase_cp_notify conn (cp_response (d ! 0) (d ! 1)
              (map (\<lambda>p. (cp_param_id p, if cb = 0x0D \<or> cb = 0x0E then ucast cb else 0, 0)) xs)) t"
  | (accept) xs t where "r = Some \<lparr>cp_op = d ! 0, cp_number_of_ase = d ! 1, cp_params = xs\<rparr>" "same_db s t"
      "cp_valid conn d len s xs"
      "s' = ascs_send_ase_cp_notify conn (cp_response (d ! 0) (d ! 1) (map (\<lambda>p. (cp_param_id p, 0, 0)) xs)) t"
proof -
  obtain op where op: "arr_get d 0 = Some op" using assms(1) by (auto simp: ase_check_cp_data_def elim!: bind_SomeE)
  then have op0: "op = d ! 0" by (auto dest: arr_get_SomeD)
  let ?bad = "\<lambda>code. ascs_send_ase_cp_notify conn (cp_response op 0xFF [(0, code, 0)]) s"
  note unf = ase_check_cp_data_def op Option.bind.bind_lunit
  show ?thesis
  proof (cases "op > ASE_CP_OP_RELEASE \<or> op = ASE_CP_OP_NONE")
    case True
    then have "r = None" "s' = ?bad ASE_CP_RESP_UNSUPPORTED_OPCODE" using assms(1) by (simp_all add: unf Let_def)
    then show ?thesis using format [of ASE_CP_RESP_UNSUPPORTED_OPCODE] op0 by simp
  next
    case False
    then have ops: "op \<noteq> ASE_CP_OP_NONE" "op \<le> ASE_CP_OP_RELEASE" by (auto simp: not_less)
    obtain ok where ml: "ase_cp_check_msg_len op d len = Some ok"
      using assms(1) False by (auto simp: unf Let_def elim!: bind_SomeE)
    show ?thesis
    proof (cases ok)
      case nok: False
      then have "r = None" "s' = ?bad ASE_CP_RESP_INVALID_LENGTH" using assms(1) False ml by (simp_all add: unf Let_def)
      then show ?thesis using format [of ASE_CP_RESP_INVALID_LENGTH] op0 by simp
    next
      case True
      then have ml': "ase_cp_check_msg_len op d len = Some True" using ml by simp
      note pos = msg_len_pos [OF ml' assms(2)]
      define n where "n = d ! 1"
      have n: "arr_get d 1 = Some n" using pos(2) by (simp add: arr_get_def n_def)
      have "n \<noteq> 0" using pos(1,3) by (auto simp: n_def word_le_nat_alt)
      then have nz: "(n = 0 \<and> len \<noteq> 2) = False" by simp
      define s1 where "s1 = emit (Ev_alloc (2 + 3 * unat n)) s"
      define s2 where "s2 = emit (Ev_alloc 0) s1"
      have db: "same_db s s1" "same_db s s2" by (simp_all add: s1_def s2_def)
      have rest: "(if \<not> mem_ok en (evlog s1) then Some (None, s1)
          else if \<not> mem_ok en (evlog s2) then Some (None, s2)
            else do {
              (failed, params, s3) \<leftarrow> cp_loop en pacs conn op d (unat len) (unat n) 2 [] s2;
              let done = map (\<lambda>p. (cp_param_id p, 0, 0)) params;
              (case failed of
                 Some (Inl r) \<Rightarrow>
                   Some (None, ascs_send_ase_cp_notify conn
                     (cp_response op (of_nat (length params + 1)) (done @ [r])) s3)
               | _ \<Rightarrow>
                   (let (cb_result, s4) = cp_indication en conn op params s3;
                        code = (if cb_result \<noteq> BLE_AUDIO_CB_RESULT_SUCCESS \<and>
                                   (cb_result = ucast ASE_CP_RESP_INSUFFICIENT_RESOURCE \<or>
                                    cb_result = ucast ASE_CP_RESP_UNSPECIFIED_ERROR) then ucast cb_result else 0);
                        rs = map (\<lambda>p. (cp_param_id p, code, 0)) params @ replicate (unat n - length params) (0, 0, 0);
                        s5 = ascs_send_ase_cp_notify conn (cp_response op n rs) s4
                    in Some (if cb_result = BLE_AUDIO_CB_RESULT_SUCCESS
                             then Some \<lparr>cp_op = op, cp_number_of_ase = n, cp_params = params\<rparr> else None, s5)))
            }) = Some (r, s')"
        using assms(1) False ml' n unfolding unf s2_def s1_def by (simp only: nz if_False Option.bind.bind_lunit Let_def simp_thms)
      show ?thesis
      proof (cases "mem_ok en (evlog s1) \<and> mem_ok en (evlog s2)")
        case False
        then have "r = None" "same_db s s'" using rest db by (auto split: if_split_asm)
        then show ?thesis using memory False by blast
      next
        case True
        obtain f xs s3 where lp: "cp_loop en pacs conn op d (unat len) (unat n) 2 [] s2 = Some (f, xs, s3)"
          using rest True by (auto elim!: bind_SomeE)
        note lr = cp_loop_result [OF lp, rule_format, OF conjI [OF assms(2) conjI [OF ops]]]
        have db3: "same_db s s3" using lr db(2) by (auto simp: loop_result_def intro: same_db_trans)
        have li: "cp_list conn op d s 2 xs" using lr db(2) by (auto simp: loop_result_def cp_list_db)
        show ?thesis
        proof (cases f)
          case (Some y)
          then obtain a code why where y: "y = Inl (a, code, why)"
            using lr by (cases y) (auto simp: loop_result_def)
          have "code \<noteq> 0" using cp_loop_refused lp Some y by metis
          moreover have "r = None" "s' = ascs_send_ase_cp_notify conn (cp_response op (of_nat (length xs + 1))
              (map (\<lambda>p. (cp_param_id p, 0, 0)) xs @ [(a, code, why)])) s3"
            using rest True lp Some y by (simp_all add: Let_def)
          ultimately show ?thesis using param db3 li op0 by blast
        next
          case None
          have v: "length xs = unat n \<and> 1 \<le> length xs \<and> length xs \<le> max_ase"
            using loop_count [OF lr [unfolded None]] pos n_def by simp
          then have valid: "cp_valid conn d len s xs"
            using ops op0 pos li n_def by (simp add: cp_valid_def)
          obtain cb s4 where ci: "cp_indication en conn op xs s3 = (cb, s4)" by force
          have db4: "same_db s s4" using indication_db [OF ci] db3 by (rule same_db_trans [rotated])
          let ?rs = "map (\<lambda>p. (cp_param_id p, if cb = 0x0D \<or> cb = 0x0E then ucast cb else 0, 0)) xs"
          have res: "r = (if cb = 0 then Some \<lparr>cp_op = op, cp_number_of_ase = n, cp_params = xs\<rparr> else None)"
            "s' = ascs_send_ase_cp_notify conn (cp_response op n ?rs) s4"
            using rest True lp None ci v by (auto simp: Let_def)
          show ?thesis
          proof (cases "cb = 0")
            case True
            then show ?thesis using accept res db4 valid op0 n_def by simp
          next
            case False
            then show ?thesis using app res db4 valid op0 n_def by simp
          qed
        qed
      qed
    qed
  qed
qed

text \<open>An operation whose parameters are bare identifiers stores the eighth one behind its array.\<close>

abbreviation id_ops :: "u8 set" where
  "id_ops \<equiv> {ASE_CP_OP_REC_START_READY, ASE_CP_OP_REC_STOP_READY, ASE_CP_OP_DISABLE, ASE_CP_OP_RELEASE}"

lemma cp_item_id:
  assumes "op \<in> id_ops" "i < length d" "i < 2 ^ 16 - 1" "cp_target conn op s (d ! i)"
  shows "cp_item en pacs conn op d k i s =
    (if k < max_ase then Some (Inr (i + 1, Cp_id (d ! i)), s) else None)"
proof -
  obtain p e where p: "ase_find_by_ase_id conn (d ! i) s = Some (Some p)" "get_ase s p = Some e" "cp_allowed op e"
    using assms(4) by (auto simp: cp_target_def)
  have "(i + 1) mod 2 ^ 16 = i + 1" using assms(3) by simp
  moreover have "\<not> ((op = ASE_CP_OP_REC_START_READY \<or> op = ASE_CP_OP_REC_STOP_READY) \<and> e_direction e = SERVER_AUDIO_SINK)"
    using p(3) by (auto simp: cp_allowed_def)
  moreover have "op \<noteq> ASE_CP_OP_CONFIG_CODEC" "op \<noteq> ASE_CP_OP_CONFIG_QOS" "op \<noteq> ASE_CP_OP_ENABLE" "op \<noteq> ASE_CP_OP_UPDATE_METADATA"
    using assms(1) by auto
  ultimately show ?thesis
    using assms(2) p by (simp add: cp_item_def arr_simps sm_state_allowed)
qed

lemma cp_loop_overrun:
  assumes "op \<in> id_ops" "len \<le> length d" "len < 2 ^ 16" "\<And>i. i0 \<le> i \<Longrightarrow> i < len \<Longrightarrow> cp_target conn op s (d ! i)"
    "length params \<le> max_ase" "i0 + (max_ase - length params) < len" "max_ase < n"
  shows "cp_loop en pacs conn op d len n i0 params s = None"
  using assms(4,5,6)
proof (induction "max_ase - length params" arbitrary: params i0)
  case 0
  then have "length params = max_ase" by simp
  then show ?case
    using 0 assms(1-3,7) cp_item_id [of op i0 d conn s en pacs "length params"] by (simp add: cp_loop.simps)
next
  case (Suc m)
  have it: "cp_item en pacs conn op d (length params) i0 s = Some (Inr (i0 + 1, Cp_id (d ! i0)), s)"
    using Suc.hyps(2) Suc.prems assms(1-3) cp_item_id [of op i0 d conn s en pacs "length params"] by auto
  have "cp_loop en pacs conn op d len n (i0 + 1) (params @ [Cp_id (d ! i0)]) s = None"
    by (rule Suc.hyps(1)) (use Suc.hyps(2) Suc.prems in auto)
  then show ?case
    using it Suc.hyps(2) Suc.prems assms(7) by (simp add: cp_loop.simps [of _ _ _ _ _ _ _ i0])
qed

section \<open>Properties of the control point\<close>

text \<open>C7: A request is passed on only when it is well-formed to its last byte, names one to seven existing endpoints, and
  each of them is in a state in which the operation is allowed; the endpoints are unchanged and the client is answered
  with success for each of them.\<close>

theorem cp_request_accepted:
  assumes "ase_check_cp_data en pacs conn d len s = Some (Some cp, s')" "length d \<le> max_request"
  shows "same_db s s' \<and> cp_op cp = d ! 0 \<and> length (cp_params cp) = unat (cp_number_of_ase cp) \<and>
    1 \<le> length (cp_params cp) \<and> length (cp_params cp) \<le> max_ase \<and>
    cp_pos (cp_op cp) d 2 (length (cp_params cp)) = unat len \<and>
    (\<forall>k < length (cp_params cp).
       cp_at (cp_op cp) d (cp_pos (cp_op cp) d 2 k) (cp_params cp ! k) \<and>
       cp_target conn (cp_op cp) s (cp_param_id (cp_params cp ! k))) \<and>
    cp_answer conn s' = Some (cp_response (cp_op cp) (cp_number_of_ase cp) (map (\<lambda>x. (cp_param_id x, 0, 0)) (cp_params cp)))"
  using assms(1)
proof (rule check_cp_cases [OF _ assms(2)], goal_cases)
  case (5 xs t)
  then show ?case using cp_list_nth [of conn "d ! 0" d s 2 xs] by (auto simp: cp_valid_def)
qed auto

text \<open>C8: With memory at hand, a request that is not passed on leaves every endpoint as it was and is answered once: with
  the code for an unknown operation or a wrong length, with the successes up to the first bad parameter and its code,
  or, when the application refuses, with its code if that is one of two and otherwise with success.\<close>

theorem cp_request_refused:
  assumes "ase_check_cp_data en pacs conn d len s = Some (None, s')" "length d \<le> max_request" "good_mem en"
  shows "same_db s s' \<and>
    ((\<exists>code \<in> {ASE_CP_RESP_UNSUPPORTED_OPCODE, ASE_CP_RESP_INVALID_LENGTH}.
        cp_answer conn s' = Some (cp_response (d ! 0) 0xFF [(0, code, 0)])) \<or>
     (\<exists>xs a code why. code \<noteq> 0 \<and> cp_list conn (d ! 0) d s 2 xs \<and>
        cp_answer conn s' = Some (cp_response (d ! 0) (of_nat (length xs + 1))
          (map (\<lambda>x. (cp_param_id x, 0, 0)) xs @ [(a, code, why)]))) \<or>
     (\<exists>xs cb. cp_valid conn d len s xs \<and> cb \<noteq> BLE_AUDIO_CB_RESULT_SUCCESS \<and>
        cp_answer conn s' = Some (cp_response (d ! 0) (d ! 1)
          (map (\<lambda>x. (cp_param_id x, if cb = 0x0D \<or> cb = 0x0E then ucast cb else 0, 0)) xs))))"
  using assms(1)
proof (rule check_cp_cases [OF _ assms(2)], goal_cases)
  case (1 code)
  then show ?case by auto
next
  case (2 l)
  then show ?case using assms(3) by (simp add: good_mem_def)
next
  case (3 a code why xs t)
  then have "cp_answer conn s' = Some (cp_response (d ! 0) (of_nat (length xs + 1))
          (map (\<lambda>x. (cp_param_id x, 0, 0)) xs @ [(a, code, why)]))" "same_db s s'" by simp_all
  then show ?case using 3(2,4) by blast
next
  case (4 cb xs t)
  then have "cp_answer conn s' = Some (cp_response (d ! 0) (d ! 1)
          (map (\<lambda>x. (cp_param_id x, if cb = 0x0D \<or> cb = 0x0E then ucast cb else 0, 0)) xs))" "same_db s s'" by simp_all
  then show ?case using 4(3,4) by blast
qed simp

text \<open>C38: A request of an operation on bare identifiers that is correct in every respect but names more than seven
  endpoints, which one identifier repeated eight times does, is stored behind the end of the array.\<close>

theorem cp_request_overrun:
  assumes "op \<in> {ASE_CP_OP_REC_START_READY, ASE_CP_OP_REC_STOP_READY, ASE_CP_OP_DISABLE, ASE_CP_OP_RELEASE}"
    "length ids \<le> 255" "max_ase < length ids" "\<And>i. i \<in> set ids \<Longrightarrow> cp_target conn op s i" "good_mem en"
  shows "ase_check_cp_data en pacs conn ([op, of_nat (length ids)] @ ids) (of_nat (2 + length ids)) s = None"
proof -
  let ?d = "[op, of_nat (length ids)] @ ids"
  let ?n = "of_nat (length ids) :: u8"
  let ?len = "of_nat (2 + length ids) :: u16"
  have n: "unat ?n = length ids" using assms(2) by (simp add: unat_u8_of_nat)
  have len: "unat ?len = 2 + length ids"
    using assms(2) by (simp only: unat_of_nat) (simp add: take_bit_nat_eq_self)
  have nz: "?n \<noteq> 0" using n assms(3) by (auto simp: max_ase_def)
  have l3: "\<not> ?len < 3" using len assms(3) by (cases ids) (simp_all add: word_less_nat_alt max_ase_def del: of_nat_add)
  have ml: "ase_cp_check_msg_len op ?d ?len = Some True"
    using assms(1) l3 n len unfolding ase_cp_check_msg_len_def by (auto simp: arr_get_def simp del: of_nat_add)
  have get: "arr_get ?d 0 = Some op" "arr_get ?d 1 = Some ?n" by (simp_all add: arr_get_def)
  have ops: "\<not> (op > ASE_CP_OP_RELEASE \<or> op = ASE_CP_OP_NONE)" using assms(1) by auto
  have mem: "mem_ok en l" for l using assms(5) by (simp add: good_mem_def)
  have lp: "cp_loop en pacs conn op ?d (unat ?len) (unat ?n) 2 [] t = None" if "same_db s t" for t
    unfolding len n
    by (rule cp_loop_overrun) (use assms that in \<open>auto simp: cp_allowed_db nth_Cons' max_ase_def\<close>)
  show ?thesis
    unfolding ase_check_cp_data_def get Option.bind.bind_lunit Let_def
    using ops ml nz mem lp by (simp del: of_nat_add)
qed

text \<open>One parameter, then the end of the request.\<close>

lemma cp_loop_one:
  assumes "cp_item en pacs conn op d 0 2 s = Some (Inr (len, x), t)" "2 < len" "0 < n"
  shows "cp_loop en pacs conn op d len n 2 [] s = Some (None, [x], t)"
  using assms by (simp add: cp_loop.simps)

lemma cp_loop_stop:
  assumes "cp_item en pacs conn op d 0 2 s = Some (Inl r, t)" "2 < len" "0 < n"
  shows "cp_loop en pacs conn op d len n 2 [] s = Some (Some (Inl r), [], t)"
  using assms by (simp add: cp_loop.simps)

definition asked_st :: st where
  "asked_st = emit (Ev_alloc 0) (emit (Ev_alloc 5) demo_st)"

definition demo_request :: "u8 list" where
  "demo_request = [1, 1, 1, 1, 2, 0xFF, 0, 0, 0, 0, 3, 2, 1, 8]"

definition demo_param :: cp_param where
  "demo_param = Cp_codec (codec_cfg_of_bytes (take 9 (drop 2 demo_request))) [2, 1, 8]
     (zero_cfg\<lparr>codec_frame_blocks_per_sdu := 1, type_exist := 1, sample_frequency := 8\<rparr>)"

lemma demo_accepted:
  "\<exists>t. ase_check_cp_data quiet_env [] 0x40 demo_request 14 demo_st =
     Some (Some \<lparr>cp_op = 1, cp_number_of_ase = 1, cp_params = [demo_param]\<rparr>, t)"
proof -
  have f: "ase_find_by_ase_id 0x40 1 asked_st = Some (Some (0, 0))" by code_simp
  have g: "get_ase asked_st (0, 0) = Some (init_ase 0x40 SERVER_AUDIO_SINK 0 zero_ase)" by (simp add: demo_get asked_st_def)
  have pz: "codec_cfg_parse 3 (Some [2, 1, 8]) (Some zero_cfg) =
      Some (True, Some (zero_cfg\<lparr>codec_frame_blocks_per_sdu := 1, type_exist := 1, sample_frequency := 8\<rparr>))" by code_simp
  have "cp_item quiet_env [] 0x40 1 demo_request 0 2 asked_st = Some (Inr (14, demo_param), asked_st)"
    using f g pz
    by (simp add: cp_item_def cp_codec_item_def demo_request_def arr_get_def slice_of_def Let_def ase_cp_check_sm_state_def
        init_ase_def zero_ase_def ase_check_cfg_codec_param_def codec_cfg_of_bytes_def max_ase_def demo_param_def)
  then have lp: "cp_loop quiet_env [] 0x40 1 demo_request 14 1 2 [] asked_st = Some (None, [demo_param], asked_st)"
    by (intro cp_loop_one) simp_all
  have ml: "ase_cp_check_msg_len 1 demo_request 14 = Some True"
    by (simp add: ase_cp_check_msg_len_def demo_request_def arr_get_def Let_def)
  have q: "mem_ok quiet_env l" "app_result quiet_env l = 0" for l by (simp_all add: quiet_env_def)
  show ?thesis
    using ml lp q
    by (simp add: ase_check_cp_data_def demo_request_def arr_get_def Let_def asked_st_def cp_indication_def codec_cfg_of_bytes_def)
qed

theorem cp_request_accepted_witness:
  "\<exists>cp s'. ase_check_cp_data quiet_env [] 0x40 demo_request 14 demo_st = Some (Some cp, s') \<and>
     map cp_param_id (cp_params cp) = [1] \<and> cp_answer 0x40 s' = Some [1, 1, 1, 0, 0]"
proof -
  obtain t where x: "ase_check_cp_data quiet_env [] 0x40 demo_request 14 demo_st =
     Some (Some \<lparr>cp_op = 1, cp_number_of_ase = 1, cp_params = [demo_param]\<rparr>, t)" using demo_accepted by blast
  have "length demo_request \<le> max_request" by (simp add: demo_request_def)
  moreover have "cp_param_id demo_param = 1" by (simp add: demo_param_def demo_request_def codec_cfg_of_bytes_def)
  ultimately show ?thesis using cp_request_accepted [OF x] x by (simp add: cp_response_def)
qed

text \<open>An endpoint that is not streaming cannot be released by this request.\<close>

theorem cp_request_refused_witness:
  "case ase_check_cp_data quiet_env [] 0x40 [8, 1, 1] 3 demo_st of
     Some (None, s') \<Rightarrow> same_db demo_st s' \<and> cp_answer 0x40 s' = Some [8, 1, 1, 4, 0]
   | _ \<Rightarrow> False"
proof -
  let ?x = "ase_check_cp_data quiet_env [] 0x40 [8, 1, 1] 3 demo_st"
  have f: "ase_find_by_ase_id 0x40 1 asked_st = Some (Some (0, 0))" by code_simp
  have g: "get_ase asked_st (0, 0) = Some (init_ase 0x40 SERVER_AUDIO_SINK 0 zero_ase)" by (simp add: demo_get asked_st_def)
  have "cp_item quiet_env [] 0x40 8 [8, 1, 1] 0 2 asked_st = Some (Inl (1, 4, 0), asked_st)"
    using f g by (simp add: cp_item_def arr_get_def ase_cp_check_sm_state_def init_ase_def zero_ase_def)
  then have lp: "cp_loop quiet_env [] 0x40 8 [8, 1, 1] 3 1 2 [] asked_st = Some (Some (Inl (1, 4, 0)), [], asked_st)"
    by (intro cp_loop_stop) simp_all
  have ml: "ase_cp_check_msg_len 8 [8, 1, 1] 3 = Some True"
    by (simp add: ase_cp_check_msg_len_def arr_get_def)
  have q: "mem_ok quiet_env l" for l by (simp add: quiet_env_def)
  have x: "?x = Some (None, ascs_send_ase_cp_notify 0x40 (cp_response 8 1 [(1, 4, 0)]) asked_st)" (is "_ = Some (None, ?s)")
    using ml lp q by (simp add: ase_check_cp_data_def arr_get_def Let_def asked_st_def)
  have a: "cp_answer 0x40 ?s = Some [8, 1, 1, 4, 0]" by (simp add: cp_response_def)
  have "length [8, 1, 1 :: u8] \<le> max_request" by simp
  from cp_request_refused [OF x this quiet_good] have "same_db demo_st ?s" by blast
  then show ?thesis using x a by simp
qed

definition streaming_st :: st where
  "streaming_st = \<lparr>le_link = [\<lparr>l_used = True, l_conn_id = 0, l_conn_handle = 0x40, l_mtu_size = 64,
       l_ase = Some [(init_ase 0x40 SERVER_AUDIO_SINK 0 zero_ase)\<lparr>e_ase_state := ASE_STATE_STREAMING\<rparr>]\<rparr>],
     snk_ase_num = 1, src_ase_num = 0, evlog = []\<rparr>"

theorem cp_request_overrun_witness:
  "ase_check_cp_data quiet_env [] 0x40 [8, 8, 1, 1, 1, 1, 1, 1, 1, 1] 10 streaming_st = None"
proof -
  have f: "ase_find_by_ase_id 0x40 1 streaming_st = Some (Some (0, 0))" by code_simp
  have g: "get_ase streaming_st (0, 0) = Some ((init_ase 0x40 SERVER_AUDIO_SINK 0 zero_ase)\<lparr>e_ase_state := ASE_STATE_STREAMING\<rparr>)"
    by (simp add: streaming_st_def get_ase_def arr_get_def)
  have "cp_target 0x40 8 streaming_st 1"
    unfolding cp_target_def by (intro exI conjI, rule f, rule g) (simp add: cp_allowed_def)
  then have "cp_target 0x40 8 streaming_st i" if "i \<in> set (replicate 8 1)" for i using that by simp
  from cp_request_overrun [of 8 "replicate 8 1" "0x40" streaming_st quiet_env "[]", OF _ _ _ this quiet_good]
  show ?thesis by (simp add: max_ase_def numeral_eq_Suc)
qed

end
