(* ===== verification/Ascs_Mgr.thy ===== *)
theory Ascs_Mgr
  imports Ase_Cp
begin

text \<open>
  The ASCS server around the endpoint operations: \<open>src/app/ble_audio_lib/bap/ascs_mgr.c\<close> with \<open>ascs_get_ase_id\<close> of
  \<open>ascs.c\<close> and the life of a link in \<open>ble_link_util.c\<close> and \<open>ble_audio_mgr.c\<close>.

  The functions are those the application calls, the reaction to the messages of the isochronous channel manager and
  of the link, and the callbacks of the GATT service. \<open>srv_event\<close> gathers them, \<open>serve\<close> is one of them, and a state is
  reachable when a sequence of them leads to it from the state after \<open>ascs_init\<close>.
\<close>

section \<open>Calls of the application\<close>

definition on_ase :: "(ase_ptr \<Rightarrow> st \<Rightarrow> (bool \<times> st) option) \<Rightarrow> u16 \<Rightarrow> u8 \<Rightarrow> st \<Rightarrow> (bool \<times> st) option" where
  "on_ase f conn ase_id s = do {
     q \<leftarrow> ase_find_by_ase_id conn ase_id s;
     (case q of None \<Rightarrow> Some (False, s) | Some p \<Rightarrow> f p s)
   }"

definition ascs_action_cfg_codec :: "env \<Rightarrow> u16 \<Rightarrow> u8 \<Rightarrow> cp_codec_cfg \<Rightarrow> u8 list \<Rightarrow> st \<Rightarrow> (bool \<times> st) option" where
  "ascs_action_cfg_codec en conn ase_id prm dat = on_ase (\<lambda>p. ase_action_cfg_codec en conn p prm dat) conn ase_id"

definition ascs_action_disable :: "env \<Rightarrow> u16 \<Rightarrow> u8 \<Rightarrow> st \<Rightarrow> (bool \<times> st) option" where
  "ascs_action_disable en conn ase_id = on_ase (ase_action_disable en conn) conn ase_id"

definition ascs_action_update_metadata :: "env \<Rightarrow> u16 \<Rightarrow> u8 \<Rightarrow> u8 \<Rightarrow> u8 list \<Rightarrow> st \<Rightarrow> (bool \<times> st) option" where
  "ascs_action_update_metadata en conn ase_id n md = on_ase (\<lambda>p. ase_action_update_metadata en conn p n md) conn ase_id"

abbreviation channel_up :: "isoch_info \<Rightarrow> bool" where
  "channel_up info \<equiv> i_state info = ISOCH_STATE_CONN \<or> i_state info = ISOCH_STATE_CONNECTING"

text \<open>The flag tested here is the other direction than in the rest of the file.\<close>

definition release_flag :: "ase_entry \<Rightarrow> u8" where
  "release_flag e = (if e_direction e = SERVER_AUDIO_SINK then DATA_PATH_INPUT_FLAG else DATA_PATH_OUTPUT_FLAG)"

definition ascs_action_release :: "env \<Rightarrow> u16 \<Rightarrow> u8 \<Rightarrow> st \<Rightarrow> (bool \<times> st) option" where
  "ascs_action_release en conn ase_id = on_ase (\<lambda>p s. do {
     e \<leftarrow> get_ase s p;
     let (ret, info) = isoch_info_of en s e;
     (if ret \<and> i_state info = ISOCH_STATE_CONN \<and> has (i_data_path_flags info) (release_flag e) then Some (False, s)
      else do {
        (r, s1) \<leftarrow> ase_action_release en conn p s;
        (if \<not> r then Some (False, s1)
         else do {
           e1 \<leftarrow> get_ase s1 p;
           Some (True, if channel_up info then emit (Ev_cis_disconnect (e_cis_conn_handle e1)) s1 else s1)
         })
      })
   }) conn ase_id"

definition ascs_app_ctl_handshake :: "u16 \<Rightarrow> u8 \<Rightarrow> bool \<Rightarrow> st \<Rightarrow> (bool \<times> st) option" where
  "ascs_app_ctl_handshake conn ase_id app_handshake = on_ase (\<lambda>p s. do {
     e \<leftarrow> get_ase s p;
     Some (True, put_ase p (e\<lparr>e_app_handshake := app_handshake\<rparr>) s)
   }) conn ase_id"

definition ascs_action_rec_start_ready :: "env \<Rightarrow> u16 \<Rightarrow> u8 \<Rightarrow> st \<Rightarrow> (bool \<times> st) option" where
  "ascs_action_rec_start_ready en conn ase_id = on_ase (\<lambda>p s. do {
     e \<leftarrow> get_ase s p;
     (if \<not> ase_cp_check_sm_state (e_ase_state e) (e_direction e) ASE_CP_OP_REC_START_READY False then Some (False, s)
      else if e_app_handshake e then do {
        let e1 = e\<lparr>e_app_handshake_rec := True\<rparr>;
        let s1 = put_ase p e1 s;
        (if ase_sm_check_iosch_status en ASE_SM_CHECK_ENABLE e1 s1
         then map_option (\<lambda>x. (True, snd x)) (ase_switch_to_streaming en conn p s1)
         else map_option (Pair True) (ascs_check_current_state en conn p s1))
      } else Some (False, s))
   }) conn ase_id"

definition ascs_action_rec_stop_ready :: "env \<Rightarrow> u16 \<Rightarrow> u8 \<Rightarrow> st \<Rightarrow> (bool \<times> st) option" where
  "ascs_action_rec_stop_ready en conn ase_id = on_ase (\<lambda>p s. do {
     e \<leftarrow> get_ase s p;
     (if \<not> ase_cp_check_sm_state (e_ase_state e) (e_direction e) ASE_CP_OP_REC_STOP_READY False then Some (False, s)
      else if e_app_handshake e then do {
        let e1 = e\<lparr>e_app_handshake_rec := True\<rparr>;
        let s1 = put_ase p e1 s;
        (if ase_sm_check_iosch_status en ASE_SM_CHECK_DISABLE e1 s1
         then map_option (\<lambda>x. (True, snd x)) (ase_switch_to_qos_cfg en conn p s1)
         else map_option (Pair True) (ascs_check_current_state en conn p s1))
      } else Some (False, s))
   }) conn ase_id"

section \<open>A request of the client\<close>

text \<open>The endpoints of a request one after the other; the loop stops at the first that does not exist.\<close>

fun cp_each :: "(cp_param \<Rightarrow> ase_ptr \<Rightarrow> st \<Rightarrow> (bool \<times> st) option) \<Rightarrow> u16 \<Rightarrow> cp_param list \<Rightarrow> st \<Rightarrow> st option" where
  "cp_each f conn [] s = Some s"
| "cp_each f conn (x # xs) s = do {
     q \<leftarrow> ase_find_by_ase_id conn (cp_param_id x) s;
     (case q of
        None \<Rightarrow> Some s
      | Some p \<Rightarrow> do { (r, s1) \<leftarrow> f x p s; cp_each f conn xs s1 })
   }"

text \<open>The longest SDU intervals to and from the server of the endpoints in a codec configuration.\<close>

definition longer_interval :: "ase_entry \<Rightarrow> u32 \<Rightarrow> u32 \<times> u32 \<Rightarrow> u32 \<times> u32" where
  "longer_interval e x acc =
     (if e_direction e = SERVER_AUDIO_SINK then (if fst acc < x then (x, snd acc) else acc)
      else if snd acc < x then (fst acc, x) else acc)"

fun sdu_intervals :: "u16 \<Rightarrow> cp_param list \<Rightarrow> st \<Rightarrow> u32 \<times> u32 \<Rightarrow> (u32 \<times> u32) option" where
  "sdu_intervals conn [] s acc = Some acc"
| "sdu_intervals conn (Cp_codec c b g # xs) s acc = do {
     q \<leftarrow> ase_find_by_ase_id conn (p_ase_id c) s;
     (case q of
        None \<Rightarrow> sdu_intervals conn xs s acc
      | Some p \<Rightarrow> do {
          e \<leftarrow> get_ase s p;
          (ok, cfg) \<leftarrow> codec_cfg_parse (p_codec_spec_cfg_len c) (Some b) (Some zero_cfg);
          (if \<not> ok then sdu_intervals conn xs s acc
           else case codec_sdu_interval_get cfg (Some 0) of
             (True, Some x) \<Rightarrow> sdu_intervals conn xs s (longer_interval e x acc)
           | _ \<Rightarrow> sdu_intervals conn xs s acc)
        })
   }"
| "sdu_intervals conn (x # xs) s acc = None"

definition min_latency :: "u32 \<times> u32 \<Rightarrow> u16 option" where
  "min_latency acc =
     (if fst acc \<noteq> 0 \<and> snd acc \<noteq> 0 then do {
        value \<leftarrow> least_common_multiple (fst acc) (snd acc);
        let ms = (ucast (value div 1000) :: u16);
        Some (if value mod 1000 \<noteq> 0 then ms + 1 else ms)
      } else Some 0)"

text \<open>The call for one endpoint; the parameters of a request are those of its operation.\<close>

definition set_min_latency :: "u16 \<Rightarrow> ase_ptr \<Rightarrow> st \<Rightarrow> st option" where
  "set_min_latency m p s = do { e \<leftarrow> get_ase s p; Some (put_ase p (e\<lparr>e_min_transport_latency := m\<rparr>) s) }"

fun cp_call :: "env \<Rightarrow> u16 \<Rightarrow> u8 \<Rightarrow> u16 \<Rightarrow> cp_param \<Rightarrow> ase_ptr \<Rightarrow> st \<Rightarrow> (bool \<times> st) option" where
  "cp_call en conn op m (Cp_codec c b g) p s = do {
     s1 \<leftarrow> set_min_latency m p s;
     ase_action_cfg_codec en conn p c b s1
   }"
| "cp_call en conn op m (Cp_qos i q) p s = ase_action_cfg_qos en conn p q s"
| "cp_call en conn op m (Cp_metadata i n b) p s =
     (if op = ASE_CP_OP_ENABLE then ase_action_enable en conn p n b s
      else ase_action_update_metadata en conn p n b s)"
| "cp_call en conn op m (Cp_id i) p s =
     (if op = ASE_CP_OP_REC_START_READY then ase_action_rec_start_ready en conn p s
      else if op = ASE_CP_OP_REC_STOP_READY then ase_action_rec_stop_ready en conn p s
      else if op = ASE_CP_OP_DISABLE then ase_action_disable en conn p s
      else ase_action_release en conn p s)"

definition ase_handle_remote_cp :: "env \<Rightarrow> u16 \<Rightarrow> ascs_ase_cp \<Rightarrow> st \<Rightarrow> st option" where
  "ase_handle_remote_cp en conn cp s =
     (if length (cp_params cp) \<noteq> unat (cp_number_of_ase cp) then None
      else if cp_op cp = ASE_CP_OP_CONFIG_CODEC then do {
        acc \<leftarrow> sdu_intervals conn (cp_params cp) s (0, 0);
        m \<leftarrow> min_latency acc;
        cp_each (cp_call en conn (cp_op cp) m) conn (cp_params cp) s
      }
      else cp_each (cp_call en conn (cp_op cp) 0) conn (cp_params cp) s)"

section \<open>Loops over the table of a link\<close>

text \<open>
  \<open>for (i = 0; i < snk_ase_num + src_ase_num; i++)\<close> over the endpoints of link \<open>l\<close>, threading what the loop keeps;
  the \<open>uint8_t\<close> counter never reaches a bound above 255.
\<close>

fun over_table :: "(ase_ptr \<Rightarrow> 'x \<Rightarrow> 'x option) \<Rightarrow> nat \<Rightarrow> nat list \<Rightarrow> 'x \<Rightarrow> 'x option" where
  "over_table f l [] x = Some x"
| "over_table f l (i # is) x = do { x1 \<leftarrow> f (l, i) x; over_table f l is x1 }"

definition for_table :: "(ase_ptr \<Rightarrow> 'x \<Rightarrow> 'x option) \<Rightarrow> nat \<Rightarrow> nat \<Rightarrow> 'x \<Rightarrow> 'x option" where
  "for_table f l n x = (if n > 255 then None else over_table f l [0..<n] x)"

text \<open>\<open>ascs_action_release_by_cig\<close>: \<open>ret\<close> is kept, and a release that is refused ends the loop.\<close>

fun release_cig_loop :: "env \<Rightarrow> u16 \<Rightarrow> u8 \<Rightarrow> nat \<Rightarrow> nat list \<Rightarrow> bool \<Rightarrow> st \<Rightarrow> (bool \<times> st) option" where
  "release_cig_loop en conn cig_id l [] ret s = Some (ret, s)"
| "release_cig_loop en conn cig_id l (i # is) ret s = do {
     e \<leftarrow> get_ase s (l, i);
     (if e_ase_state e < ASE_STATE_QOS_CONFIGURED \<or> e_ase_state e = ASE_STATE_RELEASING \<or>
         s_cig_id (e_qos_state_data e) \<noteq> cig_id
      then release_cig_loop en conn cig_id l is ret s
      else do {
        (r, s1) \<leftarrow> ase_action_release en conn (l, i) s;
        (if \<not> r then Some (False, s1)
         else do {
           e1 \<leftarrow> get_ase s1 (l, i);
           let (found, info) = isoch_info_of en s1 e1;
           release_cig_loop en conn cig_id l is True
             (if found \<and> channel_up info then emit (Ev_cis_disconnect (e_cis_conn_handle e1)) s1 else s1)
         })
      })
   }"

definition ascs_action_release_by_cig :: "env \<Rightarrow> u16 \<Rightarrow> u8 \<Rightarrow> st \<Rightarrow> (bool \<times> st) option" where
  "ascs_action_release_by_cig en conn cig_id s =
     (case link_table conn s of
        None \<Rightarrow> Some (False, s)
      | Some (l, _) \<Rightarrow>
          (if ase_total s > 255 then None else release_cig_loop en conn cig_id l [0..<ase_total s] False s))"

section \<open>Messages of the isochronous channel manager\<close>

datatype cig_msg =
  Cis_established u16 u16 u8 u8
| Setup_data_path u16 u16 u8 u8
| Remove_data_path u16 u16 u8 u8
| Cis_disconnect
| Cis_disconnect_info u16 u16 u8 u8 u8
| Cis_request u16 u8 u8 u8

abbreviation GAP_SUCCESS :: u16 where "GAP_SUCCESS \<equiv> 0"
abbreviation APP_RESULT_SUCCESS :: u16 where "APP_RESULT_SUCCESS \<equiv> 0"
abbreviation APP_RESULT_PENDING :: u16 where "APP_RESULT_PENDING \<equiv> 0x0D01"
abbreviation APP_RESULT_ACCEPT :: u16 where "APP_RESULT_ACCEPT \<equiv> 0x0D03"
abbreviation APP_RESULT_INVALID_OFFSET :: u16 where "APP_RESULT_INVALID_OFFSET \<equiv> 0x0407"
abbreviation APP_RESULT_ATTR_NOT_FOUND :: u16 where "APP_RESULT_ATTR_NOT_FOUND \<equiv> 0x040A"

text \<open>The endpoint at \<open>p\<close>, if there is one, belongs to the new channel.\<close>

definition join_channel :: "env \<Rightarrow> u16 \<Rightarrow> u16 \<Rightarrow> ase_ptr option \<Rightarrow> st \<Rightarrow> st option" where
  "join_channel en conn cis q s =
     (case q of
        None \<Rightarrow> Some s
      | Some p \<Rightarrow> do {
          e \<leftarrow> get_ase s p;
          ascs_check_current_state en conn p (put_ase p (e\<lparr>e_cis_conn_handle := cis\<rparr>) s)
        })"

definition cis_established :: "env \<Rightarrow> u16 \<Rightarrow> u8 \<Rightarrow> u8 \<Rightarrow> st \<Rightarrow> st option" where
  "cis_established en cis cig_id cis_id s = do {
     let (conn_id, cig, i) = cis_of en (evlog s) cis;
     let conn = handle_of en (evlog s) conn_id;
     snk \<leftarrow> ase_find_by_cig_cis conn SERVER_AUDIO_SINK cig i s;
     src \<leftarrow> ase_find_by_cig_cis conn SERVER_AUDIO_SOURCE cig i s;
     s1 \<leftarrow> join_channel en conn cis snk s;
     s2 \<leftarrow> join_channel en conn cis src s1;
     Some (if snk = None \<and> src = None then s2 else emit (Ev_msg (Msg_cis_conn_info conn cis cig_id cis_id)) s2)
   }"

definition added_flag :: "u8 \<Rightarrow> u8" where
  "added_flag path = (if path = DATA_PATH_ADD_INPUT then DATA_PATH_INPUT_FLAG
     else if path = DATA_PATH_ADD_OUTPUT then DATA_PATH_OUTPUT_FLAG else 0)"

definition path_added :: "env \<Rightarrow> u16 \<Rightarrow> u16 \<Rightarrow> u16 \<Rightarrow> u8 \<Rightarrow> ase_ptr \<Rightarrow> st \<Rightarrow> st option" where
  "path_added en conn cause cis path p s = do {
     e \<leftarrow> get_ase s p;
     (if e_cis_conn_handle e \<noteq> cis then Some s
      else if e_added_path_direction e = added_flag path then
        (if cause = GAP_SUCCESS then
           (let s1 = emit (Ev_msg (Msg_setup_data_path conn (e_ase_id e) (e_added_path_direction e) cis (e_codec_cfg e))) s
            in if e_ase_state e = ASE_STATE_ENABLING \<and> ase_sm_check_iosch_status en ASE_SM_CHECK_ENABLE e s1
               then map_option snd (ase_switch_to_streaming en conn p s1) else Some s1)
         else Some (put_ase p (e\<lparr>e_added_path_direction := 0\<rparr>) s))
      else if cause = GAP_SUCCESS \<and> e_ase_state e = ASE_STATE_ENABLING \<and> e_direction e = SERVER_AUDIO_SOURCE \<and>
              e_rec_start_ready e
      then ascs_check_current_state en conn p s
      else Some s)
   }"

definition path_removed :: "env \<Rightarrow> u16 \<Rightarrow> u16 \<Rightarrow> u8 \<Rightarrow> ase_ptr \<Rightarrow> st \<Rightarrow> st option" where
  "path_removed en conn cis path p s = do {
     e \<leftarrow> get_ase s p;
     (if e_cis_conn_handle e \<noteq> cis then Some s
      else do {
        s1 \<leftarrow> (if e_added_path_direction e = path then
                  Some (put_ase p (e\<lparr>e_added_path_direction := 0\<rparr>)
                    (emit (Ev_msg (Msg_remove_data_path conn (e_ase_id e) (e_added_path_direction e) cis)) s))
                else if e_ase_state e = ASE_STATE_RELEASING then
                  (let (found, info) = isoch_info_of en s e
                   in if found \<and> i_state info = ISOCH_STATE_CONN \<and> i_data_path_flags info \<noteq> 0 \<and>
                         \<not> i_data_path_removing info \<and> has (i_data_path_flags info) (data_path_flag e)
                      then map_option snd (ascs_remove_data_path en p s) else Some s)
                else Some s);
        e1 \<leftarrow> get_ase s1 p;
        (if e_ase_state e1 = ASE_STATE_DISABLING \<and> ase_sm_check_iosch_status en ASE_SM_CHECK_DISABLE e1 s1
         then map_option snd (ase_switch_to_qos_cfg en conn p s1) else Some s1)
      })
   }"

text \<open>The flag that is kept says that one endpoint belonged to the channel.\<close>

definition channel_lost :: "env \<Rightarrow> u16 \<Rightarrow> u16 \<Rightarrow> ase_ptr \<Rightarrow> bool \<times> st \<Rightarrow> (bool \<times> st) option" where
  "channel_lost en conn cis p x = do {
     e \<leftarrow> get_ase (snd x) p;
     (if e_cis_conn_handle e \<noteq> cis then Some x
      else do {
        let e1 = e\<lparr>e_cis_conn_handle := 0\<rparr>;
        let s1 = put_ase p e1 (snd x);
        let (e2, s2) = (if e_added_path_direction e \<noteq> 0 then
            (e1\<lparr>e_added_path_direction := 0\<rparr>,
             put_ase p (e1\<lparr>e_added_path_direction := 0\<rparr>)
               (emit (Ev_msg (Msg_remove_data_path conn (e_ase_id e) (e_added_path_direction e) cis)) s1))
          else (e1, s1));
        s3 \<leftarrow> (if e_ase_state e2 = ASE_STATE_RELEASING then map_option snd (ase_action_released en conn p s2)
               else if e_ase_state e2 = ASE_STATE_STREAMING \<or> e_ase_state e2 = ASE_STATE_DISABLING then
                 notify_and_check en conn p (put_ase p (ascs_change_state ASE_STATE_QOS_CONFIGURED e2) s2)
               else Some s2);
        Some (True, s3)
      })
   }"

definition table_of_conn_id :: "u8 \<Rightarrow> st \<Rightarrow> (nat \<times> u16) option" where
  "table_of_conn_id conn_id s = do {
     l \<leftarrow> ble_audio_link_find_by_conn_id conn_id s;
     tab \<leftarrow> l_ase (le_link s ! l);
     Some (l, l_conn_handle (le_link s ! l))
   }"

definition cis_request :: "env \<Rightarrow> u16 \<Rightarrow> u8 \<Rightarrow> u8 \<Rightarrow> u8 \<Rightarrow> st \<Rightarrow> (u16 \<times> st) option" where
  "cis_request en cis conn_id cig_id cis_id s = do {
     let conn = handle_of en (evlog s) conn_id;
     snk \<leftarrow> ase_find_by_cig_cis conn SERVER_AUDIO_SINK cig_id cis_id s;
     src \<leftarrow> ase_find_by_cig_cis conn SERVER_AUDIO_SOURCE cig_id cis_id s;
     a \<leftarrow> (case snk of None \<Rightarrow> Some (0, 0) | Some p \<Rightarrow> map_option (\<lambda>e. (e_ase_id e, e_ase_state e)) (get_ase s p));
     b \<leftarrow> (case src of None \<Rightarrow> Some (0, 0) | Some p \<Rightarrow> map_option (\<lambda>e. (e_ase_id e, e_ase_state e)) (get_ase s p));
     (if snk = None \<and> src = None then Some (APP_RESULT_SUCCESS, s)
      else let s1 = emit (Ev_msg (Msg_cis_request conn cis (fst a) (snd a) (fst b) (snd b))) s;
               cb_result = app_result en (evlog s1)
           in Some (if cb_result = BLE_AUDIO_CB_RESULT_SUCCESS then APP_RESULT_ACCEPT else cb_result, s1))
   }"

definition ascs_handle_cig_mgr_msg :: "env \<Rightarrow> cig_msg \<Rightarrow> st \<Rightarrow> (u16 \<times> st) option" where
  "ascs_handle_cig_mgr_msg en m s = (case m of
     Cis_established cause cis cig_id cis_id \<Rightarrow>
       (if cause = GAP_SUCCESS then map_option (Pair APP_RESULT_SUCCESS) (cis_established en cis cig_id cis_id s)
        else Some (APP_RESULT_SUCCESS, s))
   | Setup_data_path cause cis conn_id path \<Rightarrow>
       (case table_of_conn_id conn_id s of
          None \<Rightarrow> Some (APP_RESULT_SUCCESS, s)
        | Some (l, conn) \<Rightarrow>
            map_option (Pair APP_RESULT_SUCCESS) (for_table (path_added en conn cause cis path) l (ase_total s) s))
   | Remove_data_path cause cis conn_id path \<Rightarrow>
       (if cause \<noteq> GAP_SUCCESS then Some (APP_RESULT_SUCCESS, s)
        else case table_of_conn_id conn_id s of
          None \<Rightarrow> Some (APP_RESULT_SUCCESS, s)
        | Some (l, conn) \<Rightarrow>
            map_option (Pair APP_RESULT_SUCCESS) (for_table (path_removed en conn cis path) l (ase_total s) s))
   | Cis_disconnect \<Rightarrow> Some (APP_RESULT_SUCCESS, s)
   | Cis_disconnect_info cause cis conn_id cig_id cis_id \<Rightarrow>
       (case table_of_conn_id conn_id s of
          None \<Rightarrow> Some (APP_RESULT_SUCCESS, s)
        | Some (l, conn) \<Rightarrow> do {
            (send_msg, s1) \<leftarrow> for_table (channel_lost en conn cis) l (ase_total s) (False, s);
            Some (APP_RESULT_SUCCESS,
              if send_msg then emit (Ev_msg (Msg_cis_disconn_info conn cis cause cig_id cis_id)) s1 else s1)
          })
   | Cis_request cis conn_id cig_id cis_id \<Rightarrow> cis_request en cis conn_id cig_id cis_id s)"

section \<open>The life of a link\<close>

text \<open>\<open>ble_audio_link_alloc_by_conn_id\<close> and the \<open>memset\<close> of \<open>ble_audio_link_free\<close>; of a link, what the server uses.\<close>

definition ble_audio_link_alloc_by_conn_id :: "u8 \<Rightarrow> st \<Rightarrow> nat option \<times> st" where
  "ble_audio_link_alloc_by_conn_id conn_id s =
     (case ble_audio_link_find_by_conn_id conn_id s of
        Some l \<Rightarrow> (Some l, s)
      | None \<Rightarrow> (case first_index (\<lambda>k. \<not> l_used k) (le_link s) of
          None \<Rightarrow> (None, s)
        | Some l \<Rightarrow> (Some l, s\<lparr>le_link := (le_link s)[l := (le_link s ! l)\<lparr>l_used := True, l_conn_id := conn_id\<rparr>]\<rparr>)))"

definition ble_audio_link_free :: "nat \<Rightarrow> st \<Rightarrow> bool \<times> st" where
  "ble_audio_link_free l s =
     (if l_used (le_link s ! l)
      then (True, s\<lparr>le_link := (le_link s)[l := \<lparr>l_used = False, l_conn_id = 0xFF, l_conn_handle = 0,
              l_mtu_size = 0, l_ase = None\<rparr>]\<rparr>)
      else (False, s))"

definition pending_one :: "env \<Rightarrow> ase_ptr \<Rightarrow> st \<Rightarrow> st option" where
  "pending_one en p s = do {
     e \<leftarrow> get_ase s p;
     Some (if e_ase_state e \<noteq> ASE_STATE_IDLE
           then emit (Ev_pending_set (fst p) (start_handle en (evlog s) + 6 + 3 * of_nat (snd p))) s else s)
   }"

definition ascs_check_ase_state_when_disconnect :: "env \<Rightarrow> nat \<Rightarrow> st \<Rightarrow> st option" where
  "ascs_check_ase_state_when_disconnect en l s =
     (case l_ase (le_link s ! l) of None \<Rightarrow> Some s | Some _ \<Rightarrow> for_table (pending_one en) l (ase_total s) s)"

text \<open>The application is told of every endpoint that was in use, first that it is releasing, then that it is idle.\<close>

definition tell_state :: "u16 \<Rightarrow> u8 \<Rightarrow> st \<Rightarrow> st option" where
  "tell_state conn ase_id s = do {
     a \<leftarrow> ascs_get_ase_data conn ase_id s;
     Some (case a of None \<Rightarrow> s | Some data \<Rightarrow> emit (Ev_msg (Msg_ase_state conn data)) s)
   }"

definition drop_ase :: "u16 \<Rightarrow> ase_ptr \<Rightarrow> st \<Rightarrow> st option" where
  "drop_ase conn p s = do {
     e \<leftarrow> get_ase s p;
     s1 \<leftarrow> (if e_ase_state e \<noteq> ASE_STATE_IDLE \<and> e_ase_state e \<noteq> ASE_STATE_RELEASING
            then tell_state conn (e_ase_id e) (put_ase p (ascs_change_state ASE_STATE_RELEASING e) s)
            else Some s);
     e1 \<leftarrow> get_ase s1 p;
     (if e_ase_state e1 \<noteq> ASE_STATE_IDLE
      then tell_state conn (e_ase_id e1) (put_ase p (ascs_change_state ASE_STATE_IDLE e1) s1)
      else Some s1)
   }"

text \<open>The two cases of \<open>ascs_dm_cback\<close> for the state of a connection.\<close>

definition ascs_link_up :: "env \<Rightarrow> u8 \<Rightarrow> st \<Rightarrow> st option" where
  "ascs_link_up en conn_id s = map_option snd (ase_sm_link_init en (handle_of en (evlog s) conn_id) s)"

definition ascs_link_down :: "env \<Rightarrow> u8 \<Rightarrow> st \<Rightarrow> st option" where
  "ascs_link_down en conn_id s =
     (case ble_audio_link_find_by_conn_id conn_id s of
        None \<Rightarrow> Some s
      | Some l \<Rightarrow> do {
          let conn = l_conn_handle (le_link s ! l);
          s1 \<leftarrow> ascs_check_ase_state_when_disconnect en l s;
          s2 \<leftarrow> (case l_ase (le_link s1 ! l) of None \<Rightarrow> Some s1
                 | Some _ \<Rightarrow> for_table (drop_ase conn) l (ase_total s1) s1);
          ase_sm_link_free conn s2
        })"

datatype conn_state = Connecting | Connected | Disconnecting | Disconnected

definition ble_audio_handle_conn_state_evt :: "env \<Rightarrow> u8 \<Rightarrow> conn_state \<Rightarrow> st \<Rightarrow> st option" where
  "ble_audio_handle_conn_state_evt en conn_id new_state s =
     (let q = ble_audio_link_find_by_conn_id conn_id s
      in case new_state of
           Disconnecting \<Rightarrow> Some s
         | Disconnected \<Rightarrow> (case q of None \<Rightarrow> Some s
             | Some l \<Rightarrow> do {
                 s1 \<leftarrow> ascs_link_down en conn_id s;
                 Some (snd (ble_audio_link_free l s1))
               })
         | Connecting \<Rightarrow> Some (if q = None then snd (ble_audio_link_alloc_by_conn_id conn_id s) else s)
         | Connected \<Rightarrow> (case q of None \<Rightarrow> Some s
             | Some l \<Rightarrow>
                 ascs_link_up en conn_id (s\<lparr>le_link := (le_link s)[l := (le_link s ! l)\<lparr>
                   l_conn_handle := handle_of en (evlog s) conn_id, l_mtu_size := mtu_of en (evlog s) conn_id\<rparr>]\<rparr>)))"

definition handle_mtu_info :: "u8 \<Rightarrow> u16 \<Rightarrow> st \<Rightarrow> st" where
  "handle_mtu_info conn_id mtu s =
     (case ble_audio_link_find_by_conn_id conn_id s of None \<Rightarrow> s
      | Some l \<Rightarrow> s\<lparr>le_link := (le_link s)[l := (le_link s ! l)\<lparr>l_mtu_size := mtu\<rparr>]\<rparr>)"

text \<open>
  Pending notifications after pairing: bit \<open>i\<close> of the mask of the service stands for endpoint \<open>i\<close>; \<open>1 << i\<close> is
  undefined once it leaves the \<open>int\<close> and is 0 as a \<open>uint16_t\<close> from 16 on.
\<close>

definition pending_flag :: "nat \<Rightarrow> u16 option" where
  "pending_flag i = (if i < 31 then Some (push_bit i 1) else None)"

definition notify_pending :: "env \<Rightarrow> u16 \<Rightarrow> ase_ptr \<Rightarrow> u16 \<times> st \<Rightarrow> (u16 \<times> st) option" where
  "notify_pending en conn p x = do {
     flag \<leftarrow> pending_flag (snd p);
     (if fst x AND flag = 0 then Some x
      else do {
        e \<leftarrow> get_ase (snd x) p;
        (d, s1) \<leftarrow> ase_gen_char_data en conn (e_ase_id e) (snd x);
        (case d of None \<Rightarrow> Some (fst x, s1)
         | Some bytes \<Rightarrow> do {
             (sent, s2) \<leftarrow> ascs_send_ase_notify en conn (e_ase_id e) bytes s1;
             (if \<not> sent then Some (fst x, s2)
              else let s3 = emit (Ev_pending_clear conn (start_handle en (evlog s2) + 6 + 3 * of_nat (snd p))) s2
                   in Some (if clear_ok en (evlog s3) then fst x AND NOT flag else fst x, s3))
           })
      })
   }"

definition ascs_handle_pending_cccd :: "env \<Rightarrow> nat \<Rightarrow> u16 \<times> st \<Rightarrow> (u16 \<times> st) option" where
  "ascs_handle_pending_cccd en l x =
     (case l_ase (le_link (snd x) ! l) of
        None \<Rightarrow> Some x
      | Some _ \<Rightarrow> for_table (notify_pending en (l_conn_handle (le_link (snd x) ! l))) l (ase_total (snd x)) x)"

text \<open>
  \<open>ascs_dm_cback\<close> after an authentication that succeeded; \<open>pending\<close> is the mask in the record of the service, if
  the client is bonded and has one.
\<close>

definition ascs_authen_complete :: "env \<Rightarrow> u8 \<Rightarrow> u16 option \<Rightarrow> st \<Rightarrow> st option" where
  "ascs_authen_complete en conn_id pending s =
     (case (ble_audio_link_find_by_conn_id conn_id s, pending) of
        (Some l, Some m) \<Rightarrow> (if m \<noteq> 0 then map_option snd (ascs_handle_pending_cccd en l (m, s)) else Some s)
      | _ \<Rightarrow> Some s)"

section \<open>The callbacks of the service\<close>

definition ascs_get_ase_id :: "u16 \<Rightarrow> bool \<Rightarrow> u8" where
  "ascs_get_ase_id attrib_index cccd =
     (let start = (if cccd then 6 else 5); index = attrib_index - start
      in if attrib_index < start then 0 else if index mod 3 \<noteq> 0 then 0 else ucast (index div 3 + 1))"

definition ascs_attr_read_cb :: "env \<Rightarrow> u16 \<Rightarrow> u16 \<Rightarrow> u16 \<Rightarrow> st \<Rightarrow> (u16 \<times> st) option" where
  "ascs_attr_read_cb en conn attrib_index offset s =
     (let ase_id = ascs_get_ase_id attrib_index False
      in if ase_id = 0 then Some (APP_RESULT_ATTR_NOT_FOUND, s)
         else do {
           (d, s1) \<leftarrow> ase_gen_char_data en conn ase_id s;
           (case d of None \<Rightarrow> Some (APP_RESULT_SUCCESS, s1)
            | Some v \<Rightarrow>
                (if unat offset > length v then Some (APP_RESULT_INVALID_OFFSET, s1)
                 else let s2 = emit (Ev_read_confirm conn (unat attrib_index) (drop (unat offset) v) (length v)) s1
                      in Some (if read_ok en (evlog s2) then APP_RESULT_PENDING else APP_RESULT_SUCCESS, s2)))
         })"

definition ascs_attr_write_cb ::
    "env \<Rightarrow> pac_record list \<Rightarrow> u16 \<Rightarrow> u16 \<Rightarrow> u16 \<Rightarrow> u8 list option \<Rightarrow> st \<Rightarrow> (u16 \<times> st) option" where
  "ascs_attr_write_cb en pacs conn attrib_index len p_value s =
     (if attrib_index \<noteq> 2 then Some (APP_RESULT_ATTR_NOT_FOUND, s)
      else case p_value of None \<Rightarrow> Some (APP_RESULT_SUCCESS, s)
      | Some d \<Rightarrow> do {
          (cp, s1) \<leftarrow> ase_check_cp_data en pacs conn d len s;
          (case cp of None \<Rightarrow> Some (APP_RESULT_SUCCESS, s1)
           | Some c \<Rightarrow> map_option (Pair APP_RESULT_SUCCESS) (ase_handle_remote_cp en conn c s1))
        })"

text \<open>The numbers of \<open>ascs_init\<close>; the registration of the callbacks and of the service is left out.\<close>

definition ascs_init :: "u8 \<Rightarrow> u8 \<Rightarrow> st \<Rightarrow> st" where
  "ascs_init snk src s = s\<lparr>snk_ase_num := snk, src_ase_num := src\<rparr>"

section \<open>The server\<close>

datatype app_call =
  App_cfg_codec u16 u8 cp_codec_cfg "u8 list"
| App_disable u16 u8
| App_release u16 u8
| App_release_by_cig u16 u8
| App_update_metadata u16 u8 u8 "u8 list"
| App_ctl_handshake u16 u8 bool
| App_rec_start_ready u16 u8
| App_rec_stop_ready u16 u8
| App_prefer_qos u16 u8 prefer_qos_data

fun app_exec :: "env \<Rightarrow> app_call \<Rightarrow> st \<Rightarrow> (bool \<times> st) option" where
  "app_exec en (App_cfg_codec c i prm dat) = ascs_action_cfg_codec en c i prm dat"
| "app_exec en (App_disable c i) = ascs_action_disable en c i"
| "app_exec en (App_release c i) = ascs_action_release en c i"
| "app_exec en (App_release_by_cig c g) = ascs_action_release_by_cig en c g"
| "app_exec en (App_update_metadata c i n md) = ascs_action_update_metadata en c i n md"
| "app_exec en (App_ctl_handshake c i b) = ascs_app_ctl_handshake c i b"
| "app_exec en (App_rec_start_ready c i) = ascs_action_rec_start_ready en c i"
| "app_exec en (App_rec_stop_ready c i) = ascs_action_rec_stop_ready en c i"
| "app_exec en (App_prefer_qos c i pq) = ascs_cfg_ase_prefer_qos c i pq"

datatype srv_event =
  Srv_conn u8 conn_state
| Srv_mtu u8 u16
| Srv_authen u8 bool "u16 option"
| Srv_write u16 u16 u16 "u8 list option"
| Srv_read u16 u16 u16
| Srv_cig cig_msg
| Srv_app app_call

fun serve :: "env \<Rightarrow> pac_record list \<Rightarrow> srv_event \<Rightarrow> st \<Rightarrow> st option" where
  "serve en pacs (Srv_conn c x) s = ble_audio_handle_conn_state_evt en c x s"
| "serve en pacs (Srv_mtu c m) s = Some (handle_mtu_info c m s)"
| "serve en pacs (Srv_authen c ok m) s = (if ok then ascs_authen_complete en c m s else Some s)"
| "serve en pacs (Srv_write c i n v) s = map_option snd (ascs_attr_write_cb en pacs c i n v s)"
| "serve en pacs (Srv_read c i off) s = map_option snd (ascs_attr_read_cb en c i off s)"
| "serve en pacs (Srv_cig m) s = map_option snd (ascs_handle_cig_mgr_msg en m s)"
| "serve en pacs (Srv_app a) s = map_option snd (app_exec en a s)"

definition empty_link :: link where
  "empty_link = \<lparr>l_used = False, l_conn_id = 0, l_conn_handle = 0, l_mtu_size = 0, l_ase = None\<rparr>"

text \<open>The value of a write lies in a buffer of less than 65000 bytes, so that no index into it wraps.\<close>

fun sized :: "srv_event \<Rightarrow> bool" where
  "sized (Srv_write c i n v) \<longleftrightarrow> (case v of None \<Rightarrow> True | Some d \<Rightarrow> length d \<le> max_request)"
| "sized _ \<longleftrightarrow> True"

inductive ascs_reachable :: "env \<Rightarrow> pac_record list \<Rightarrow> nat \<Rightarrow> u8 \<Rightarrow> u8 \<Rightarrow> st \<Rightarrow> bool"
  for en :: env and pacs :: "pac_record list" and links :: nat and snk src :: u8 where
  start: "ascs_reachable en pacs links snk src
    (ascs_init snk src \<lparr>le_link = replicate links empty_link, snk_ase_num = 0, src_ase_num = 0, evlog = []\<rparr>)"
| event: "ascs_reachable en pacs links snk src s \<Longrightarrow> sized ev \<Longrightarrow> serve en pacs ev s = Some s' \<Longrightarrow>
    ascs_reachable en pacs links snk src s'"

end
