(* ===== verification/Ascs_Server.thy ===== *)
theory Ascs_Server
  imports Ascs_Mgr
begin

text \<open>
  What the server of \<open>Ascs_Mgr\<close> guarantees. The loops over a table are instances of the locale \<open>table_loop\<close>, the
  loop over a request of \<open>request_loop\<close>: when one round is a step of its endpoint, the loop moves the endpoints it
  visits and leaves the others. On top of that: what each event may do to each endpoint, the states that can be
  reached, what an accepted request and a lost link lead to.
\<close>

section \<open>Moves of several endpoints\<close>

definition ase_moves :: "bool \<Rightarrow> (ase_ptr \<Rightarrow> bool) \<Rightarrow> (u8 \<Rightarrow> u8 \<Rightarrow> u8 \<Rightarrow> bool) \<Rightarrow> st \<Rightarrow> st \<Rightarrow> bool" where
  "ase_moves good A L s s' \<longleftrightarrow> same_shape s s' \<and>
     (\<forall>q e. get_ase s q = Some e \<longrightarrow>
        (\<exists>e'. get_ase s' q = Some e' \<and> same_place e e' \<and> (ent_ok good e \<longrightarrow> ent_ok good e') \<and>
              (if A q then L (e_direction e) (e_ase_state e) (e_ase_state e') else e_ase_state e' = e_ase_state e)))"

lemma ase_movesD:
  assumes "ase_moves good A L s s'" "get_ase s q = Some e"
  obtains e' where "get_ase s' q = Some e'" "same_place e e'" "ent_ok good e \<longrightarrow> ent_ok good e'"
    "if A q then L (e_direction e) (e_ase_state e) (e_ase_state e') else e_ase_state e' = e_ase_state e"
  using assms unfolding ase_moves_def by blast

lemma step_moves: "ase_step good p L s s' \<longleftrightarrow> ase_moves good (\<lambda>q. q = p) L s s'"
  by (simp add: ase_step_def ase_moves_def)

lemma ase_moves_refl: "(\<And>q d x. A q \<Longrightarrow> L d x x) \<Longrightarrow> ase_moves good A L s s"
  by (simp add: ase_moves_def same_shape_def)

lemma ase_moves_trans:
  assumes "ase_moves good A L s t" "ase_moves good B M t u"
    and "\<And>q d x y z. A q \<Longrightarrow> B q \<Longrightarrow> L d x y \<Longrightarrow> M d y z \<Longrightarrow> C q \<and> N d x z"
    and "\<And>q d x y. A q \<Longrightarrow> \<not> B q \<Longrightarrow> L d x y \<Longrightarrow> C q \<and> N d x y"
    and "\<And>q d x y. \<not> A q \<Longrightarrow> B q \<Longrightarrow> M d x y \<Longrightarrow> C q \<and> N d x y"
    and "\<And>q d x. \<not> A q \<Longrightarrow> \<not> B q \<Longrightarrow> C q \<Longrightarrow> N d x x"
  shows "ase_moves good C N s u"
  unfolding ase_moves_def
proof (intro conjI allI impI)
  show "same_shape s u" using assms(1,2) by (auto simp: ase_moves_def intro: same_shape_trans)
  fix q e assume "get_ase s q = Some e"
  then obtain e1 where e1: "get_ase t q = Some e1" "same_place e e1" "ent_ok good e \<longrightarrow> ent_ok good e1"
    "if A q then L (e_direction e) (e_ase_state e) (e_ase_state e1) else e_ase_state e1 = e_ase_state e"
    by (rule ase_movesD [OF assms(1)])
  obtain e2 where e2: "get_ase u q = Some e2" "same_place e1 e2" "ent_ok good e1 \<longrightarrow> ent_ok good e2"
    "if B q then M (e_direction e1) (e_ase_state e1) (e_ase_state e2) else e_ase_state e2 = e_ase_state e1"
    by (rule ase_movesD [OF assms(2) e1(1)])
  have d: "e_direction e1 = e_direction e" using e1(2) by (simp add: same_place_def)
  have "if C q then N (e_direction e) (e_ase_state e) (e_ase_state e2) else e_ase_state e2 = e_ase_state e"
    using e1(4) e2(4) assms(3-6) [where q = q] unfolding d by (cases "A q"; cases "B q"; cases "C q") auto
  then show "\<exists>e'. get_ase u q = Some e' \<and> same_place e e' \<and> (ent_ok good e \<longrightarrow> ent_ok good e') \<and>
      (if C q then N (e_direction e) (e_ase_state e) (e_ase_state e') else e_ase_state e' = e_ase_state e)"
    using e1 e2 by (intro exI [of _ e2]) (auto simp: same_place_def)
qed

lemma ase_moves_mono:
  "ase_moves good A L s t \<Longrightarrow> (\<And>q d x y. A q \<Longrightarrow> L d x y \<Longrightarrow> B q \<and> M d x y) \<Longrightarrow> (\<And>q d x. \<not> A q \<Longrightarrow> B q \<Longrightarrow> M d x x) \<Longrightarrow>
   ase_moves good B M s t"
  by (rule ase_moves_trans [of good A L s t "\<lambda>_. False" stays t]) (auto intro: ase_moves_refl)

lemma moves_keeps: "ase_moves good A L s t \<Longrightarrow> ase_keeps good s t"
  unfolding ase_moves_def ase_keeps_def by meson

lemma ase_moves_ok: "ase_moves good A L s t \<Longrightarrow> st_ok good s \<Longrightarrow> st_ok good t"
  by (rule ase_keeps_ok [OF moves_keeps])

lemma moves_db: "same_db s t \<Longrightarrow> ase_moves good (\<lambda>_. False) stays s t"
  by (simp add: ase_moves_def same_shape_db same_db_get)

section \<open>Loops\<close>

text \<open>One round of a loop over a table is a step of the endpoint it is for; \<open>pr\<close> gives the state the loop threads.\<close>

locale table_loop =
  fixes f :: "ase_ptr \<Rightarrow> 'x \<Rightarrow> 'x option" and pr :: "'x \<Rightarrow> st" and good :: bool and L :: "u8 \<Rightarrow> u8 \<Rightarrow> u8 \<Rightarrow> bool"
  assumes round: "f p x = Some x' \<Longrightarrow> ase_step good p L (pr x) (pr x')"
begin

lemma over_moves:
  "over_table f l is x = Some x' \<Longrightarrow> distinct is \<Longrightarrow> ase_moves good (\<lambda>q. fst q = l \<and> snd q \<in> set is) L (pr x) (pr x')"
proof (induction "is" arbitrary: x)
  case Nil
  then show ?case by (auto intro: ase_moves_refl)
next
  case (Cons i "is")
  then obtain x1 where x1: "f (l, i) x = Some x1" "over_table f l is x1 = Some x'" by (auto elim!: bind_SomeE)
  have one: "ase_moves good (\<lambda>q. q = (l, i)) L (pr x) (pr x1)" using round [OF x1(1)] by (simp add: step_moves)
  have rest: "ase_moves good (\<lambda>q. fst q = l \<and> snd q \<in> set is) L (pr x1) (pr x')"
    using Cons.IH [OF x1(2)] Cons.prems(2) by simp
  show ?case
    by (rule ase_moves_trans [OF one rest]) (use Cons.prems(2) in auto)
qed

lemma for_moves: "for_table f l n x = Some x' \<Longrightarrow> ase_moves good (\<lambda>q. fst q = l \<and> snd q < n) L (pr x) (pr x')"
  using over_moves [of l "[0..<n]" x x'] by (auto simp: for_table_def split: if_split_asm)

text \<open>On a served link every endpoint of the table is visited once.\<close>

lemma for_moves_link:
  assumes "for_table f l (ase_total s) x = Some x'" "pr x = s" "st_ok good s"
  shows "ase_moves good (\<lambda>q. fst q = l) L s (pr x')"
proof -
  have m: "ase_moves good (\<lambda>q. fst q = l \<and> snd q < ase_total s) L s (pr x')" using for_moves [OF assms(1)] assms(2) by simp
  have "snd q < ase_total s" if "get_ase s q = Some e" for q e
  proof -
    have "fst q < length (le_link s)" "\<exists>n. map_option length (l_ase (le_link s ! fst q)) = Some n \<and> snd q < n"
      using get_ase_iff [of s q] that by auto
    then show ?thesis using assms(3) by (auto simp: st_ok_def)
  qed
  then show ?thesis using m unfolding ase_moves_def by auto
qed

end

text \<open>A request may name an endpoint twice, which then makes several moves.\<close>

locale request_loop =
  fixes f :: "cp_param \<Rightarrow> ase_ptr \<Rightarrow> st \<Rightarrow> (bool \<times> st) option" and K :: "cp_param \<Rightarrow> bool"
    and good :: bool and R :: "u8 \<Rightarrow> u8 \<Rightarrow> u8 \<Rightarrow> bool"
  assumes round: "K x \<Longrightarrow> f x p s = Some (r, s') \<Longrightarrow> ase_step good p R s s'"
begin

lemma each_moves:
  "cp_each f conn xs s = Some s' \<Longrightarrow> (\<And>x. x \<in> set xs \<Longrightarrow> K x) \<Longrightarrow>
   ase_moves good (\<lambda>_. True) (\<lambda>d. (R d)\<^sup>*\<^sup>*) s s'"
proof (induction xs arbitrary: s)
  case Nil
  then show ?case by (auto intro: ase_moves_refl)
next
  case (Cons x xs)
  obtain q where q: "ase_find_by_ase_id conn (cp_param_id x) s = Some q" using Cons.prems by (auto elim!: bind_SomeE)
  show ?case
  proof (cases q)
    case None
    then show ?thesis using Cons.prems q by (auto intro: ase_moves_refl)
  next
    case (Some p)
    then obtain r s1 where s1: "f x p s = Some (r, s1)" "cp_each f conn xs s1 = Some s'"
      using Cons.prems q by (auto elim!: bind_SomeE)
    have "ase_moves good (\<lambda>q. q = p) R s s1" using round [OF Cons.prems(2) s1(1)] by (simp add: step_moves)
    moreover have "ase_moves good (\<lambda>_. True) (\<lambda>d. (R d)\<^sup>*\<^sup>*) s1 s'"
      by (rule Cons.IH [OF s1(2)]) (simp add: Cons.prems(2))
    ultimately show ?thesis
      by (rule ase_moves_trans) (auto intro: converse_rtranclp_into_rtranclp)
  qed
qed

end

section \<open>The loops of the server\<close>

definition added_rel :: "u8 \<Rightarrow> u8 \<Rightarrow> u8 \<Rightarrow> bool" where
  [simp]: "added_rel d x y \<longleftrightarrow> y = x \<or> (x = ASE_STATE_ENABLING \<and> y = ASE_STATE_STREAMING)"

definition removed_rel :: "u8 \<Rightarrow> u8 \<Rightarrow> u8 \<Rightarrow> bool" where
  [simp]: "removed_rel d x y \<longleftrightarrow> y = x \<or> (x = ASE_STATE_DISABLING \<and> y = ASE_STATE_QOS_CONFIGURED)"

definition lost_rel :: "u8 \<Rightarrow> u8 \<Rightarrow> u8 \<Rightarrow> bool" where
  [simp]: "lost_rel d x y \<longleftrightarrow> y = x \<or> (x = ASE_STATE_RELEASING \<and> y = ASE_STATE_IDLE) \<or>
     ((x = ASE_STATE_STREAMING \<or> x = ASE_STATE_DISABLING) \<and> y = ASE_STATE_QOS_CONFIGURED)"

definition idle_rel :: "u8 \<Rightarrow> u8 \<Rightarrow> u8 \<Rightarrow> bool" where
  [simp]: "idle_rel d x y \<longleftrightarrow> y = ASE_STATE_IDLE"

text \<open>A step of an endpoint, with facts about the entry it starts from.\<close>

definition at_state :: "u8 \<Rightarrow> u8 \<Rightarrow> u8 \<Rightarrow> u8 \<Rightarrow> u8 \<Rightarrow> bool" where
  [simp]: "at_state d0 x0 d x y \<longleftrightarrow> d = d0 \<and> x = x0 \<and> y = x0"

lemma put_same:
  assumes "get_ase s p = Some e" "same_place e e'" "e_ase_state e' = e_ase_state e" "ent_ok good e \<Longrightarrow> ent_ok good e'"
  shows "ase_step good p (at_state (e_direction e) (e_ase_state e)) s (put_ase p e' s)"
  using assms by (intro ase_step_put) auto

lemma ent_ok_plain:
  "ent_ok good e \<Longrightarrow> ent_ok good (e\<lparr>e_cis_conn_handle := c\<rparr>)"
  "ent_ok good e \<Longrightarrow> ent_ok good (e\<lparr>e_added_path_direction := a\<rparr>)"
  "ent_ok good e \<Longrightarrow> ent_ok good (e\<lparr>e_app_handshake := b\<rparr>)"
  "ent_ok good e \<Longrightarrow> ent_ok good (e\<lparr>e_app_handshake_rec := b\<rparr>)"
  "ent_ok good e \<Longrightarrow> ent_ok good (e\<lparr>e_min_transport_latency := m\<rparr>)"
  by (simp_all add: ent_ok_def)

lemma step_emit: "ase_step good p L s t \<Longrightarrow> ase_step good p L s (emit ev t)"
  by (erule ase_step_after_db) simp

lemma emit_step: "ase_step good p L (emit ev s) t \<Longrightarrow> ase_step good p L s t"
proof -
  assume st: "ase_step good p L (emit ev s) t"
  have "ase_step good p stays s (emit ev s)" by (rule ase_step_db) simp_all
  then show ?thesis by (rule ase_step_trans [OF _ st]) simp
qed

lemma streaming_moves: "ase_switch_to_streaming en conn p s = Some (r, s') \<Longrightarrow> ase_step good p added_rel s s'"
  by (drule switch_streaming_step) (erule ase_step_mono, simp add: op_rel_def split: if_split_asm)

lemma qos_moves: "ase_switch_to_qos_cfg en conn p s = Some (r, s') \<Longrightarrow> ase_step good p removed_rel s s'"
  by (drule switch_qos_step) (erule ase_step_mono, simp add: op_rel_def split: if_split_asm)

lemma check_keeps:
  assumes "ascs_check_current_state en conn p s = Some s'" "get_ase s p = Some e" "e_ase_state e \<noteq> ASE_STATE_RELEASING"
  shows "ase_step good p stays s s'"
proof -
  have "ase_step good p may_release s s'" by (rule check_state_step [OF assms(1)])
  then show ?thesis using assms(2,3) unfolding ase_step_def by fastforce
qed

lemma path_added_step:
  assumes "path_added en conn cause cis path p s = Some s'"
  shows "ase_step good p added_rel s s'"
proof -
  obtain e where e: "get_ase s p = Some e" using assms by (auto simp: path_added_def elim!: bind_SomeE)
  have id: "ase_step good p added_rel t t" for t by (rule ase_step_db) simp_all
  have put: "ase_step good p added_rel s (put_ase p (e\<lparr>e_added_path_direction := 0\<rparr>) s)"
    by (rule ase_step_mono [OF put_same [OF e]]) (auto simp: same_place_def ent_ok_plain)
  have chk: "ase_step good p added_rel s t" if "ascs_check_current_state en conn p s = Some t" "e_ase_state e = ASE_STATE_ENABLING" for t
    by (rule ase_step_mono [OF check_keeps [OF that(1) e]]) (use that(2) in auto)
  have sw: "ase_step good p added_rel s t" if "ase_switch_to_streaming en conn p (emit ev s) = Some (r, t)" for ev r t
    by (rule emit_step [OF streaming_moves [OF that]])
  show ?thesis
    using assms unfolding path_added_def e Option.bind.bind_lunit Let_def
    by (auto split: if_split_asm intro: id put chk sw step_emit [OF id])
qed

lemma path_removed_step:
  assumes "path_removed en conn cis path p s = Some s'"
  shows "ase_step good p removed_rel s s'"
proof -
  obtain e where e: "get_ase s p = Some e" using assms by (auto simp: path_removed_def elim!: bind_SomeE)
  have id: "ase_step good p stays s s" by simp
  show ?thesis
  proof (cases "e_cis_conn_handle e = cis")
    case False
    then have "s' = s" using assms e by (simp add: path_removed_def)
    then show ?thesis by (auto intro: ase_step_mono [OF id])
  next
    case True
    obtain s1 e1 where s1: "(if e_added_path_direction e = path then
                  Some (put_ase p (e\<lparr>e_added_path_direction := 0\<rparr>)
                    (emit (Ev_msg (Msg_remove_data_path conn (e_ase_id e) (e_added_path_direction e) cis)) s))
                else if e_ase_state e = ASE_STATE_RELEASING then
                  (let (found, info) = isoch_info_of en s e
                   in if found \<and> i_state info = ISOCH_STATE_CONN \<and> i_data_path_flags info \<noteq> 0 \<and>
                         \<not> i_data_path_removing info \<and> has (i_data_path_flags info) (data_path_flag e)
                      then map_option snd (ascs_remove_data_path en p s) else Some s)
                else Some s) = Some s1"
      and e1: "get_ase s1 p = Some e1"
      and fin: "(if e_ase_state e1 = ASE_STATE_DISABLING \<and> ase_sm_check_iosch_status en ASE_SM_CHECK_DISABLE e1 s1
         then map_option snd (ase_switch_to_qos_cfg en conn p s1) else Some s1) = Some s'"
      using assms e True unfolding path_removed_def by (auto elim!: bind_SomeE)
    have "ase_step good p stays s (put_ase p (e\<lparr>e_added_path_direction := 0\<rparr>) (emit ev s))" for ev
      by (rule emit_step [OF ase_step_mono [OF put_same [of _ _ e]]]) (use e in \<open>auto simp: same_place_def ent_ok_plain\<close>)
    moreover have "ase_step good p stays s t" if "ascs_remove_data_path en p s = Some (r, t)" for r t
      by (rule ase_step_db [OF remove_path_db [OF that]]) simp
    ultimately have one: "ase_step good p stays s s1"
      using s1 id by (auto simp: Let_def split: if_split_asm prod.split_asm)
    have "ase_step good p removed_rel s1 s'"
      using fin by (auto split: if_split_asm intro: qos_moves ase_step_mono [OF stays_id])
    then show ?thesis by (rule ase_step_trans [OF one]) auto
  qed
qed

lemma channel_lost_step:
  assumes "channel_lost en conn cis p x = Some x'"
  shows "ase_step good p lost_rel (snd x) (snd x')"
proof -
  define s where "s = snd x"
  obtain e where e: "get_ase s p = Some e" using assms by (auto simp: channel_lost_def s_def elim!: bind_SomeE)
  show ?thesis
  proof (cases "e_cis_conn_handle e = cis")
    case False
    then show ?thesis using assms e by (auto simp: channel_lost_def s_def intro: ase_step_db)
  next
    case True
    let ?e1 = "e\<lparr>e_cis_conn_handle := 0\<rparr>"
    let ?s1 = "put_ase p ?e1 s"
    define e2 where "e2 = (if e_added_path_direction e \<noteq> 0 then ?e1\<lparr>e_added_path_direction := 0\<rparr> else ?e1)"
    define s2 where "s2 = (if e_added_path_direction e \<noteq> 0 then put_ase p e2
        (emit (Ev_msg (Msg_remove_data_path conn (e_ase_id e) (e_added_path_direction e) cis)) ?s1) else ?s1)"
    have pair: "(if e_added_path_direction e \<noteq> 0 then
            (?e1\<lparr>e_added_path_direction := 0\<rparr>,
             put_ase p (?e1\<lparr>e_added_path_direction := 0\<rparr>)
               (emit (Ev_msg (Msg_remove_data_path conn (e_ase_id e) (e_added_path_direction e) cis)) ?s1))
          else (?e1, ?s1)) = (e2, s2)"
      by (simp add: e2_def s2_def)
    have gx: "get_ase (snd x) p = Some e" using e by (simp add: s_def)
    have "(do {
        s3 \<leftarrow> (if e_ase_state e2 = ASE_STATE_RELEASING then map_option snd (ase_action_released en conn p s2)
               else if e_ase_state e2 = ASE_STATE_STREAMING \<or> e_ase_state e2 = ASE_STATE_DISABLING then
                 notify_and_check en conn p (put_ase p (ascs_change_state ASE_STATE_QOS_CONFIGURED e2) s2)
               else Some s2);
        Some (True, s3) }) = Some x'"
      using assms True unfolding channel_lost_def gx Option.bind.bind_lunit Let_def pair [unfolded s_def] by simp
    then obtain s3 where s3: "(if e_ase_state e2 = ASE_STATE_RELEASING then map_option snd (ase_action_released en conn p s2)
               else if e_ase_state e2 = ASE_STATE_STREAMING \<or> e_ase_state e2 = ASE_STATE_DISABLING then
                 notify_and_check en conn p (put_ase p (ascs_change_state ASE_STATE_QOS_CONFIGURED e2) s2)
               else Some s2) = Some s3" "x' = (True, s3)"
      by (elim bind_SomeE) simp
    have st2: "e_ase_state e2 = e_ase_state e" "same_place e e2" "ent_ok good e \<Longrightarrow> ent_ok good e2"
      by (auto simp: e2_def same_place_def ent_ok_plain)
    have g2: "get_ase s2 p = Some e2" using e by (simp add: s2_def e2_def)
    have one: "ase_step good p (at_state (e_direction e) (e_ase_state e)) s ?s1"
      by (rule put_same [OF e]) (auto simp: same_place_def ent_ok_plain)
    have "ase_step good p stays ?s1 (put_ase p (?e1\<lparr>e_added_path_direction := 0\<rparr>) (emit ev ?s1))" for ev
      by (rule emit_step [OF ase_step_mono [OF put_same [where e = ?e1]]]) (use e in \<open>auto simp: same_place_def ent_ok_plain\<close>)
    then have two: "ase_step good p stays ?s1 s2" by (auto simp: s2_def e2_def)
    have three: "ase_step good p lost_rel s2 s3"
    proof (cases "e_ase_state e2 = ASE_STATE_RELEASING")
      case True
      then obtain r where "ase_action_released en conn p s2 = Some (r, s3)" using s3 by auto
      from released_step [OF this] show ?thesis
        by (rule ase_step_mono) (auto split: if_split_asm)
    next
      case rel: False
      show ?thesis
      proof (cases "e_ase_state e2 = ASE_STATE_STREAMING \<or> e_ase_state e2 = ASE_STATE_DISABLING")
        case True
        then have n: "notify_and_check en conn p (put_ase p (ascs_change_state ASE_STATE_QOS_CONFIGURED e2) s2) = Some s3"
          using s3 rel by (auto split: if_split_asm)
        show ?thesis
          by (rule change_step [OF n g2]) (use True in \<open>auto intro: ent_ok_change(3)\<close>)
      qed (use s3 rel in \<open>auto intro: ase_step_db\<close>)
    qed
    have "ase_step good p (at_state (e_direction e) (e_ase_state e)) s s2" by (rule ase_step_trans [OF one two]) simp
    then have "ase_step good p lost_rel s s3" by (rule ase_step_trans [OF _ three]) simp
    then show ?thesis using s3(2) by (simp add: s_def)
  qed
qed

lemma pending_one_step: "pending_one en p s = Some s' \<Longrightarrow> ase_step good p stays s s'"
  by (auto simp: pending_one_def elim!: bind_SomeE intro!: ase_step_db)

lemma tell_state_db: "tell_state conn i s = Some s' \<Longrightarrow> same_db s s'"
  by (auto simp: tell_state_def elim!: bind_SomeE split: option.split)

lemma drop_ase_step:
  assumes "drop_ase conn p s = Some s'"
  shows "ase_step good p idle_rel s s'"
proof -
  obtain e where e: "get_ase s p = Some e" using assms by (auto simp: drop_ase_def elim!: bind_SomeE)
  obtain s1 e1 where s1: "(if e_ase_state e \<noteq> ASE_STATE_IDLE \<and> e_ase_state e \<noteq> ASE_STATE_RELEASING
            then tell_state conn (e_ase_id e) (put_ase p (ascs_change_state ASE_STATE_RELEASING e) s)
            else Some s) = Some s1"
    and e1: "get_ase s1 p = Some e1"
    and fin: "(if e_ase_state e1 \<noteq> ASE_STATE_IDLE
      then tell_state conn (e_ase_id e1) (put_ase p (ascs_change_state ASE_STATE_IDLE e1) s1)
      else Some s1) = Some s'"
    using assms e unfolding drop_ase_def by (auto elim!: bind_SomeE)
  define M where "M d x y \<longleftrightarrow> y = x \<and> (x = ASE_STATE_IDLE \<or> x = ASE_STATE_RELEASING) \<or> y = ASE_STATE_RELEASING" for d x y :: u8
  have one: "ase_step good p M s s1"
  proof (cases "e_ase_state e \<noteq> ASE_STATE_IDLE \<and> e_ase_state e \<noteq> ASE_STATE_RELEASING")
    case True
    have "ase_step good p M s (put_ase p (ascs_change_state ASE_STATE_RELEASING e) s)"
      using True by (intro ase_step_put [OF e]) (auto simp: M_def change_state_sets same_place_def intro: ent_ok_change(6))
    then show ?thesis by (rule ase_step_after_db) (use s1 True in \<open>auto dest: tell_state_db\<close>)
  next
    case False
    then have "s1 = s" using s1 by (auto split: if_split_asm)
    moreover have "ase_step good p (at_state (e_direction e) (e_ase_state e)) s s"
      using e by (auto simp: ase_step_def same_shape_def)
    ultimately show ?thesis using False by (auto simp: M_def elim!: ase_step_mono)
  qed
  have mid: "e_ase_state e1 = ASE_STATE_IDLE \<or> e_ase_state e1 = ASE_STATE_RELEASING"
    using one e e1 unfolding ase_step_def M_def by fastforce
  have "ase_step good p idle_rel s1 s'"
  proof (cases "e_ase_state e1 = ASE_STATE_IDLE")
    case True
    then have "s' = s1" using fin by simp
    then show ?thesis using e1 True by (auto simp: ase_step_def same_shape_def)
  next
    case False
    have "ase_step good p idle_rel s1 (put_ase p (ascs_change_state ASE_STATE_IDLE e1) s1)"
      using False mid by (intro ase_step_put [OF e1]) (auto simp: change_state_sets same_place_def intro: ent_ok_change(1))
    then show ?thesis by (rule ase_step_after_db) (use fin False in \<open>auto dest: tell_state_db\<close>)
  qed
  then show ?thesis by (rule ase_step_trans [OF one]) simp
qed

lemma notify_pending_step:
  assumes "notify_pending en conn p x = Some x'"
  shows "ase_step good p stays (snd x) (snd x')"
proof -
  have "same_db (snd x) (snd x')"
    using assms by (auto simp: notify_pending_def Let_def elim!: bind_SomeE split: if_split_asm option.split_asm
        dest!: gen_char_data_db ase_notify_db) (blast intro: same_db_trans)+
  then show ?thesis by (rule ase_step_db) simp
qed

interpretation added_loop: table_loop "path_added en conn cause cis path" "\<lambda>s. s" good added_rel
  for en conn cause cis path good by unfold_locales (rule path_added_step)

interpretation removed_loop: table_loop "path_removed en conn cis path" "\<lambda>s. s" good removed_rel
  for en conn cis path good by unfold_locales (rule path_removed_step)

interpretation lost_loop: table_loop "channel_lost en conn cis" snd good lost_rel
  for en conn cis good by unfold_locales (rule channel_lost_step)

interpretation pending_loop: table_loop "pending_one en" "\<lambda>s. s" good stays
  for en good by unfold_locales (rule pending_one_step)

interpretation drop_loop: table_loop "drop_ase conn" "\<lambda>s. s" good idle_rel
  for conn good by unfold_locales (rule drop_ase_step)

interpretation notify_loop: table_loop "notify_pending en conn" snd good stays
  for en conn good by unfold_locales (rule notify_pending_step)

text \<open>The operation a request of the client stands for.\<close>

fun op_code :: "ase_op \<Rightarrow> u8" where
  "op_code (Op_cfg_codec prm dat) = ASE_CP_OP_CONFIG_CODEC"
| "op_code (Op_cfg_qos q) = ASE_CP_OP_CONFIG_QOS"
| "op_code (Op_enable n md) = ASE_CP_OP_ENABLE"
| "op_code Op_rec_start_ready = ASE_CP_OP_REC_START_READY"
| "op_code Op_disable = ASE_CP_OP_DISABLE"
| "op_code Op_rec_stop_ready = ASE_CP_OP_REC_STOP_READY"
| "op_code (Op_update_metadata n md) = ASE_CP_OP_UPDATE_METADATA"
| "op_code Op_release = ASE_CP_OP_RELEASE"
| "op_code _ = ASE_CP_OP_NONE"

definition cp_rel :: "u8 \<Rightarrow> u8 \<Rightarrow> u8 \<Rightarrow> u8 \<Rightarrow> bool" where
  "cp_rel c d x y \<longleftrightarrow> c \<noteq> ASE_CP_OP_NONE \<and> (\<exists>op r. op_code op = c \<and> op_rel op r d x y)"

fun cp_kind :: "u8 \<Rightarrow> cp_param \<Rightarrow> bool" where
  "cp_kind c (Cp_codec p b g) \<longleftrightarrow> c = ASE_CP_OP_CONFIG_CODEC"
| "cp_kind c (Cp_qos i q) \<longleftrightarrow> c = ASE_CP_OP_CONFIG_QOS"
| "cp_kind c (Cp_metadata i n b) \<longleftrightarrow> c = ASE_CP_OP_ENABLE \<or> c = ASE_CP_OP_UPDATE_METADATA"
| "cp_kind c (Cp_id i) \<longleftrightarrow> c = ASE_CP_OP_REC_START_READY \<or> c = ASE_CP_OP_REC_STOP_READY \<or> c = ASE_CP_OP_DISABLE \<or> c = ASE_CP_OP_RELEASE"

text \<open>A call is an operation on an endpoint, after its latency was set in a codec configuration.\<close>

fun cp_op_of :: "u8 \<Rightarrow> cp_param \<Rightarrow> ase_op" where
  "cp_op_of c (Cp_codec p b g) = Op_cfg_codec p b"
| "cp_op_of c (Cp_qos i q) = Op_cfg_qos q"
| "cp_op_of c (Cp_metadata i n b) = (if c = ASE_CP_OP_ENABLE then Op_enable n b else Op_update_metadata n b)"
| "cp_op_of c (Cp_id i) = (if c = ASE_CP_OP_REC_START_READY then Op_rec_start_ready
     else if c = ASE_CP_OP_REC_STOP_READY then Op_rec_stop_ready
     else if c = ASE_CP_OP_DISABLE then Op_disable else Op_release)"

lemma op_code_of: "cp_kind c x \<Longrightarrow> op_code (cp_op_of c x) = c"
  by (cases x) auto

definition before_call :: "u16 \<Rightarrow> cp_param \<Rightarrow> ase_ptr \<Rightarrow> st \<Rightarrow> st option" where
  "before_call m x p s = (case x of Cp_codec c b g \<Rightarrow> set_min_latency m p s | _ \<Rightarrow> Some s)"

lemma cp_call_exec:
  "cp_call en conn c m x p s = do { s1 \<leftarrow> before_call m x p s; ase_exec en conn p (cp_op_of c x) s1 }"
  by (cases x) (simp_all add: before_call_def)

lemma before_call_step:
  assumes "before_call m x p s = Some s'"
  shows "ase_step good p stays s s'"
proof (cases x)
  case (Cp_codec c b g)
  then obtain e where "get_ase s p = Some e" "s' = put_ase p (e\<lparr>e_min_transport_latency := m\<rparr>) s"
    using assms by (auto simp: before_call_def set_min_latency_def elim!: bind_SomeE)
  then show ?thesis by (auto intro!: ase_step_put simp: same_place_def ent_ok_plain)
qed (use assms in \<open>auto simp: before_call_def\<close>)

lemma cp_call_step:
  assumes "cp_call en conn c m x p s = Some (r, s')" "good \<Longrightarrow> good_mem en"
  shows "ase_step good p (op_rel (cp_op_of c x) r) s s'"
proof -
  obtain s1 where s1: "before_call m x p s = Some s1" "ase_exec en conn p (cp_op_of c x) s1 = Some (r, s')"
    using assms(1) by (auto simp: cp_call_exec elim!: bind_SomeE)
  show ?thesis by (rule ase_step_trans [OF before_call_step [OF s1(1)] ase_exec_step [OF s1(2) assms(2)]]) simp_all
qed

interpretation client_loop: request_loop "cp_call en conn c m" "cp_kind c" "good_mem en" "cp_rel c"
  for en conn c m
proof unfold_locales
  fix x p s r s' assume k: "cp_kind c x" and x: "cp_call en conn c m x p s = Some (r, s')"
  have "c \<noteq> ASE_CP_OP_NONE" using k by (cases x) auto
  then have rel: "op_rel (cp_op_of c x) r d y z \<Longrightarrow> cp_rel c d y z" for d y z
    using op_code_of [OF k] by (auto simp: cp_rel_def)
  show "ase_step (good_mem en) p (cp_rel c) s s'"
    by (rule ase_step_mono [OF cp_call_step [OF x]]) (simp_all add: rel)
qed

section \<open>What an event may do to an endpoint\<close>

lemma step_all:
  assumes "ase_step good p L s s'" "\<And>d x y. L d x y \<Longrightarrow> M d x y" "\<And>d x. M d x x"
  shows "ase_moves good (\<lambda>_. True) M s s'"
  using assms(1) unfolding step_moves by (rule ase_moves_mono) (auto simp: assms(2,3))

lemma moves_all: "ase_moves good A L s s' \<Longrightarrow> (\<And>d x. L d x x) \<Longrightarrow> ase_moves good (\<lambda>_. True) L s s'"
  by (erule ase_moves_mono) simp_all

lemma on_ase_moves:
  assumes "on_ase f conn i s = Some (r, s')" "\<And>p r t. f p s = Some (r, t) \<Longrightarrow> ase_step good p L s t"
    "\<And>d x y. L d x y \<Longrightarrow> M d x y" "\<And>d x. M d x x"
  shows "ase_moves good (\<lambda>_. True) M s s'"
proof -
  obtain q where q: "(case q of None \<Rightarrow> Some (False, s) | Some p \<Rightarrow> f p s) = Some (r, s')"
    using assms(1) by (auto simp: on_ase_def elim!: bind_SomeE)
  show ?thesis
  proof (cases q)
    case None
    then show ?thesis using q assms(4) by (auto intro: ase_moves_refl)
  next
    case (Some p)
    then have "f p s = Some (r, s')" using q by simp
    from assms(2) [OF this] show ?thesis by (rule step_all) (simp_all add: assms(3,4))
  qed
qed

definition any_rel :: "ase_op \<Rightarrow> u8 \<Rightarrow> u8 \<Rightarrow> u8 \<Rightarrow> bool" where
  "any_rel op d x y \<longleftrightarrow> (\<exists>r. op_rel op r d x y)"

lemma any_refl [simp]: "any_rel op d x x"
  unfolding any_rel_def by (rule exI [of _ False]) (rule no_move)

fun app_rel :: "app_call \<Rightarrow> u8 \<Rightarrow> u8 \<Rightarrow> u8 \<Rightarrow> bool" where
  "app_rel (App_cfg_codec c i prm dat) d x y \<longleftrightarrow> any_rel (Op_cfg_codec prm dat) d x y"
| "app_rel (App_disable c i) d x y \<longleftrightarrow> any_rel Op_disable d x y"
| "app_rel (App_release c i) d x y \<longleftrightarrow> any_rel Op_release d x y"
| "app_rel (App_release_by_cig c g) d x y \<longleftrightarrow> any_rel Op_release d x y"
| "app_rel (App_update_metadata c i n md) d x y \<longleftrightarrow> y = x"
| "app_rel (App_ctl_handshake c i b) d x y \<longleftrightarrow> y = x"
| "app_rel (App_rec_start_ready c i) d x y \<longleftrightarrow> added_rel d x y \<or> may_release d x y"
| "app_rel (App_rec_stop_ready c i) d x y \<longleftrightarrow> removed_rel d x y \<or> may_release d x y"
| "app_rel (App_prefer_qos c i pq) d x y \<longleftrightarrow> y = x"

lemma app_rel_refl: "app_rel a d x x"
  by (cases a) auto

lemma exec_rel:
  assumes "ase_exec en conn p op s = Some (r, s')"
  shows "ase_step (good_mem en) p (any_rel op) s s'"
  by (rule ase_step_mono [OF ase_exec_step [OF assms]]) (auto simp: any_rel_def)

lemma action_release_step:
  assumes "(do {
     e \<leftarrow> get_ase s p;
     let (ret, info) = isoch_info_of en s e;
     (if ret \<and> i_state info = ISOCH_STATE_CONN \<and> has (i_data_path_flags info) (release_flag e) then Some (False, s)
      else do {
        (r, s1) \<leftarrow> ase_action_release en conn p s;
        (if \<not> r then Some (False, s1)
         else do {
           e1 \<leftarrow> get_ase s1 p;
           Some (True, if channel_up info then emit (Ev_cis_disconnect (e_cis_conn_handle e1)) s1 else s1)
         })
      }) }) = Some (r, s')"
  shows "ase_step (good_mem en) p (any_rel Op_release) s s'"
proof -
  obtain e where e: "get_ase s p = Some e" using assms by (auto elim!: bind_SomeE)
  obtain ret info where i: "isoch_info_of en s e = (ret, info)" by force
  show ?thesis
  proof (cases "ret \<and> i_state info = ISOCH_STATE_CONN \<and> has (i_data_path_flags info) (release_flag e)")
    case True
    then have "s' = s" using assms e i by simp
    then show ?thesis by (auto intro: ase_step_db)
  next
    case False
    then obtain ok s1 where s1: "ase_action_release en conn p s = Some (ok, s1)"
      and c: "(if \<not> ok then Some (False, s1)
         else do {
           e1 \<leftarrow> get_ase s1 p;
           Some (True, if channel_up info then emit (Ev_cis_disconnect (e_cis_conn_handle e1)) s1 else s1)
         }) = Some (r, s')"
      using assms e i by (auto elim!: bind_SomeE)
    have one: "ase_step (good_mem en) p (any_rel Op_release) s s1"
      using exec_rel [of en conn p Op_release s ok s1] s1 by simp
    have "s' = s1 \<or> (\<exists>ev. s' = emit ev s1)"
      using c by (cases ok; cases "channel_up info") (auto elim!: bind_SomeE)
    then show ?thesis using one step_emit [OF one] by blast
  qed
qed

lemma release_cig_moves:
  assumes "release_cig_loop en conn g l is ret s = Some (r, s')" "distinct is"
  shows "ase_moves (good_mem en) (\<lambda>q. fst q = l \<and> snd q \<in> set is) (any_rel Op_release) s s'"
  using assms
proof (induction "is" arbitrary: ret s)
  case Nil
  then show ?case by (auto intro: ase_moves_refl)
next
  case (Cons i "is")
  let ?R = "any_rel Op_release"
  obtain e where e: "get_ase s (l, i) = Some e" using Cons.prems(1) by (auto elim!: bind_SomeE)
  have skip: "ase_moves (good_mem en) (\<lambda>q. fst q = l \<and> snd q \<in> set (i # is)) ?R s s'"
    if "release_cig_loop en conn g l is ret s = Some (r, s')" for ret
    by (rule ase_moves_mono [OF Cons.IH [OF that]]) (use Cons.prems(2) in auto)
  show ?case
  proof (cases "e_ase_state e < ASE_STATE_QOS_CONFIGURED \<or> e_ase_state e = ASE_STATE_RELEASING \<or> s_cig_id (e_qos_state_data e) \<noteq> g")
    case True
    then show ?thesis using Cons.prems(1) e by (intro skip) auto
  next
    case False
    then obtain ok s1 where s1: "ase_action_release en conn (l, i) s = Some (ok, s1)"
      and c: "(if \<not> ok then Some (False, s1)
         else do {
           e1 \<leftarrow> get_ase s1 (l, i);
           let (found, info) = isoch_info_of en s1 e1;
           release_cig_loop en conn g l is True
             (if found \<and> channel_up info then emit (Ev_cis_disconnect (e_cis_conn_handle e1)) s1 else s1)
         }) = Some (r, s')"
      using Cons.prems(1) e by (auto elim!: bind_SomeE)
    have one: "ase_step (good_mem en) (l, i) ?R s s1" using exec_rel [of en conn "(l, i)" Op_release s ok s1] s1 by simp
    show ?thesis
    proof (cases ok)
      case False
      then have "s' = s1" using c by simp
      then have "ase_moves (good_mem en) (\<lambda>q. q = (l, i)) ?R s s'" using one by (simp add: step_moves)
      then show ?thesis by (rule ase_moves_mono) simp_all
    next
      case True
      then obtain s2 where s2: "s2 = s1 \<or> (\<exists>ev. s2 = emit ev s1)" "release_cig_loop en conn g l is True s2 = Some (r, s')"
      proof -
        obtain e1 where e1: "get_ase s1 (l, i) = Some e1" using c True by (auto elim!: bind_SomeE)
        obtain found info where "isoch_info_of en s1 e1 = (found, info)" by force
        then show thesis using that c True e1 by (cases "found \<and> channel_up info") auto
      qed
      have "ase_step (good_mem en) (l, i) ?R s s2" using s2(1) one step_emit by auto
      then have "ase_moves (good_mem en) (\<lambda>q. q = (l, i)) ?R s s2" by (simp add: step_moves)
      then show ?thesis
        by (rule ase_moves_trans [OF _ Cons.IH [OF s2(2)]]) (use Cons.prems(2) in auto)
    qed
  qed
qed

lemma ready_step:
  assumes "get_ase s p = Some e"
    "(let e1 = e\<lparr>e_app_handshake_rec := True\<rparr>; s1 = put_ase p e1 s
      in (if ase_sm_check_iosch_status en ty e1 s1 then map_option (\<lambda>x. (True, snd x)) (sw s1)
          else map_option (Pair True) (ascs_check_current_state en conn p s1))) = Some (r, s')"
    "\<And>s1 r t. sw s1 = Some (r, t) \<Longrightarrow> ase_step good p L s1 t"
  shows "ase_step good p (\<lambda>d x y. L d x y \<or> may_release d x y) s s'"
proof -
  let ?s1 = "put_ase p (e\<lparr>e_app_handshake_rec := True\<rparr>) s"
  have one: "ase_step good p (at_state (e_direction e) (e_ase_state e)) s ?s1"
    by (rule put_same [OF assms(1)]) (auto simp: same_place_def ent_ok_plain)
  have "(\<exists>r. sw ?s1 = Some (r, s')) \<or> ascs_check_current_state en conn p ?s1 = Some s'"
    using assms(2) by (auto simp: Let_def split: if_split_asm)
  then have "ase_step good p (\<lambda>d x y. L d x y \<or> may_release d x y) ?s1 s'"
    using assms(3) check_state_step by (elim disjE exE) (blast intro: ase_step_mono)+
  then show ?thesis by (rule ase_step_trans [OF one]) simp
qed

lemma app_moves:
  assumes "app_exec en a s = Some (r, s')"
  shows "ase_moves (good_mem en) (\<lambda>_. True) (app_rel a) s s'"
proof (cases a)
  case (App_cfg_codec c i prm dat)
  have "on_ase (\<lambda>p. ase_action_cfg_codec en c p prm dat) c i s = Some (r, s')"
    using assms by (simp add: App_cfg_codec ascs_action_cfg_codec_def)
  then show ?thesis
    by (rule on_ase_moves [where L = "any_rel (Op_cfg_codec prm dat)"])
       (use exec_rel [of en c _ "Op_cfg_codec prm dat"] in \<open>simp_all add: App_cfg_codec\<close>)
next
  case (App_disable c i)
  have "on_ase (ase_action_disable en c) c i s = Some (r, s')"
    using assms by (simp add: App_disable ascs_action_disable_def)
  then show ?thesis
    by (rule on_ase_moves [where L = "any_rel Op_disable"])
       (use exec_rel [of en c _ Op_disable] in \<open>simp_all add: App_disable\<close>)
next
  case (App_release c i)
  show ?thesis
    using assms unfolding App_release app_exec.simps ascs_action_release_def
    by (rule on_ase_moves [OF _ action_release_step]) simp_all
next
  case (App_release_by_cig c g)
  define q where "q = link_table c s"
  have q: "(case q of None \<Rightarrow> Some (False, s) | Some (l, u) \<Rightarrow>
      (if ase_total s > 255 then None else release_cig_loop en c g l [0..<ase_total s] False s)) = Some (r, s')"
    using assms by (simp add: App_release_by_cig ascs_action_release_by_cig_def q_def)
  show ?thesis
  proof (cases q)
    case None
    then show ?thesis using q by (auto simp: App_release_by_cig intro: ase_moves_refl)
  next
    case (Some lt)
    then have "release_cig_loop en c g (fst lt) [0..<ase_total s] False s = Some (r, s')"
      using q by (auto split: if_split_asm prod.split_asm)
    then have "ase_moves (good_mem en) (\<lambda>q. fst q = fst lt \<and> snd q \<in> set [0..<ase_total s]) (any_rel Op_release) s s'"
      by (rule release_cig_moves) simp
    then show ?thesis by (rule ase_moves_mono) (simp_all add: App_release_by_cig)
  qed
next
  case (App_update_metadata c i n md)
  have "ase_step (good_mem en) p stays s t" if "ase_action_update_metadata en c p n md s = Some (r, t)" for p r t
    using exec_rel [of en c p "Op_update_metadata n md" s r t] that
    by (auto simp: op_rel_def any_rel_def split: if_split_asm elim!: ase_step_mono)
  then show ?thesis
    using assms unfolding App_update_metadata app_exec.simps ascs_action_update_metadata_def
    by (rule_tac on_ase_moves [where L = stays]) auto
next
  case (App_ctl_handshake c i b)
  have "ase_step (good_mem en) p stays s t"
    if x: "do { e \<leftarrow> get_ase s p; Some (True, put_ase p (e\<lparr>e_app_handshake := b\<rparr>) s) } = Some (r, t)" for p r t
  proof -
    obtain e where "get_ase s p = Some e" "t = put_ase p (e\<lparr>e_app_handshake := b\<rparr>) s"
      using x by (auto elim!: bind_SomeE)
    then show ?thesis by (auto intro!: ase_step_put simp: same_place_def ent_ok_plain)
  qed
  then show ?thesis
    using assms unfolding App_ctl_handshake app_exec.simps ascs_app_ctl_handshake_def
    by (rule_tac on_ase_moves [where L = stays]) auto
next
  case (App_rec_start_ready c i)
  show ?thesis
    using assms unfolding App_rec_start_ready app_exec.simps ascs_action_rec_start_ready_def
  proof (rule on_ase_moves [where L = "\<lambda>d x y. added_rel d x y \<or> may_release d x y"])
    fix p r t
    assume x: "do {
     e \<leftarrow> get_ase s p;
     (if \<not> ase_cp_check_sm_state (e_ase_state e) (e_direction e) ASE_CP_OP_REC_START_READY False then Some (False, s)
      else if e_app_handshake e then do {
        let e1 = e\<lparr>e_app_handshake_rec := True\<rparr>;
        let s1 = put_ase p e1 s;
        (if ase_sm_check_iosch_status en ASE_SM_CHECK_ENABLE e1 s1
         then map_option (\<lambda>x. (True, snd x)) (ase_switch_to_streaming en c p s1)
         else map_option (Pair True) (ascs_check_current_state en c p s1))
      } else Some (False, s)) } = Some (r, t)"
    then obtain e where e: "get_ase s p = Some e" by (auto elim!: bind_SomeE)
    show "ase_step (good_mem en) p (\<lambda>d x y. added_rel d x y \<or> may_release d x y) s t"
    proof (cases "t = s")
      case True
      then show ?thesis by (auto intro: ase_step_db)
    next
      case False
      with x e show ?thesis
        by (intro ready_step [OF e _ streaming_moves]) (auto simp: Let_def split: if_split_asm)
    qed
  qed auto
next
  case (App_rec_stop_ready c i)
  show ?thesis
    using assms unfolding App_rec_stop_ready app_exec.simps ascs_action_rec_stop_ready_def
  proof (rule on_ase_moves [where L = "\<lambda>d x y. removed_rel d x y \<or> may_release d x y"])
    fix p r t
    assume x: "do {
     e \<leftarrow> get_ase s p;
     (if \<not> ase_cp_check_sm_state (e_ase_state e) (e_direction e) ASE_CP_OP_REC_STOP_READY False then Some (False, s)
      else if e_app_handshake e then do {
        let e1 = e\<lparr>e_app_handshake_rec := True\<rparr>;
        let s1 = put_ase p e1 s;
        (if ase_sm_check_iosch_status en ASE_SM_CHECK_DISABLE e1 s1
         then map_option (\<lambda>x. (True, snd x)) (ase_switch_to_qos_cfg en c p s1)
         else map_option (Pair True) (ascs_check_current_state en c p s1))
      } else Some (False, s)) } = Some (r, t)"
    then obtain e where e: "get_ase s p = Some e" by (auto elim!: bind_SomeE)
    show "ase_step (good_mem en) p (\<lambda>d x y. removed_rel d x y \<or> may_release d x y) s t"
    proof (cases "t = s")
      case True
      then show ?thesis by (auto intro: ase_step_db)
    next
      case False
      with x e show ?thesis
        by (intro ready_step [OF e _ qos_moves]) (auto simp: Let_def split: if_split_asm)
    qed
  qed auto
next
  case (App_prefer_qos c i pq)
  have "ase_step (good_mem en) (0, 0) stays s s'"
    using assms by (simp add: App_prefer_qos cfg_prefer_step)
  then show ?thesis by (rule step_all) (simp_all add: App_prefer_qos)
qed

fun cig_rel :: "cig_msg \<Rightarrow> u8 \<Rightarrow> u8 \<Rightarrow> u8 \<Rightarrow> bool" where
  "cig_rel (Cis_established cause cis g i) d x y \<longleftrightarrow> may_release d x y"
| "cig_rel (Setup_data_path cause cis c path) d x y \<longleftrightarrow> added_rel d x y"
| "cig_rel (Remove_data_path cause cis c path) d x y \<longleftrightarrow> removed_rel d x y"
| "cig_rel Cis_disconnect d x y \<longleftrightarrow> y = x"
| "cig_rel (Cis_disconnect_info cause cis c g i) d x y \<longleftrightarrow> lost_rel d x y"
| "cig_rel (Cis_request cis c g i) d x y \<longleftrightarrow> y = x"

lemma cig_rel_refl [simp]: "cig_rel m d x x"
  by (cases m) auto

lemma join_channel_moves:
  assumes "join_channel en conn cis q s = Some s'"
  shows "ase_moves good (\<lambda>_. True) may_release s s'"
proof (cases q)
  case None
  then show ?thesis using assms by (auto simp: join_channel_def intro: ase_moves_refl)
next
  case (Some p)
  then obtain e where e: "get_ase s p = Some e"
    and c: "ascs_check_current_state en conn p (put_ase p (e\<lparr>e_cis_conn_handle := cis\<rparr>) s) = Some s'"
    using assms by (auto simp: join_channel_def elim!: bind_SomeE)
  have "ase_step good p (at_state (e_direction e) (e_ase_state e)) s (put_ase p (e\<lparr>e_cis_conn_handle := cis\<rparr>) s)"
    by (rule put_same [OF e]) (auto simp: same_place_def ent_ok_plain)
  then have "ase_step good p may_release s s'" by (rule ase_step_trans [OF _ check_state_step [OF c]]) simp
  then show ?thesis by (rule step_all) simp_all
qed

lemma moves_emit: "ase_moves good A L s t \<Longrightarrow> ase_moves good A L s (emit ev t)"
proof -
  assume st: "ase_moves good A L s t"
  have "ase_moves good (\<lambda>_. False) stays t (emit ev t)" by (rule moves_db) simp
  from ase_moves_trans [OF st this, of A L] show ?thesis by simp
qed

lemma cis_established_moves:
  assumes "cis_established en cis g i s = Some s'"
  shows "ase_moves good (\<lambda>_. True) may_release s s'"
proof -
  obtain c cg ci where io: "cis_of en (evlog s) cis = (c, cg, ci)" using prod_cases3 by blast
  obtain snk src s1 s2 where s1: "join_channel en (handle_of en (evlog s) c) cis snk s = Some s1"
    and s2: "join_channel en (handle_of en (evlog s) c) cis src s1 = Some s2"
    and s': "s' = (if snk = None \<and> src = None then s2 else emit (Ev_msg (Msg_cis_conn_info (handle_of en (evlog s) c) cis g i)) s2)"
    using assms by (auto simp: cis_established_def io Let_def elim!: bind_SomeE)
  have "ase_moves good (\<lambda>_. True) may_release s s2"
    by (rule ase_moves_trans [OF join_channel_moves [OF s1] join_channel_moves [OF s2]]) auto
  then show ?thesis using s' moves_emit by auto
qed

lemma cig_moves:
  assumes "ascs_handle_cig_mgr_msg en m s = Some (r, s')"
  shows "ase_moves good (\<lambda>_. True) (cig_rel m) s s'"
proof -
  have same: "ase_moves good (\<lambda>_. True) (cig_rel m) s s" by (rule ase_moves_refl) simp
  show ?thesis
  proof (cases m)
    case (Cis_established cause cis g i)
    show ?thesis
    proof (cases "cause = GAP_SUCCESS")
      case True
      then have "cis_established en cis g i s = Some s'"
        using assms by (auto simp: ascs_handle_cig_mgr_msg_def Cis_established)
      from cis_established_moves [OF this] show ?thesis by (rule ase_moves_mono) (simp_all add: Cis_established)
    qed (use assms same in \<open>simp add: ascs_handle_cig_mgr_msg_def Cis_established\<close>)
  next
    case (Setup_data_path cause cis c path)
    show ?thesis
    proof (cases "table_of_conn_id c s")
      case (Some lt)
      then have "for_table (path_added en (snd lt) cause cis path) (fst lt) (ase_total s) s = Some s'"
        using assms by (auto simp: ascs_handle_cig_mgr_msg_def Setup_data_path split: prod.split_asm)
      from added_loop.for_moves [OF this] show ?thesis by (rule ase_moves_mono) (auto simp: Setup_data_path)
    qed (use assms same in \<open>simp add: ascs_handle_cig_mgr_msg_def Setup_data_path\<close>)
  next
    case (Remove_data_path cause cis c path)
    show ?thesis
    proof (cases "cause = GAP_SUCCESS \<and> table_of_conn_id c s \<noteq> None")
      case True
      then obtain lt where "table_of_conn_id c s = Some lt" by auto
      then have "for_table (path_removed en (snd lt) cis path) (fst lt) (ase_total s) s = Some s'"
        using assms True by (auto simp: ascs_handle_cig_mgr_msg_def Remove_data_path split: prod.split_asm)
      from removed_loop.for_moves [OF this] show ?thesis by (rule ase_moves_mono) (auto simp: Remove_data_path)
    next
      case False
      then have "s' = s"
        using assms by (cases "table_of_conn_id c s") (auto simp: ascs_handle_cig_mgr_msg_def Remove_data_path split: if_split_asm)
      then show ?thesis using same by simp
    qed
  next
    case Cis_disconnect
    then show ?thesis using assms same by (simp add: ascs_handle_cig_mgr_msg_def)
  next
    case (Cis_disconnect_info cause cis c g i)
    show ?thesis
    proof (cases "table_of_conn_id c s")
      case (Some lt)
      then obtain sent s1 where s1: "for_table (channel_lost en (snd lt) cis) (fst lt) (ase_total s) (False, s) = Some (sent, s1)"
        and s': "s' = (if sent then emit (Ev_msg (Msg_cis_disconn_info (snd lt) cis cause g i)) s1 else s1)"
        using assms by (auto simp: ascs_handle_cig_mgr_msg_def Cis_disconnect_info split: prod.split_asm elim!: bind_SomeE)
      have "ase_moves good (\<lambda>q. fst q = fst lt \<and> snd q < ase_total s) lost_rel s s1"
        using lost_loop.for_moves [OF s1] by simp
      then have "ase_moves good (\<lambda>_. True) lost_rel s s1" by (rule ase_moves_mono) auto
      then have "ase_moves good (\<lambda>_. True) lost_rel s s'" using s' moves_emit by auto
      then show ?thesis by (rule ase_moves_mono) (auto simp: Cis_disconnect_info)
    qed (use assms same in \<open>simp add: ascs_handle_cig_mgr_msg_def Cis_disconnect_info\<close>)
  next
    case (Cis_request cis c g i)
    have "s' = s \<or> (\<exists>ev. s' = emit ev s)"
      using assms by (auto simp: ascs_handle_cig_mgr_msg_def Cis_request cis_request_def Let_def elim!: bind_SomeE split: if_split_asm)
    then show ?thesis using same moves_emit [OF same] by auto
  qed
qed

lemma handle_cp_moves:
  assumes "ase_handle_remote_cp en conn cp s = Some s'" "\<And>x. x \<in> set (cp_params cp) \<Longrightarrow> cp_kind (cp_op cp) x"
  shows "ase_moves (good_mem en) (\<lambda>_. True) (\<lambda>d. (cp_rel (cp_op cp) d)\<^sup>*\<^sup>*) s s'"
proof -
  obtain m where "cp_each (cp_call en conn (cp_op cp) m) conn (cp_params cp) s = Some s'"
    using assms(1) by (auto simp: ase_handle_remote_cp_def elim!: bind_SomeE split: if_split_asm)
  then show ?thesis using assms(2) by (rule client_loop.each_moves)
qed

lemma cp_at_kind: "cp_at op d i x \<Longrightarrow> cp_kind op x"
  by (cases x) auto

lemma write_moves:
  assumes "ascs_attr_write_cb en pacs conn i len v s = Some (r, s')" "\<And>d. v = Some d \<Longrightarrow> length d \<le> max_request"
  shows "ase_moves (good_mem en) (\<lambda>_. True) (\<lambda>d. case v of None \<Rightarrow> stays d | Some b \<Rightarrow> (cp_rel (b ! 0) d)\<^sup>*\<^sup>*) s s'"
proof (cases "i = 2 \<and> v \<noteq> None")
  case False
  then have "s' = s" using assms(1) by (auto simp: ascs_attr_write_cb_def split: if_split_asm)
  then show ?thesis by (auto intro: ase_moves_refl split: option.split)
next
  case True
  then obtain b where b: "v = Some b" by auto
  obtain q s1 where q: "ase_check_cp_data en pacs conn b len s = Some (q, s1)"
    and c: "(case q of None \<Rightarrow> Some (APP_RESULT_SUCCESS, s1)
           | Some c \<Rightarrow> map_option (Pair APP_RESULT_SUCCESS) (ase_handle_remote_cp en conn c s1)) = Some (r, s')"
    using assms(1) True b by (auto simp: ascs_attr_write_cb_def elim!: bind_SomeE)
  note len = assms(2) [OF b]
  have db: "same_db s s1"
    using q by (rule check_cp_cases [OF _ len]) auto
  have "ase_moves (good_mem en) (\<lambda>_. True) (\<lambda>d. (cp_rel (b ! 0) d)\<^sup>*\<^sup>*) s1 s'"
  proof (cases q)
    case None
    then show ?thesis using c by (auto intro: ase_moves_refl)
  next
    case (Some cp)
    obtain xs where "cp = \<lparr>cp_op = b ! 0, cp_number_of_ase = b ! 1, cp_params = xs\<rparr>" "cp_valid conn b len s xs"
      using q unfolding Some by (rule check_cp_cases [OF _ len]) auto
    then have op: "cp_op cp = b ! 0" "cp_list conn (b ! 0) b s 2 (cp_params cp)" by (simp_all add: cp_valid_def)
    have "cp_kind (cp_op cp) x" if "x \<in> set (cp_params cp)" for x
      using that cp_list_nth [OF op(2)] op(1) by (auto simp: in_set_conv_nth dest: cp_at_kind)
    moreover have "ase_handle_remote_cp en conn cp s1 = Some s'" using c Some by auto
    ultimately show ?thesis using handle_cp_moves op(1) by metis
  qed
  then show ?thesis using moves_db [OF db] unfolding b
    by (rule_tac ase_moves_trans [OF moves_db [OF db]]) auto
qed

lemma read_db: "ascs_attr_read_cb en conn i off s = Some (r, s') \<Longrightarrow> same_db s s'"
  by (auto simp: ascs_attr_read_cb_def Let_def elim!: bind_SomeE split: if_split_asm option.split_asm dest!: gen_char_data_db)

section \<open>The life of a link\<close>

text \<open>What an event on a link leaves of the endpoints whose table stays.\<close>

lemma same_table_get:
  assumes "le_link s' = (le_link s)[l := k]" "l_ase k = l_ase (le_link s ! l)"
  shows "get_ase s' q = get_ase s q"
  using assms by (cases "fst q = l") (auto simp: get_ase_def arr_get_def)

lemma same_table_ok:
  assumes "le_link s' = (le_link s)[l := k]" "l_ase k = l_ase (le_link s ! l)" "ase_total s' = ase_total s"
    "snk_ase_num s' = snk_ase_num s" "st_ok good s"
  shows "st_ok good s'"
  unfolding st_ok_def
proof (intro conjI allI impI)
  show "ase_total s' \<le> 255" using assms by (simp add: st_ok_def)
  fix j tab assume "j < length (le_link s')" "l_ase (le_link s' ! j) = Some tab"
  then show "length tab = ase_total s'" using assms by (cases "j = l") (auto simp: st_ok_def)
next
  fix p e assume "get_ase s' p = Some e"
  then have "get_ase s p = Some e" using same_table_get [OF assms(1,2)] by simp
  then show "ent_ok good e" "place_ok s' (snd p) e" using st_ok_get [OF assms(5)] assms(4) by (auto simp: place_ok_def)
qed

lemma drop_table:
  assumes "le_link s' = (le_link s)[l := k]" "l_ase k = None" "ase_total s' = ase_total s" "snk_ase_num s' = snk_ase_num s"
  shows "get_ase s' q = (if fst q = l then None else get_ase s q)" "st_ok good s \<Longrightarrow> st_ok good s'"
proof -
  show g: "get_ase s' q = (if fst q = l then None else get_ase s q)" for q
    using assms by (cases "fst q = l") (auto simp: get_ase_def arr_get_def)
  show "st_ok good s'" if ok: "st_ok good s"
    unfolding st_ok_def
  proof (intro conjI allI impI)
    show "ase_total s' \<le> 255" using assms ok by (simp add: st_ok_def)
    fix j tab assume "j < length (le_link s')" "l_ase (le_link s' ! j) = Some tab"
    then show "length tab = ase_total s'" using assms ok by (cases "j = l") (auto simp: st_ok_def)
  next
    fix p e assume "get_ase s' p = Some e"
    then have "get_ase s p = Some e" using g [of p] by (simp split: if_split_asm)
    then show "ent_ok good e" "place_ok s' (snd p) e" using st_ok_get [OF ok] assms(4) by (auto simp: place_ok_def)
  qed
qed

lemma alloc_ok:
  assumes "snd (ble_audio_link_alloc_by_conn_id c s) = s'"
  shows "st_ok good s \<Longrightarrow> st_ok good s'" "get_ase s' q = get_ase s q"
proof -
  have "s' = s \<or> (\<exists>l. s' = s\<lparr>le_link := (le_link s)[l := (le_link s ! l)\<lparr>l_used := True, l_conn_id := c\<rparr>]\<rparr>)"
    using assms by (auto simp: ble_audio_link_alloc_by_conn_id_def split: option.split_asm)
  then obtain l k where lk: "le_link s' = (le_link s)[l := k]" "l_ase k = l_ase (le_link s ! l)"
    and n: "ase_total s' = ase_total s" "snk_ase_num s' = snk_ase_num s"
    by (elim disjE exE) (metis list_update_id, simp add: ase_total_def)
  show "st_ok good s \<Longrightarrow> st_ok good s'" by (rule same_table_ok [OF lk n])
  show "get_ase s' q = get_ase s q" by (rule same_table_get [OF lk])
qed

lemma mtu_ok:
  assumes "handle_mtu_info c m s = s'"
  shows "st_ok good s \<Longrightarrow> st_ok good s'" "get_ase s' q = get_ase s q"
proof -
  have "s' = s \<or> (\<exists>l. s' = s\<lparr>le_link := (le_link s)[l := (le_link s ! l)\<lparr>l_mtu_size := m\<rparr>]\<rparr>)"
    using assms by (auto simp: handle_mtu_info_def split: option.split_asm)
  then obtain l k where lk: "le_link s' = (le_link s)[l := k]" "l_ase k = l_ase (le_link s ! l)"
    and n: "ase_total s' = ase_total s" "snk_ase_num s' = snk_ase_num s"
    by (elim disjE exE) (metis list_update_id, simp add: ase_total_def)
  show "st_ok good s \<Longrightarrow> st_ok good s'" by (rule same_table_ok [OF lk n])
  show "get_ase s' q = get_ase s q" by (rule same_table_get [OF lk])
qed

lemma link_init_get:
  assumes "ase_sm_link_init en conn s = Some (r, s')" "st_ok good s" "get_ase s q = Some e"
  shows "\<exists>e'. get_ase s' q = Some e' \<and> e_ase_state e' = e_ase_state e"
proof (cases "ble_audio_link_find_by_conn_handle conn s")
  case None
  then show ?thesis using assms by (simp add: ase_sm_link_init_def)
next
  case (Some l)
  show ?thesis
  proof (cases "fst q = l")
    case False
    have "le_link s' ! fst q = le_link s ! fst q \<and> length (le_link s') = length (le_link s)"
      using assms(1) Some False
      by (auto simp: ase_sm_link_init_def Let_def elim!: bind_SomeE split: option.split_asm if_split_asm prod.split_asm)
    then have "get_ase s' q = get_ase s q" by (simp add: get_ase_def arr_get_def)
    then show ?thesis using assms(3) by simp
  next
    case True
    obtain tab where tab: "l_ase (le_link s ! l) = Some tab" "snd q < length tab" "e = tab ! snd q"
      using assms(3) True by (auto simp: get_ase_def arr_get_def elim!: bind_SomeE split: if_split_asm)
    have l: "l < length (le_link s)" using Some by (auto simp: ble_audio_link_find_by_conn_handle_def first_index_less)
    have len: "length tab = ase_total s" using assms(2) l tab(1) by (simp add: st_ok_def)
    obtain t1 where t1: "upd_range 0 (unat (snk_ase_num s)) (init_ase conn SERVER_AUDIO_SINK) tab = Some t1" "length t1 = length tab"
        "\<forall>i < length tab. e_ase_state (t1 ! i) = e_ase_state (tab ! i)"
      using upd_range_spec [of "unat (snk_ase_num s)" tab 0 "init_ase conn SERVER_AUDIO_SINK"] len
      by (auto simp: ase_total_def init_ase_def)
    obtain t2 where t2: "upd_range (unat (snk_ase_num s)) (ase_total s) (init_ase conn SERVER_AUDIO_SOURCE) t1 = Some t2" "length t2 = length tab"
        "\<forall>i < length tab. e_ase_state (t2 ! i) = e_ase_state (t1 ! i)"
      using upd_range_spec [of "ase_total s" t1 "unat (snk_ase_num s)" "init_ase conn SERVER_AUDIO_SOURCE"] len t1(2)
      by (auto simp: init_ase_def)
    have "s' = s\<lparr>le_link := (le_link s)[l := (le_link s ! l)\<lparr>l_ase := Some t2\<rparr>]\<rparr>"
      using assms(1,2) Some tab(1) t1(1) t2(1) by (auto simp: ase_sm_link_init_def st_ok_def)
    then show ?thesis using tab t1(3) t2(2,3) True l by (simp add: get_ase_def arr_get_def)
  qed
qed

lemma link_free_get:
  "ase_sm_link_free conn s = Some s' \<Longrightarrow> get_ase s' q = get_ase s q \<or> get_ase s' q = None"
proof (cases "link_table conn s")
  case (Some lt)
  assume "ase_sm_link_free conn s = Some s'"
  then have s': "s' = s\<lparr>le_link := (le_link s)[fst lt := (le_link s ! fst lt)\<lparr>l_ase := None\<rparr>]\<rparr>"
    using Some by (auto simp: ase_sm_link_free_def split: prod.split_asm if_split_asm)
  show ?thesis using drop_table(1) [of s' s "fst lt"] s' by (simp add: ase_total_def)
qed (simp add: ase_sm_link_free_def)

lemma memset_get:
  assumes "snd (ble_audio_link_free l s) = s'" "l < length (le_link s) \<Longrightarrow> l_used (le_link s ! l)"
  shows "get_ase s' q = (if fst q = l then None else get_ase s q)" "st_ok good s \<Longrightarrow> st_ok good s'"
proof -
  define k where "k = \<lparr>l_used = False, l_conn_id = 0xFF, l_conn_handle = 0, l_mtu_size = 0, l_ase = None\<rparr>"
  have le: "le_link s' = (le_link s)[l := k]"
    using assms by (cases "l < length (le_link s)") (auto simp: ble_audio_link_free_def k_def list_update_beyond)
  have n: "ase_total s' = ase_total s" "snk_ase_num s' = snk_ase_num s"
    using assms(1) by (auto simp: ble_audio_link_free_def ase_total_def split: if_split_asm)
  show "get_ase s' q = (if fst q = l then None else get_ase s q)"
    by (rule drop_table(1) [OF le _ n]) (simp add: k_def)
  show "st_ok good s \<Longrightarrow> st_ok good s'" by (rule drop_table(2) [OF le _ n]) (simp_all add: k_def)
qed

lemma pending_moves: "ascs_check_ase_state_when_disconnect en l s = Some s' \<Longrightarrow> ase_moves good (\<lambda>q. fst q = l) stays s s'"
proof (cases "l_ase (le_link s ! l)")
  case (Some tab)
  assume "ascs_check_ase_state_when_disconnect en l s = Some s'"
  then have "for_table (pending_one en) l (ase_total s) s = Some s'"
    by (simp add: ascs_check_ase_state_when_disconnect_def Some)
  from pending_loop.for_moves [OF this] show ?thesis by (rule ase_moves_mono) auto
qed (auto simp: ascs_check_ase_state_when_disconnect_def intro: ase_moves_refl)

lemma link_down_moves:
  assumes "ascs_link_down en c s = Some s'" "ble_audio_link_find_by_conn_id c s = Some l" "st_ok good s"
  shows "\<exists>t. ase_moves good (\<lambda>q. fst q = l) idle_rel s t \<and> ase_sm_link_free (l_conn_handle (le_link s ! l)) t = Some s'"
proof -
  obtain s1 s2 where s1: "ascs_check_ase_state_when_disconnect en l s = Some s1"
    and s2: "(case l_ase (le_link s1 ! l) of None \<Rightarrow> Some s1
       | Some _ \<Rightarrow> for_table (drop_ase (l_conn_handle (le_link s ! l))) l (ase_total s1) s1) = Some s2"
    and s': "ase_sm_link_free (l_conn_handle (le_link s ! l)) s2 = Some s'"
    using assms(1,2) by (auto simp: ascs_link_down_def Let_def elim!: bind_SomeE)
  have m1: "ase_moves good (\<lambda>q. fst q = l) stays s s1" by (rule pending_moves [OF s1])
  have m2: "ase_moves good (\<lambda>q. fst q = l) idle_rel s1 s2"
  proof (cases "l_ase (le_link s1 ! l)")
    case None
    then have "s2 = s1" "get_ase s1 q = None" if "fst q = l" for q
      using s2 that by (auto simp: get_ase_def arr_get_def)
    then show ?thesis using s2 None by (force simp: ase_moves_def same_shape_def)
  next
    case (Some tab)
    then have "for_table (drop_ase (l_conn_handle (le_link s ! l))) l (ase_total s1) s1 = Some s2" using s2 by simp
    from drop_loop.for_moves_link [OF this refl ase_moves_ok [OF m1 assms(3)]] show ?thesis .
  qed
  have "ase_moves good (\<lambda>q. fst q = l) idle_rel s s2" by (rule ase_moves_trans [OF m1 m2]) simp_all
  then show ?thesis using s' by blast
qed

lemma used_link: "ble_audio_link_find_by_conn_id c s = Some l \<Longrightarrow> l < length (le_link s) \<and> l_used (le_link s ! l)"
  by (simp add: ble_audio_link_find_by_conn_id_def first_index_Some)

lemma link_init_numbers:
  "ase_sm_link_init en conn s = Some (r, s') \<Longrightarrow> ase_total s' = ase_total s \<and> snk_ase_num s' = snk_ase_num s"
  by (auto simp: ase_sm_link_init_def ase_total_def Let_def elim!: bind_SomeE split: option.split_asm if_split_asm prod.split_asm)

lemma link_free_used: "ase_sm_link_free conn s = Some s' \<Longrightarrow> l < length (le_link s) \<Longrightarrow> l_used (le_link s' ! l) = l_used (le_link s ! l)"
  by (cases "l = fst (the (link_table conn s))") (auto simp: ase_sm_link_free_def split: option.split_asm if_split_asm)

lemma moves_used: "ase_moves good A L s s' \<Longrightarrow> l < length (le_link s) \<Longrightarrow> l_used (le_link s' ! l) = l_used (le_link s ! l)"
proof -
  let ?f = "\<lambda>l. (l_used l, l_conn_id l, l_conn_handle l, l_mtu_size l, map_option length (l_ase l))"
  assume "ase_moves good A L s s'" "l < length (le_link s)"
  then have m: "map ?f (le_link s') = map ?f (le_link s)" "l < length (le_link s)" by (simp_all add: ase_moves_def same_shape_def)
  show ?thesis using arg_cong [OF m(1), of "\<lambda>xs. fst (xs ! l)"] m(2) map_eq_imp_length_eq [OF m(1)] by simp
qed

text \<open>A link that is lost takes its endpoints with it; nothing else moves.\<close>

lemma disconnected_moves:
  assumes "ble_audio_handle_conn_state_evt en c Disconnected s = Some s'" "st_ok good s"
  shows "st_ok good s'" "get_ase s q = Some e \<Longrightarrow> get_ase s' q = Some e' \<Longrightarrow> e_ase_state e' = e_ase_state e"
    "ble_audio_link_find_by_conn_id c s = Some l \<Longrightarrow> fst q = l \<Longrightarrow> get_ase s' q = None"
proof -
  have *: "st_ok good s' \<and> (\<forall>q. fst q = l \<longrightarrow> get_ase s' q = None) \<and>
      (\<forall>q e e'. get_ase s q = Some e \<longrightarrow> get_ase s' q = Some e' \<longrightarrow> e_ase_state e' = e_ase_state e)"
    if l: "ble_audio_link_find_by_conn_id c s = Some l" for l
  proof -
    obtain s1 where s1: "ascs_link_down en c s = Some s1" "s' = snd (ble_audio_link_free l s1)"
      using assms(1) l by (auto simp: ble_audio_handle_conn_state_evt_def Let_def elim!: bind_SomeE)
    obtain t where t: "ase_moves good (\<lambda>q. fst q = l) idle_rel s t" "ase_sm_link_free (l_conn_handle (le_link s ! l)) t = Some s1"
      using link_down_moves [OF s1(1) l assms(2)] by blast
    have used: "l_used (le_link s1 ! l)"
    proof -
      have "l < length (le_link s)" using used_link [OF l] by simp
      moreover have "length (le_link t) = length (le_link s)" using t(1) shape_tables(1) by (simp add: ase_moves_def)
      ultimately show ?thesis using used_link [OF l] link_free_used [OF t(2)] moves_used [OF t(1)] by simp
    qed
    note free = memset_get [OF s1(2) [symmetric] used]
    have "st_ok good s1" by (rule link_free_ok [OF t(2) ase_moves_ok [OF t(1) assms(2)]])
    moreover have "e_ase_state e' = e_ase_state e" if "get_ase s q = Some e" "get_ase s' q = Some e'" for q e e'
    proof -
      have q: "fst q \<noteq> l" "get_ase s1 q = Some e'" using that(2) free(1) [of q] by (auto split: if_split_asm)
      then have "get_ase t q = Some e'" using link_free_get [OF t(2), of q] by auto
      then show ?thesis using ase_movesD [OF t(1) that(1)] q(1) by (metis option.inject)
    qed
    ultimately show ?thesis using free by simp
  qed
  have none: "s' = s" if "ble_audio_link_find_by_conn_id c s = None"
    using assms(1) that by (simp add: ble_audio_handle_conn_state_evt_def)
  show "st_ok good s'" using * none assms(2) by (cases "ble_audio_link_find_by_conn_id c s") auto
  show "e_ase_state e' = e_ase_state e" if "get_ase s q = Some e" "get_ase s' q = Some e'"
  proof (cases "ble_audio_link_find_by_conn_id c s")
    case None
    then show ?thesis using none that by simp
  next
    case (Some l)
    show ?thesis using * [OF Some] that by blast
  qed
  show "get_ase s' q = None" if "ble_audio_link_find_by_conn_id c s = Some l" "fst q = l" using * that by blast
qed

lemma connected_moves:
  assumes "ble_audio_handle_conn_state_evt en c Connected s = Some s'" "st_ok good s"
  shows "st_ok good s'" "get_ase s q = Some e \<Longrightarrow> \<exists>e'. get_ase s' q = Some e' \<and> e_ase_state e' = e_ase_state e"
proof -
  have *: "st_ok good s' \<and> (get_ase s q = Some e \<longrightarrow> (\<exists>e'. get_ase s' q = Some e' \<and> e_ase_state e' = e_ase_state e))"
    if l: "ble_audio_link_find_by_conn_id c s = Some l" for l
  proof -
    define k where "k = (le_link s ! l)\<lparr>l_conn_handle := handle_of en (evlog s) c, l_mtu_size := mtu_of en (evlog s) c\<rparr>"
    define t where "t = s\<lparr>le_link := (le_link s)[l := k]\<rparr>"
    have t: "le_link t = (le_link s)[l := k]" "l_ase k = l_ase (le_link s ! l)" "ase_total t = ase_total s"
      "snk_ase_num t = snk_ase_num s" "evlog t = evlog s"
      by (simp_all add: t_def k_def ase_total_def)
    obtain r where r: "ase_sm_link_init en (handle_of en (evlog s) c) t = Some (r, s')"
      using assms(1) l t(5) by (auto simp: ble_audio_handle_conn_state_evt_def Let_def ascs_link_up_def t_def k_def)
    have ok: "st_ok good t" by (rule same_table_ok [OF t(1-4) assms(2)])
    then have "st_ok good s'" using link_init_ok [OF r] by simp
    moreover have "get_ase t q = get_ase s q" by (rule same_table_get [OF t(1,2)])
    ultimately show ?thesis using link_init_get [OF r ok] by metis
  qed
  have none: "s' = s" if "ble_audio_link_find_by_conn_id c s = None"
    using assms(1) that by (simp add: ble_audio_handle_conn_state_evt_def)
  show "st_ok good s'" using * none assms(2) by (cases "ble_audio_link_find_by_conn_id c s") auto
  show "\<exists>e'. get_ase s' q = Some e' \<and> e_ase_state e' = e_ase_state e" if "get_ase s q = Some e"
    using * none that by (cases "ble_audio_link_find_by_conn_id c s") auto
qed

section \<open>Every event\<close>

text \<open>The moves an event of the server may cause.\<close>

fun srv_rel :: "srv_event \<Rightarrow> u8 \<Rightarrow> u8 \<Rightarrow> u8 \<Rightarrow> bool" where
  "srv_rel (Srv_conn c x) d = stays d"
| "srv_rel (Srv_mtu c m) d = stays d"
| "srv_rel (Srv_authen c ok m) d = stays d"
| "srv_rel (Srv_write c i n v) d =
     (case v of None \<Rightarrow> stays d | Some b \<Rightarrow> if i = 2 then (cp_rel (b ! 0) d)\<^sup>*\<^sup>* else stays d)"
| "srv_rel (Srv_read c i off) d = stays d"
| "srv_rel (Srv_cig m) d = cig_rel m d"
| "srv_rel (Srv_app a) d = app_rel a d"

definition event_moves :: "srv_event \<Rightarrow> st \<Rightarrow> st \<Rightarrow> bool" where
  "event_moves ev s s' \<longleftrightarrow> (\<forall>p e. get_ase s p = Some e \<longrightarrow>
     (case get_ase s' p of
        Some e' \<Rightarrow> srv_rel ev (e_direction e) (e_ase_state e) (e_ase_state e')
      | None \<Rightarrow> \<exists>c. ev = Srv_conn c Disconnected))"

lemma moves_event:
  assumes "ase_moves good (\<lambda>_. True) L s s'" "st_ok good s" "\<And>d x y. L d x y \<Longrightarrow> srv_rel ev d x y"
  shows "st_ok good s' \<and> event_moves ev s s'"
proof
  show "st_ok good s'" by (rule ase_moves_ok [OF assms(1,2)])
  have "case get_ase s' p of Some e' \<Rightarrow> srv_rel ev (e_direction e) (e_ase_state e) (e_ase_state e')
      | None \<Rightarrow> \<exists>c. ev = Srv_conn c Disconnected" if g: "get_ase s p = Some e" for p e
  proof -
    obtain e' where "get_ase s' p = Some e'"
      "if True then L (e_direction e) (e_ase_state e) (e_ase_state e') else e_ase_state e' = e_ase_state e"
      by (rule ase_movesD [OF assms(1) g])
    then show ?thesis using assms(3) by simp
  qed
  then show "event_moves ev s s'" by (simp add: event_moves_def)
qed

lemma table_event:
  assumes "st_ok good s'" "\<And>q e. get_ase s q = Some e \<Longrightarrow> \<exists>e'. get_ase s' q = Some e' \<and> e_ase_state e' = e_ase_state e"
    "\<And>d x. srv_rel ev d x x"
  shows "st_ok good s' \<and> event_moves ev s s'"
proof -
  have "case get_ase s' p of Some e' \<Rightarrow> srv_rel ev (e_direction e) (e_ase_state e) (e_ase_state e')
      | None \<Rightarrow> \<exists>c. ev = Srv_conn c Disconnected" if "get_ase s p = Some e" for p e
    using assms(2) [OF that] assms(3) by auto
  then show ?thesis using assms(1) by (simp add: event_moves_def)
qed

lemma conn_event:
  assumes "ble_audio_handle_conn_state_evt en c x s = Some s'" "st_ok good s"
  shows "st_ok good s' \<and> event_moves (Srv_conn c x) s s'"
proof (cases x)
  case Connecting
  then consider "s' = s" | "s' = snd (ble_audio_link_alloc_by_conn_id c s)"
    using assms(1) by (auto simp: ble_audio_handle_conn_state_evt_def Let_def split: if_split_asm)
  then show ?thesis
  proof cases
    case 2
    show ?thesis by (rule table_event) (use alloc_ok [OF 2 [symmetric]] assms(2) in auto)
  next
    case 1
    show ?thesis by (rule table_event) (use 1 assms(2) in auto)
  qed
next
  case Connected
  show ?thesis by (rule table_event) (use connected_moves assms Connected in auto)
next
  case Disconnecting
  then have "s' = s" using assms(1) by (auto simp: ble_audio_handle_conn_state_evt_def Let_def)
  then show ?thesis by (intro table_event) (use assms(2) in auto)
next
  case Disconnected
  show ?thesis
    using disconnected_moves [OF assms(1) [unfolded Disconnected] assms(2)] Disconnected
    by (auto simp: event_moves_def split: option.split)
qed

lemma serve_moves:
  assumes "serve en pacs ev s = Some s'" "sized ev" "st_ok (good_mem en) s"
  shows "st_ok (good_mem en) s' \<and> event_moves ev s s'"
proof (cases ev)
  case (Srv_conn c x)
  then show ?thesis using conn_event assms(1,3) by simp
next
  case (Srv_mtu c m)
  then show ?thesis using mtu_ok [of c m s s'] assms(1,3) by (intro table_event) auto
next
  case (Srv_authen c ok m)
  have same: "ase_moves (good_mem en) (\<lambda>_. True) stays s s" by (rule ase_moves_refl) simp
  have "ase_moves (good_mem en) (\<lambda>_. True) stays s s'"
  proof (cases "ok \<and> ble_audio_link_find_by_conn_id c s \<noteq> None \<and> m \<noteq> None \<and> m \<noteq> Some 0")
    case True
    then obtain l k where lk: "ble_audio_link_find_by_conn_id c s = Some l" "m = Some k" "k \<noteq> 0" by auto
    then obtain x where x: "ascs_handle_pending_cccd en l (k, s) = Some x" "s' = snd x"
      using assms(1) True by (auto simp: Srv_authen ascs_authen_complete_def)
    show ?thesis
    proof (cases "l_ase (le_link s ! l)")
      case None
      then have "s' = s" using x by (cases x) (simp add: ascs_handle_pending_cccd_def)
      then show ?thesis using same by simp
    next
      case (Some tab)
      then have "for_table (notify_pending en (l_conn_handle (le_link s ! l))) l (ase_total s) (k, s) = Some x"
        using x by (simp add: ascs_handle_pending_cccd_def)
      from notify_loop.for_moves [OF this, of "good_mem en"]
      have "ase_moves (good_mem en) (\<lambda>q. fst q = l \<and> snd q < ase_total s) stays s s'" using x by simp
      then show ?thesis by (rule ase_moves_mono) simp_all
    qed
  next
    case False
    then have "s' = s"
      using assms(1) by (auto simp: Srv_authen ascs_authen_complete_def split: option.split_asm if_split_asm)
    then show ?thesis using same by simp
  qed
  then show ?thesis by (rule moves_event [OF _ assms(3)]) (simp add: Srv_authen)
next
  case (Srv_write c i n v)
  then obtain r where r: "ascs_attr_write_cb en pacs c i n v s = Some (r, s')" using assms(1) by auto
  show ?thesis
  proof (cases "i = 2")
    case True
    have "length d \<le> max_request" if "v = Some d" for d using assms(2) Srv_write that by simp
    from write_moves [OF r this] show ?thesis
      by (rule moves_event [OF _ assms(3)]) (simp_all add: Srv_write True split: option.split_asm)
  next
    case False
    then have "s' = s" using r by (simp add: ascs_attr_write_cb_def)
    then show ?thesis using assms(3) False by (intro table_event) (auto simp: Srv_write split: option.split)
  qed
next
  case (Srv_read c i off)
  then obtain r where "ascs_attr_read_cb en c i off s = Some (r, s')" using assms(1) by auto
  from moves_db [OF read_db [OF this]] show ?thesis
    by (rule moves_event [OF moves_all assms(3)]) (simp_all add: Srv_read)
next
  case (Srv_cig m)
  then obtain r where "ascs_handle_cig_mgr_msg en m s = Some (r, s')" using assms(1) by auto
  from cig_moves [OF this] show ?thesis by (rule moves_event [OF _ assms(3)]) (simp add: Srv_cig)
next
  case (Srv_app a)
  then obtain r where "app_exec en a s = Some (r, s')" using assms(1) by auto
  from app_moves [OF this] show ?thesis by (rule moves_event [OF _ assms(3)]) (simp add: Srv_app)
qed

lemma start_ok:
  assumes "unat snk + unat src \<le> 255"
  shows "st_ok good (ascs_init snk src \<lparr>le_link = replicate links empty_link, snk_ase_num = 0, src_ase_num = 0, evlog = []\<rparr>)"
  using assms
  by (auto simp: st_ok_def ascs_init_def ase_total_def get_ase_def arr_get_def empty_link_def elim!: bind_SomeE split: if_split_asm)

section \<open>Properties of the server\<close>

lemma reachable_ok:
  assumes "ascs_reachable en pacs links snk src s" "unat snk + unat src \<le> 255"
  shows "st_ok (good_mem en) s"
  using assms(1)
proof (induction rule: ascs_reachable.induct)
  case start
  show ?case by (rule start_ok [OF assms(2)])
next
  case (event s ev s')
  then show ?case using serve_moves by blast
qed

text \<open>C5: In every state the server can reach - by any sequence of connections and disconnections, requests and reads
  of clients, messages of the channel manager and calls of the application - each link has either no table or one
  entry per endpoint, an entry carries the identifier and the direction of its place, its state is one of the seven,
  and the configuration, the quality of service, the metadata and the ready flags it holds are those of its state.\<close>

theorem ascs_tables_typed:
  assumes "ascs_reachable en pacs links snk src s" "unat snk + unat src \<le> 255"
  shows "st_ok (good_mem en) s"
  by (rule reachable_ok [OF assms])

text \<open>A link that has just been connected.\<close>

definition connected_st :: st where
  "connected_st = emit (Ev_alloc 2) demo_st"

lemma connected_reachable: "ascs_reachable quiet_env [] 1 1 1 connected_st"
proof -
  let ?s0 = "ascs_init 1 1 \<lparr>le_link = replicate 1 empty_link, snk_ase_num = 0, src_ase_num = 0, evlog = []\<rparr>"
  have "serve quiet_env [] (Srv_conn 0 Connecting) ?s0 \<bind> serve quiet_env [] (Srv_conn 0 Connected) = Some connected_st"
    by code_simp
  then obtain s1 where "serve quiet_env [] (Srv_conn 0 Connecting) ?s0 = Some s1"
    "serve quiet_env [] (Srv_conn 0 Connected) s1 = Some connected_st" by (auto elim: bind_SomeE)
  then show ?thesis using ascs_reachable.intros by (metis sized.simps(2))
qed

theorem ascs_tables_typed_witness: "st_ok True connected_st"
  using ascs_tables_typed [OF connected_reachable] by (simp add: quiet_good)



text \<open>The last move of a request that leads to streaming.\<close>

lemma cp_rel_cases:
  "cp_rel c d x y \<Longrightarrow> y = ASE_STATE_STREAMING \<Longrightarrow> x \<noteq> ASE_STATE_STREAMING \<Longrightarrow>
     c = ASE_CP_OP_ENABLE \<and> d = SERVER_AUDIO_SINK \<and> x = ASE_STATE_QOS_CONFIGURED \<or>
     c = ASE_CP_OP_REC_START_READY \<and> d = SERVER_AUDIO_SOURCE \<and> x = ASE_STATE_ENABLING"
  "cp_rel ASE_CP_OP_ENABLE d x ASE_STATE_QOS_CONFIGURED \<Longrightarrow> x = ASE_STATE_QOS_CONFIGURED"
  "cp_rel ASE_CP_OP_REC_START_READY d x ASE_STATE_ENABLING \<Longrightarrow> x = ASE_STATE_ENABLING"
proof -
  have *: "P" if "cp_rel c d x y" "\<And>op r. c \<noteq> ASE_CP_OP_NONE \<Longrightarrow> op_code op = c \<Longrightarrow> op_rel op r d x y \<Longrightarrow> P" for P c d x y
    using that by (auto simp: cp_rel_def)
  show "cp_rel c d x y \<Longrightarrow> y = ASE_STATE_STREAMING \<Longrightarrow> x \<noteq> ASE_STATE_STREAMING \<Longrightarrow>
     c = ASE_CP_OP_ENABLE \<and> d = SERVER_AUDIO_SINK \<and> x = ASE_STATE_QOS_CONFIGURED \<or>
     c = ASE_CP_OP_REC_START_READY \<and> d = SERVER_AUDIO_SOURCE \<and> x = ASE_STATE_ENABLING"
    by (erule *, rename_tac op r, case_tac op; auto simp: op_rel_def split: if_split_asm)
  show "cp_rel ASE_CP_OP_ENABLE d x ASE_STATE_QOS_CONFIGURED \<Longrightarrow> x = ASE_STATE_QOS_CONFIGURED"
    by (erule *, rename_tac op r, case_tac op; auto simp: op_rel_def split: if_split_asm)
  show "cp_rel ASE_CP_OP_REC_START_READY d x ASE_STATE_ENABLING \<Longrightarrow> x = ASE_STATE_ENABLING"
    by (erule *, rename_tac op r, case_tac op; auto simp: op_rel_def split: if_split_asm)
qed

lemma cp_rel_back: "(cp_rel c d)\<^sup>*\<^sup>* x y \<Longrightarrow> (\<And>z. cp_rel c d z y \<Longrightarrow> z = y) \<Longrightarrow> x = y"
  by (induction rule: converse_rtranclp_induct) auto

lemma cp_streaming:
  assumes "(cp_rel c d)\<^sup>*\<^sup>* x y" "y = ASE_STATE_STREAMING" "x \<noteq> ASE_STATE_STREAMING"
  shows "c = ASE_CP_OP_ENABLE \<and> d = SERVER_AUDIO_SINK \<and> x = ASE_STATE_QOS_CONFIGURED \<or>
     c = ASE_CP_OP_REC_START_READY \<and> d = SERVER_AUDIO_SOURCE \<and> x = ASE_STATE_ENABLING"
  using assms
proof (induction rule: rtranclp_induct)
  case (step y z)
  show ?case
  proof (cases "y = ASE_STATE_STREAMING")
    case False
    then have l: "c = ASE_CP_OP_ENABLE \<and> d = SERVER_AUDIO_SINK \<and> y = ASE_STATE_QOS_CONFIGURED \<or>
       c = ASE_CP_OP_REC_START_READY \<and> d = SERVER_AUDIO_SOURCE \<and> y = ASE_STATE_ENABLING"
      using cp_rel_cases(1) step by blast
    then have "x = y" using cp_rel_back [OF step.hyps(1)] cp_rel_cases(2,3) by blast
    then show ?thesis using l by blast
  qed (use step in simp)
qed simp


text \<open>A request for one endpoint, carried out.\<close>

lemma write_one:
  fixes d :: "u8 list" and len :: u16
  defines "asked \<equiv> \<lambda>s. emit (Ev_alloc 0) (emit (Ev_alloc 5) s)"
  assumes "good_mem en" "2 < length d" "d ! 1 = 1" "d ! 0 \<noteq> ASE_CP_OP_NONE" "\<not> d ! 0 > ASE_CP_OP_RELEASE" "2 < unat len"
    "ase_cp_check_msg_len (d ! 0) d len = Some True"
    "cp_item en pacs conn (d ! 0) d 0 2 (asked s) = Some (Inr (unat len, x), t)"
    "cp_indication en conn (d ! 0) [x] t = (0, t1)"
    "ase_handle_remote_cp en conn \<lparr>cp_op = d ! 0, cp_number_of_ase = 1, cp_params = [x]\<rparr>
       (ascs_send_ase_cp_notify conn (cp_response (d ! 0) 1 [(cp_param_id x, 0, 0)]) t1) = Some s'"
  shows "serve en pacs (Srv_write conn 2 len (Some d)) s = Some s'"
proof -
  have lp: "cp_loop en pacs conn (d ! 0) d (unat len) 1 2 [] (asked s) = Some (None, [x], t)"
    by (rule cp_loop_one) (use assms in auto)
  have m: "mem_ok en l" for l using assms by (simp add: good_mem_def)
  have g: "arr_get d 0 = Some (d ! 0)" "arr_get d 1 = Some 1" using assms by (auto simp: arr_get_def)
  show ?thesis
    using assms lp m g by (simp add: ascs_attr_write_cb_def ase_check_cp_data_def Let_def asked_def)
qed

lemma len_loop_one: "len_loop [a, b, c, 0] (Suc 0) (Suc 0) 2 = Some 4"
  by (simp add: arr_get_def)

definition open_env :: env where
  "open_env = quiet_env\<lparr>isoch_of := (\<lambda>_ _. (True, \<lparr>i_state = ISOCH_STATE_CONN, i_data_path_flags = DATA_PATH_OUTPUT_FLAG,
     i_data_path_adding = False, i_data_path_removing = False\<rparr>))\<rparr>"

definition qos_request :: "u8 list" where
  "qos_request = [2, 1, 1, 0, 0, 0x10, 0x27, 0, 0, 2, 100, 0, 2, 20, 0, 0x40, 0x9C, 0]"

definition configured_st :: st where
  "configured_st = the (serve open_env [] (Srv_app (App_cfg_codec 0x40 1 demo_cfg demo_ltv)) connected_st)"

definition answered :: "u8 \<Rightarrow> st \<Rightarrow> st" where
  "answered op s = ascs_send_ase_cp_notify 0x40 [op, 1, 1, 0, 0]
     (emit (Ev_msg (Msg_cp_ind 0x40 op [1])) (emit (Ev_alloc 0) (emit (Ev_alloc 5) s)))"

definition qos_st :: st where
  "qos_st = the (ase_handle_remote_cp open_env 0x40
     \<lparr>cp_op = 2, cp_number_of_ase = 1, cp_params = [Cp_qos 1 (qos_state_of (drop 3 qos_request))]\<rparr> (answered 2 configured_st))"

definition enabled_st :: st where
  "enabled_st = the (ase_handle_remote_cp open_env 0x40
     \<lparr>cp_op = 3, cp_number_of_ase = 1, cp_params = [Cp_metadata 1 0 []]\<rparr> (answered 3 qos_st))"


lemma open_good: "good_mem open_env"
  using quiet_good by (simp add: good_mem_def open_env_def)

lemma open_connected: "ascs_reachable open_env [] 1 1 1 connected_st"
proof -
  let ?s0 = "ascs_init 1 1 \<lparr>le_link = replicate 1 empty_link, snk_ase_num = 0, src_ase_num = 0, evlog = []\<rparr>"
  have "serve open_env [] (Srv_conn 0 Connecting) ?s0 \<bind> serve open_env [] (Srv_conn 0 Connected) = Some connected_st"
    by code_simp
  then obtain s1 where "serve open_env [] (Srv_conn 0 Connecting) ?s0 = Some s1"
    "serve open_env [] (Srv_conn 0 Connected) s1 = Some connected_st" by (auto elim: bind_SomeE)
  then show ?thesis using ascs_reachable.intros by (metis sized.simps(2))
qed

lemma the_step: "x \<noteq> None \<Longrightarrow> x = Some (the x)"
  by auto

lemma qos_reachable: "ascs_reachable open_env [] 1 1 1 qos_st"
proof -
  let ?ev = "Srv_app (App_cfg_codec 0x40 1 demo_cfg demo_ltv)"
  have "serve open_env [] ?ev connected_st = Some configured_st"
    unfolding configured_st_def by (rule the_step) code_simp
  then have one: "ascs_reachable open_env [] 1 1 1 configured_st"
    using ascs_reachable.event [OF open_connected, of ?ev] by simp
  have "serve open_env [] (Srv_write 0x40 2 18 (Some qos_request)) configured_st = Some qos_st"
  proof (rule write_one [OF open_good])
    let ?s = "emit (Ev_alloc 0) (emit (Ev_alloc 5) configured_st)" and ?q = "qos_state_of (drop 3 qos_request)"
    have f: "ase_find_by_ase_id 0x40 1 ?s = Some (Some (0, 0))" by code_simp
    have c: "ase_find_by_cig_cis 0x40 SERVER_AUDIO_SINK 0 0 ?s = Some None" by code_simp
    have "map_option (\<lambda>e. (e_ase_state e, e_direction e, ase_check_cfg_qos_param (Some e) (Some ?q) 0)) (get_ase ?s (0, 0)) =
      Some (ASE_STATE_CODEC_CONFIGURED, SERVER_AUDIO_SINK, True, 0, 0)" by code_simp
    then obtain e where e: "get_ase ?s (0, 0) = Some e" "e_ase_state e = ASE_STATE_CODEC_CONFIGURED" "e_direction e = SERVER_AUDIO_SINK"
      "ase_check_cfg_qos_param (Some e) (Some ?q) 0 = (True, 0, 0)" by auto
    have q: "s_cig_id ?q = 0" "s_cis_id ?q = 0" "slice_of qos_request 2 16 = Some (drop 2 qos_request)"
      "drop 3 qos_request = tl (drop 2 qos_request)" "hd (drop 2 qos_request) = 1"
      "arr_get qos_request 2 = Some 1" "qos_request ! 0 = 2" by code_simp+
    show "cp_item open_env [] 0x40 (qos_request ! 0) qos_request 0 2 ?s = Some (Inr (unat (18 :: u16), Cp_qos 1 ?q), ?s)"
      using f c e q by (simp add: cp_item_def cp_qos_item_def ase_cp_check_sm_state_def max_ase_def)
    show "cp_indication open_env 0x40 (qos_request ! 0) [Cp_qos 1 ?q] ?s = (0, emit (Ev_msg (Msg_cp_ind 0x40 2 [1])) ?s)"
      by (simp add: cp_indication_def open_env_def quiet_env_def qos_request_def)
    have "ase_handle_remote_cp open_env 0x40
       \<lparr>cp_op = 2, cp_number_of_ase = 1, cp_params = [Cp_qos 1 (qos_state_of (drop 3 qos_request))]\<rparr> (answered 2 configured_st) = Some qos_st"
      unfolding qos_st_def by (rule the_step) code_simp
    then show "ase_handle_remote_cp open_env 0x40 \<lparr>cp_op = qos_request ! 0, cp_number_of_ase = 1,
         cp_params = [Cp_qos 1 (qos_state_of (drop 3 qos_request))]\<rparr>
       (ascs_send_ase_cp_notify 0x40 (cp_response (qos_request ! 0) 1 [(cp_param_id (Cp_qos 1 (qos_state_of (drop 3 qos_request))), 0, 0)])
         (emit (Ev_msg (Msg_cp_ind 0x40 2 [1])) (emit (Ev_alloc 0) (emit (Ev_alloc 5) configured_st)))) = Some qos_st"
      by (simp add: answered_def cp_response_def qos_request_def)
  qed (simp_all add: qos_request_def ase_cp_check_msg_len_def arr_get_def)
  then show ?thesis
    using ascs_reachable.event [OF one, of "Srv_write 0x40 2 18 (Some qos_request)"] by (simp add: qos_request_def)
qed

lemma enable_request: "serve open_env [] (Srv_write 0x40 2 4 (Some [3, 1, 1, 0])) qos_st = Some enabled_st"
proof (rule write_one [OF open_good])
  let ?s = "emit (Ev_alloc 0) (emit (Ev_alloc 5) qos_st)"
  have f: "ase_find_by_ase_id 0x40 1 ?s = Some (Some (0, 0))" by code_simp
  have "map_option (\<lambda>e. (e_ase_state e, e_direction e)) (get_ase ?s (0, 0)) =
    Some (ASE_STATE_QOS_CONFIGURED, SERVER_AUDIO_SINK)" by code_simp
  then obtain e where e: "get_ase ?s (0, 0) = Some e" "e_ase_state e = ASE_STATE_QOS_CONFIGURED" "e_direction e = SERVER_AUDIO_SINK"
    by auto
  show "cp_item open_env [] 0x40 ([3, 1, 1, 0] ! 0) [3, 1, 1, 0] 0 2 ?s = Some (Inr (unat (4 :: u16), Cp_metadata 1 0 []), ?s)"
    using f e by (simp add: cp_item_def cp_metadata_item_def ase_cp_check_sm_state_def max_ase_def arr_get_def)
  show "cp_indication open_env 0x40 ([3, 1, 1, 0] ! 0) [Cp_metadata 1 0 []] ?s = (0, emit (Ev_msg (Msg_cp_ind 0x40 3 [1])) ?s)"
    by (simp add: cp_indication_def open_env_def quiet_env_def)
  have "ase_handle_remote_cp open_env 0x40
     \<lparr>cp_op = 3, cp_number_of_ase = 1, cp_params = [Cp_metadata 1 0 []]\<rparr> (answered 3 qos_st) = Some enabled_st"
    unfolding enabled_st_def by (rule the_step) code_simp
  then show "ase_handle_remote_cp open_env 0x40
     \<lparr>cp_op = [3, 1, 1, 0] ! 0, cp_number_of_ase = 1, cp_params = [Cp_metadata 1 0 []]\<rparr>
       (ascs_send_ase_cp_notify 0x40 (cp_response ([3, 1, 1, 0] ! 0) 1 [(cp_param_id (Cp_metadata 1 0 []), 0, 0)])
         (emit (Ev_msg (Msg_cp_ind 0x40 3 [1])) (emit (Ev_alloc 0) (emit (Ev_alloc 5) qos_st)))) = Some enabled_st"
    by (simp add: answered_def cp_response_def)
qed (simp_all add: ase_cp_check_msg_len_def arr_get_def len_loop_one)


section \<open>Loops that come to an end\<close>

text \<open>
  Under the invariant \<open>I\<close> of the link a round is defined, and it establishes \<open>Q\<close> of its endpoint and of the state the
  endpoint had; the rounds for the others keep it.
\<close>

locale table_run = table_loop f pr good L
  for f :: "ase_ptr \<Rightarrow> 'x \<Rightarrow> 'x option" and pr :: "'x \<Rightarrow> st" and good :: bool and L :: "u8 \<Rightarrow> u8 \<Rightarrow> u8 \<Rightarrow> bool" +
  fixes I :: "nat \<Rightarrow> 'x \<Rightarrow> bool" and Q :: "ase_ptr \<Rightarrow> u8 \<Rightarrow> 'x \<Rightarrow> bool"
  assumes total: "I (fst p) x \<Longrightarrow> get_ase (pr x) p = Some e \<Longrightarrow>
      \<exists>x'. f p x = Some x' \<and> I (fst p) x' \<and> Q p (e_ase_state e) x'"
    and keep: "I (fst p) x \<Longrightarrow> get_ase (pr x) p \<noteq> None \<Longrightarrow> get_ase (pr x) q \<noteq> None \<Longrightarrow> f q x = Some x' \<Longrightarrow> fst q = fst p \<Longrightarrow> q \<noteq> p \<Longrightarrow>
      Q p y x \<Longrightarrow> Q p y x'"
begin

lemma over_run:
  "I l x \<Longrightarrow> distinct is \<Longrightarrow> (\<forall>i \<in> set is. get_ase (pr x) (l, i) \<noteq> None) \<Longrightarrow>
   \<exists>x'. over_table f l is x = Some x' \<and> I l x' \<and>
     (\<forall>i e. i \<in> set is \<longrightarrow> get_ase (pr x) (l, i) = Some e \<longrightarrow> Q (l, i) (e_ase_state e) x') \<and>
     (\<forall>i y. i \<notin> set is \<longrightarrow> get_ase (pr x) (l, i) \<noteq> None \<longrightarrow> Q (l, i) y x \<longrightarrow> Q (l, i) y x')"
proof (induction "is" arbitrary: x)
  case (Cons i "is")
  obtain e where e: "get_ase (pr x) (l, i) = Some e" using Cons.prems(3) by auto
  then obtain x1 where x1: "f (l, i) x = Some x1" "I l x1" "Q (l, i) (e_ase_state e) x1"
    using total [of "(l, i)" x e] Cons.prems(1) by auto
  note step = round [OF x1(1)]
  have dom: "get_ase (pr x1) (l, j) \<noteq> None" if "get_ase (pr x) (l, j) \<noteq> None" for j
    using step that unfolding ase_step_def by (metis not_None_eq)
  then obtain x' where x': "over_table f l is x1 = Some x'" "I l x'"
    "\<forall>j d. j \<in> set is \<longrightarrow> get_ase (pr x1) (l, j) = Some d \<longrightarrow> Q (l, j) (e_ase_state d) x'"
    "\<forall>j y. j \<notin> set is \<longrightarrow> get_ase (pr x1) (l, j) \<noteq> None \<longrightarrow> Q (l, j) y x1 \<longrightarrow> Q (l, j) y x'"
    using Cons.IH [OF x1(2)] Cons.prems(2,3) by auto
  have one: "Q (l, j) (e_ase_state d) x'" if j: "j \<in> set (i # is)" "get_ase (pr x) (l, j) = Some d" for j d
  proof (cases "j = i")
    case True
    then show ?thesis using x1(3) x'(4) Cons.prems(2) e j(2) dom by simp
  next
    case False
    then obtain d' where "get_ase (pr x1) (l, j) = Some d'" "e_ase_state d' = e_ase_state d"
      using step j(2) unfolding ase_step_def by (metis prod.inject)
    then show ?thesis using x'(3) False j(1) by (metis set_ConsD)
  qed
  have two: "Q (l, j) y x'" if j: "j \<notin> set (i # is)" "get_ase (pr x) (l, j) \<noteq> None" "Q (l, j) y x" for j y
    using keep [of "(l, j)" x "(l, i)" x1 y] x'(4) x1(1) e Cons.prems(1) j dom by auto
  show ?case using x1(1) x'(1,2) one two by (intro exI [of _ x']) simp
qed auto

lemma for_run:
  assumes "I l x" "n \<le> 255" "\<forall>i < n. get_ase (pr x) (l, i) \<noteq> None"
  shows "\<exists>x'. for_table f l n x = Some x' \<and> I l x' \<and>
    (\<forall>i e. i < n \<longrightarrow> get_ase (pr x) (l, i) = Some e \<longrightarrow> Q (l, i) (e_ase_state e) x')"
  using over_run [OF assms(1), of "[0..<n]"] assms(2,3) by (auto simp: for_table_def)

end

text \<open>Before the link is dropped its pending notifications are set.\<close>

definition was_pending :: "env \<Rightarrow> ase_ptr \<Rightarrow> u8 \<Rightarrow> st \<Rightarrow> bool" where
  "was_pending en p x s \<longleftrightarrow> (x \<noteq> ASE_STATE_IDLE \<longrightarrow>
     (\<exists>log. Ev_pending_set (fst p) (start_handle en log + 6 + 3 * of_nat (snd p)) \<in> set (evlog s)))"

lemma evlog_emit [simp]: "evlog (emit ev s) = evlog s @ [ev]"
  by (simp add: emit_def)

interpretation pending_run: table_run "pending_one en" "\<lambda>s. s" good stays "\<lambda>_ _. True" "was_pending en"
  for en good
proof unfold_locales
  fix p x e assume "get_ase x p = Some e"
  then show "\<exists>x'. pending_one en p x = Some x' \<and> True \<and> was_pending en p (e_ase_state e) x'"
    by (auto simp: pending_one_def was_pending_def)
next
  fix p x q x' y assume "pending_one en q x = Some x'" "was_pending en p y x"
  then show "was_pending en p y x'"
    by (auto simp: pending_one_def was_pending_def elim!: bind_SomeE)
qed

text \<open>Of an endpoint that was in use the application last hears that it is idle.\<close>

definition idle_told :: "u16 \<Rightarrow> ase_ptr \<Rightarrow> u8 \<Rightarrow> st \<Rightarrow> bool" where
  "idle_told conn p x s \<longleftrightarrow> (x \<noteq> ASE_STATE_IDLE \<longrightarrow>
     (\<exists>d. reported conn (of_nat (snd p + 1)) s = Some d \<and> d_ase_state d = ASE_STATE_IDLE))"

definition owns :: "bool \<Rightarrow> u16 \<Rightarrow> nat \<Rightarrow> st \<Rightarrow> bool" where
  "owns good conn l s \<longleftrightarrow> st_ok good s \<and> ble_audio_link_find_by_conn_handle conn s = Some l"

lemma owns_step:
  assumes "owns good conn l s" "ase_step good p L s t"
  shows "owns good conn l t"
proof -
  have sh: "same_shape s t" using assms(2) by (simp add: ase_step_def)
  show ?thesis using assms(1) ase_step_ok [OF assms(2)] shape_find [OF sh] by (simp add: owns_def)
qed

lemma owns_find:
  assumes "owns good conn (fst p) s" "get_ase s p = Some e"
  shows "ase_find_by_ase_id conn (e_ase_id e) s = Some (Some p)" "e_ase_id e = of_nat (snd p + 1)" "snd p < ase_total s"
proof -
  have st: "st_ok good s" using assms(1) by (simp add: owns_def)
  obtain tab where tab: "l_ase (le_link s ! fst p) = Some tab" using get_ase_iff [of s p] assms(2) by auto
  then have t: "link_table conn s = Some (fst p, tab)" using assms(1) by (simp add: link_table_def owns_def)
  show n: "snd p < ase_total s" using get_ase_iff [of s p] assms(2) link_table_get [OF st t] by auto
  show id: "e_ase_id e = of_nat (snd p + 1)" using st_ok_get [OF st assms(2)] by (simp add: place_ok_def)
  show "ase_find_by_ase_id conn (e_ase_id e) s = Some (Some p)" using find_by_id [OF st t n] id by simp
qed

lemma tell_own:
  assumes "owns good conn (fst p) s" "get_ase s p = Some e"
  shows "tell_state conn (e_ase_id e) s = Some (emit (Ev_msg (Msg_ase_state conn (ase_data_of e))) s)"
  using owns_find(1) [OF assms] assms(2) by (simp add: tell_state_def ascs_get_ase_data_def)

lemma tell_put:
  assumes "owns good conn (fst p) s" "get_ase s p = Some e" "ent_ok good e \<Longrightarrow> ent_ok good (ascs_change_state x e)"
  defines "t \<equiv> emit (Ev_msg (Msg_ase_state conn (ase_data_of (ascs_change_state x e)))) (put_ase p (ascs_change_state x e) s)"
  shows "tell_state conn (e_ase_id e) (put_ase p (ascs_change_state x e) s) = Some t"
    "owns good conn (fst p) t" "get_ase t p = Some (ascs_change_state x e)"
    "reported conn i t = (if i = e_ase_id e then Some (ase_data_of (ascs_change_state x e)) else reported conn i s)"
proof -
  let ?u = "put_ase p (ascs_change_state x e) s"
  have u: "get_ase ?u p = Some (ascs_change_state x e)" using assms(2) by simp
  have own: "owns good conn (fst p) ?u"
    by (rule owns_step [OF assms(1) ase_step_put [OF assms(2), where L = "\<lambda>_ _ _. True"]])
       (use assms(3) in \<open>simp_all add: same_place_def\<close>)
  show "tell_state conn (e_ase_id e) ?u = Some t" using tell_own [OF own u] by (simp add: t_def)
  show "get_ase t p = Some (ascs_change_state x e)" using u by (simp add: t_def)
  have "ase_step good p stays ?u t" by (rule ase_step_db) (simp_all add: t_def)
  then show "owns good conn (fst p) t" by (rule owns_step [OF own])
  show "reported conn i t = (if i = e_ase_id e then Some (ase_data_of (ascs_change_state x e)) else reported conn i s)"
    by (simp add: t_def reported_emit ase_data_id)
qed

lemma evlog_tell: "tell_state conn i s = Some t \<Longrightarrow> \<exists>evs. evlog t = evlog s @ evs"
  by (auto simp: tell_state_def elim!: bind_SomeE split: option.split)

lemma drop_log: "drop_ase conn p s = Some t \<Longrightarrow> \<exists>evs. evlog t = evlog s @ evs"
  by (fastforce simp: drop_ase_def elim!: bind_SomeE split: if_split_asm dest!: evlog_tell)

lemma data_state: "d_ase_state (ase_data_of e) = e_ase_state e"
  by (simp add: ase_data_of_def)

lemma drop_own:
  assumes "owns good conn (fst p) s" "get_ase s p = Some e"
  shows "\<exists>s'. drop_ase conn p s = Some s' \<and> owns good conn (fst p) s' \<and> idle_told conn p (e_ase_state e) s' \<and>
    (\<forall>i. i \<noteq> e_ase_id e \<longrightarrow> reported conn i s' = reported conn i s)"
proof -
  have st: "st_ok good s" using assms(1) by (simp add: owns_def)
  have id: "e_ase_id e = of_nat (snd p + 1)" by (rule owns_find(2) [OF assms])
  have fin: "\<exists>s'. drop_ase conn p s = Some s' \<and> owns good conn (fst p) s' \<and> idle_told conn p (e_ase_state e) s' \<and>
      (\<forall>i. i \<noteq> e_ase_id e \<longrightarrow> reported conn i s' = reported conn i s)"
    if d: "e_ase_state d = ASE_STATE_RELEASING" "e_ase_id d = e_ase_id e" "get_ase t p = Some d" "owns good conn (fst p) t"
      "\<forall>i. i \<noteq> e_ase_id e \<longrightarrow> reported conn i t = reported conn i s"
      "drop_ase conn p s = tell_state conn (e_ase_id d) (put_ase p (ascs_change_state ASE_STATE_IDLE d) t)" for d t
  proof -
    note tp = tell_put [OF d(4,3) ent_ok_change(1) [OF _ d(1)]]
    have "d_ase_state (ase_data_of (ascs_change_state ASE_STATE_IDLE d)) = ASE_STATE_IDLE"
      by (simp add: data_state change_state_sets)
    moreover have "idle_told conn p y u \<longleftrightarrow> (y \<noteq> ASE_STATE_IDLE \<longrightarrow>
        (\<exists>d. reported conn (e_ase_id e) u = Some d \<and> d_ase_state d = ASE_STATE_IDLE))" for y u
      by (simp only: idle_told_def id)
    ultimately show ?thesis using tp(1,2,4) d(2,5,6) by (intro exI [of _ "emit _ _"] conjI) auto
  qed
  consider "e_ase_state e = ASE_STATE_IDLE" | "e_ase_state e = ASE_STATE_RELEASING"
    | "e_ase_state e \<noteq> ASE_STATE_IDLE" "e_ase_state e \<noteq> ASE_STATE_RELEASING" by blast
  then show ?thesis
  proof cases
    case 1
    then show ?thesis using assms by (auto simp: drop_ase_def idle_told_def)
  next
    case 2
    show ?thesis by (rule fin [OF 2 refl assms(2,1)]) (simp_all add: drop_ase_def assms(2) 2)
  next
    case 3
    note tp = tell_put [OF assms ent_ok_change(6) [OF _ 3(1)]]
    show ?thesis
      by (rule fin [OF _ _ tp(3,2)]) (use tp 3 assms(2) in \<open>simp_all add: change_state_sets drop_ase_def\<close>)
  qed
qed

interpretation drop_run: table_run "drop_ase conn" "\<lambda>s. s" good idle_rel "owns good conn" "idle_told conn"
  for conn good
proof unfold_locales
  fix p x e assume "owns good conn (fst p) x" "get_ase x p = Some e"
  from drop_own [OF this]
  show "\<exists>x'. drop_ase conn p x = Some x' \<and> owns good conn (fst p) x' \<and> idle_told conn p (e_ase_state e) x'" by blast
next
  fix p x q x' y
  assume own: "owns good conn (fst p) x" and gp: "get_ase x p \<noteq> None" and g: "get_ase x q \<noteq> None" and d: "drop_ase conn q x = Some x'"
    and l: "fst q = fst p" "q \<noteq> p" and t: "idle_told conn p y x"
  show "idle_told conn p y x'"
  proof -
    obtain e where e: "get_ase x q = Some e" using g by auto
    have oq: "owns good conn (fst q) x" using own l(1) by simp
    have True: "snd p < ase_total x" using gp owns_find(3) [OF own] by auto
    have n: "ase_total x \<le> 255" using own by (simp add: owns_def st_ok_def)
    have "snd p \<noteq> snd q" using l by (metis prod.collapse)
    then have "(of_nat (snd p + 1) :: u8) \<noteq> e_ase_id e"
      using of_nat_u8_inj [of "snd p" "snd q"] owns_find(2,3) [OF oq e] True n by auto
    then have "reported conn (of_nat (snd p + 1)) x' = reported conn (of_nat (snd p + 1)) x"
      using drop_own [OF oq e] d by auto
    then show ?thesis using t by (simp add: idle_told_def)
  qed
qed

lemma get_ase_tab: "get_ase s (l, i) \<noteq> None \<Longrightarrow> l_ase (le_link s ! l) \<noteq> None"
  using get_ase_iff [of s "(l, i)"] by auto

lemma over_log:
  "over_table f l is x = Some x' \<Longrightarrow> (\<And>p y y'. f p y = Some y' \<Longrightarrow> \<exists>evs. evlog (pr y') = evlog (pr y) @ evs) \<Longrightarrow>
   \<exists>evs. evlog (pr x') = evlog (pr x) @ evs"
proof (induction "is" arbitrary: x)
  case (Cons i "is")
  then obtain x1 where x1: "f (l, i) x = Some x1" "over_table f l is x1 = Some x'" by (auto elim!: bind_SomeE)
  have "\<exists>evs. evlog (pr x') = evlog (pr x1) @ evs" using Cons.IH [OF x1(2)] Cons.prems(2) by blast
  then show ?case using Cons.prems(2) [OF x1(1)] by auto
qed auto

lemma shape_dom: "same_shape s t \<Longrightarrow> get_ase t q = None \<longleftrightarrow> get_ase s q = None"
proof -
  assume sh: "same_shape s t"
  have "get_ase t q \<noteq> None \<longleftrightarrow> get_ase s q \<noteq> None"
    unfolding get_ase_iff using shape_tables(1) [OF sh] shape_tables(2) [OF sh, of "fst q"]
    by (metis (no_types, lifting))
  then show ?thesis by blast
qed

text \<open>A link that owns its handle goes down without fault.\<close>

lemma link_down_total:
  assumes "owns good (l_conn_handle (le_link s ! l)) l s" "ble_audio_link_find_by_conn_id c s = Some l"
  defines "conn \<equiv> l_conn_handle (le_link s ! l)"
  shows "\<exists>t. ascs_link_down en c s = Some t \<and>
    (\<forall>i e. get_ase s (l, i) = Some e \<longrightarrow> was_pending en (l, i) (e_ase_state e) t \<and> idle_told conn (l, i) (e_ase_state e) t) \<and>
    (\<forall>q. fst q \<noteq> l \<longrightarrow> state_at q t = state_at q s)"
proof (cases "l_ase (le_link s ! l)")
  case None
  then have no: "get_ase s (l, i) = None" for i using get_ase_tab by blast
  moreover have "link_table conn s = None" using None assms(1) by (simp add: link_table_def owns_def conn_def)
  ultimately have "ascs_link_down en c s = Some s"
    using assms(2) None
    by (simp add: ascs_link_down_def ascs_check_ase_state_when_disconnect_def ase_sm_link_free_def Let_def conn_def)
  then show ?thesis using no by simp
next
  case (Some tab)
  have st: "st_ok good s" and lk: "ble_audio_link_find_by_conn_handle conn s = Some l"
    using assms(1) by (simp_all add: owns_def conn_def)
  have lt: "link_table conn s = Some (l, tab)" using lk Some by (simp add: link_table_def)
  note tab = link_table_get [OF st lt]
  let ?n = "ase_total s"
  have n: "?n \<le> 255" using st by (simp add: st_ok_def)
  have dom: "\<forall>i < ?n. get_ase s (l, i) \<noteq> None" using tab(4) by simp
  have inside: "i < ?n" if "get_ase s (l, i) \<noteq> None" for i using get_ase_iff [of s "(l, i)"] that tab(2,3) by simp
  obtain s1 where s1: "for_table (pending_one en) l ?n s = Some s1"
    "\<forall>i e. i < ?n \<longrightarrow> get_ase s (l, i) = Some e \<longrightarrow> was_pending en (l, i) (e_ase_state e) s1"
    using pending_run.for_run [where l = l and x = s and n = ?n and en = en] n dom by blast
  have m1: "ase_moves good (\<lambda>q. fst q = l \<and> snd q < ?n) stays s s1" by (rule pending_loop.for_moves [OF s1(1)])
  have sh: "same_shape s s1" using m1 by (simp add: ase_moves_def)
  have own1: "owns good conn l s1" using ase_moves_ok [OF m1 st] shape_find(1) [OF sh] lk by (simp add: owns_def)
  have tot1: "ase_total s1 = ?n" by (rule shape_total [OF sh])
  have keep1: "\<exists>e'. get_ase s1 q = Some e' \<and> e_ase_state e' = e_ase_state e" if g: "get_ase s q = Some e" for q e
  proof -
    obtain e' where e': "get_ase s1 q = Some e'"
      "if fst q = l \<and> snd q < ?n then stays (e_direction e) (e_ase_state e) (e_ase_state e') else e_ase_state e' = e_ase_state e"
      by (rule ase_movesD [OF m1 g])
    then show ?thesis by (simp split: if_split_asm)
  qed
  obtain s2 where s2: "for_table (drop_ase conn) l ?n s1 = Some s2" "owns good conn l s2"
    "\<forall>i e. i < ?n \<longrightarrow> get_ase s1 (l, i) = Some e \<longrightarrow> idle_told conn (l, i) (e_ase_state e) s2"
    using drop_run.for_run [OF own1 n] keep1 dom by (metis not_None_eq)
  have m2: "ase_moves good (\<lambda>q. fst q = l \<and> snd q < ?n) idle_rel s1 s2" by (rule drop_loop.for_moves [OF s2(1)])
  have log: "\<exists>evs. evlog s2 = evlog s1 @ evs"
    using over_log [of "drop_ase conn" l "[0..<?n]" s1 s2 "\<lambda>s. s"] s2(1) n drop_log by (simp add: for_table_def)
  have tab1: "l_ase (le_link s1 ! l) \<noteq> None" using shape_tables(2) [OF sh tab(1)] tab(2) by auto
  have sh2: "same_shape s1 s2" using m2 by (simp add: ase_moves_def)
  have len: "l < length (le_link s1)" "l < length (le_link s2)" using shape_tables(1) [OF sh] shape_tables(1) [OF sh2] tab(1) by simp_all
  have "l_ase (le_link s2 ! l) \<noteq> None" using shape_tables(2) [OF sh2 len(1)] tab1 by auto
  then obtain tab2 where lt2: "link_table conn s2 = Some (l, tab2)" using s2(2) by (auto simp: link_table_def owns_def)
  have st2: "st_ok good s2" using s2(2) by (simp add: owns_def)
  define t where "t = s2\<lparr>le_link := (le_link s2)[l := (le_link s2 ! l)\<lparr>l_ase := None\<rparr>]\<rparr>"
  have t: "ase_sm_link_free conn s2 = Some t" "evlog t = evlog s2"
    using lt2 link_table_get(3) [OF st2 lt2] st2 by (simp_all add: ase_sm_link_free_def t_def st_ok_def)
  have other: "state_at q t = state_at q s" if q: "fst q \<noteq> l" for q
  proof -
    have g: "get_ase t q = get_ase s2 q" using drop_table(1) [of t s2 l _ q] q by (simp add: t_def ase_total_def)
    show ?thesis
    proof (cases "get_ase s q")
      case None
      then have "get_ase s2 q = None"
        using shape_dom [OF sh] shape_dom [OF sh2] by simp
      then show ?thesis using None g by (simp add: state_at_def)
    next
      case (Some e)
      obtain e1 where e1: "get_ase s1 q = Some e1" "e_ase_state e1 = e_ase_state e" using keep1 [OF Some] by blast
      obtain e2 where "get_ase s2 q = Some e2"
        "if fst q = l \<and> snd q < ?n then idle_rel (e_direction e1) (e_ase_state e1) (e_ase_state e2) else e_ase_state e2 = e_ase_state e1"
        by (rule ase_movesD [OF m2 e1(1)])
      then show ?thesis using Some e1 g q by (simp add: state_at_def)
    qed
  qed
  have "ascs_link_down en c s = Some t"
    using assms(2) Some s1(1) s2(1) t(1) tab1 tot1
    by (auto simp: ascs_link_down_def ascs_check_ase_state_when_disconnect_def Let_def conn_def)
  moreover have "was_pending en (l, i) (e_ase_state e) t" "idle_told conn (l, i) (e_ase_state e) t"
    if g: "get_ase s (l, i) = Some e" for i e
  proof -
    have i: "i < ?n" using inside g by simp
    show "was_pending en (l, i) (e_ase_state e) t" using s1(2) i g log t(2)
      by (fastforce simp: was_pending_def)
    obtain e' where "get_ase s1 (l, i) = Some e'" "e_ase_state e' = e_ase_state e" using keep1 [OF g] by blast
    then have "idle_told conn (l, i) (e_ase_state e) s2" using s2(3) i by metis
    then show "idle_told conn (l, i) (e_ase_state e) t" using t(2) by (simp add: idle_told_def reported_def)
  qed
  ultimately show ?thesis using other by blast
qed

text \<open>C4: When a client whose connection handle is its own is disconnected, the server always ends without fault:
  the link is free and its endpoints are gone, the endpoints of the other links keep their state, and of every endpoint
  that was in use the notification to send after a reconnection is set and the application has been told that it is
  idle.\<close>

theorem ascs_disconnect_completes:
  assumes "ascs_reachable en pacs links snk src s" "unat snk + unat src \<le> 255"
    and "ble_audio_link_find_by_conn_id c s = Some l"
    and "ble_audio_link_find_by_conn_handle (l_conn_handle (le_link s ! l)) s = Some l"
  shows "\<exists>s'. serve en pacs (Srv_conn c Disconnected) s = Some s' \<and>
    \<not> l_used (le_link s' ! l) \<and> (\<forall>i. get_ase s' (l, i) = None) \<and>
    (\<forall>q. fst q \<noteq> l \<longrightarrow> state_at q s' = state_at q s) \<and>
    (\<forall>i e. get_ase s (l, i) = Some e \<longrightarrow> e_ase_state e \<noteq> ASE_STATE_IDLE \<longrightarrow>
       (\<exists>log. Ev_pending_set l (start_handle en log + 6 + 3 * of_nat i) \<in> set (evlog s')) \<and>
       (\<exists>d. reported (l_conn_handle (le_link s ! l)) (of_nat (i + 1)) s' = Some d \<and> d_ase_state d = ASE_STATE_IDLE))"
proof -
  let ?conn = "l_conn_handle (le_link s ! l)"
  have st: "st_ok (good_mem en) s" by (rule reachable_ok [OF assms(1,2)])
  then have own: "owns (good_mem en) ?conn l s" using assms(4) by (simp add: owns_def)
  from link_down_total [OF own assms(3)] obtain t where t: "ascs_link_down en c s = Some t"
    "\<forall>i e. get_ase s (l, i) = Some e \<longrightarrow> was_pending en (l, i) (e_ase_state e) t \<and> idle_told ?conn (l, i) (e_ase_state e) t"
    "\<forall>q. fst q \<noteq> l \<longrightarrow> state_at q t = state_at q s" by blast
  obtain u where u: "ase_moves (good_mem en) (\<lambda>q. fst q = l) idle_rel s u" "ase_sm_link_free ?conn u = Some t"
    using link_down_moves [OF t(1) assms(3) st] by blast
  have l: "l < length (le_link s)" "l_used (le_link s ! l)" using used_link [OF assms(3)] by simp_all
  have "same_shape s u" using u(1) by (simp add: ase_moves_def)
  then have lu: "l < length (le_link u)" using shape_tables(1) l(1) by metis
  have used: "l_used (le_link t ! l)" using link_free_used [OF u(2) lu] moves_used [OF u(1) l(1)] l(2) by simp
  have lt: "l < length (le_link t)" using lu u(2) by (auto simp: ase_sm_link_free_def split: option.split_asm if_split_asm)
  define s' where "s' = snd (ble_audio_link_free l t)"
  have srv: "serve en pacs (Srv_conn c Disconnected) s = Some s'"
    using t(1) assms(3) by (simp add: ble_audio_handle_conn_state_evt_def s'_def)
  have g: "get_ase s' q = (if fst q = l then None else get_ase t q)" for q
    by (rule memset_get(1)) (simp_all add: s'_def used)
  have "\<not> l_used (le_link s' ! l)" "evlog s' = evlog t" using used lt by (simp_all add: s'_def ble_audio_link_free_def)
  then show ?thesis
    using srv g t(2,3) by (intro exI [of _ s']) (auto simp: state_at_def was_pending_def idle_told_def reported_def)
qed

theorem ascs_disconnect_completes_witness:
  "\<exists>s'. serve open_env [] (Srv_conn 0 Disconnected) qos_st = Some s' \<and> (\<forall>i. get_ase s' (0, i) = None) \<and>
    (\<exists>d. reported 0x40 1 s' = Some d \<and> d_ase_state d = ASE_STATE_IDLE)"
proof -
  have f: "ble_audio_link_find_by_conn_id 0 qos_st = Some 0" "l_conn_handle (le_link qos_st ! 0) = 0x40"
    "ble_audio_link_find_by_conn_handle 0x40 qos_st = Some 0" by code_simp+
  have q: "state_at (0, 0) qos_st = Some ASE_STATE_QOS_CONFIGURED" by code_simp
  then obtain e where e: "get_ase qos_st (0, 0) = Some e" "e_ase_state e = ASE_STATE_QOS_CONFIGURED"
    by (auto simp: state_at_def)
  have n: "unat (1 :: u8) + unat (1 :: u8) \<le> 255" by simp
  obtain s' where s': "serve open_env [] (Srv_conn 0 Disconnected) qos_st = Some s'" "\<forall>i. get_ase s' (0, i) = None"
    and rep: "\<forall>i e. get_ase qos_st (0, i) = Some e \<longrightarrow> e_ase_state e \<noteq> ASE_STATE_IDLE \<longrightarrow>
      (\<exists>d. reported 0x40 (of_nat (i + 1)) s' = Some d \<and> d_ase_state d = ASE_STATE_IDLE)"
    using ascs_disconnect_completes [OF qos_reachable n f(1) f(3) [folded f(2)]] unfolding f(2) by blast
  from rep [rule_format, OF e(1)] show ?thesis using e(2) s' by simp
qed

section \<open>An accepted request is carried out\<close>

text \<open>The interval between two SDUs is a multiple of 2.5 ms, so that the multiple of two of them fits in 32 bits.\<close>

definition interval_ok :: "u32 \<Rightarrow> bool" where
  "interval_ok x \<longleftrightarrow> (\<exists>k. unat x = 2500 * k \<and> k \<le> 1020)"

lemma sdu_interval_ok:
  assumes "codec_sdu_interval_get (Some c) (Some 0) = (ok, Some x)"
  shows "interval_ok x"
proof -
  define b where "b = (if has (type_exist c) CFG_BLOCKS_EXIST then codec_frame_blocks_per_sdu c else 1)"
  have "unat b < 256" using unsigned_less [of b] by simp
  then have b: "unat b \<le> 255" by simp
  have u: "unat ((ucast b :: u32) * w) = unat b * unat w" if "unat w \<le> 10000" for w :: u32
  proof -
    have "unat b * unat w \<le> 255 * 10000" by (rule mult_le_mono [OF b that])
    moreover have "unat (ucast b :: u32) = unat b" by (rule unat_ucast_up) simp
    ultimately show ?thesis by (simp add: unat_word_ariths)
  qed
  have z: "interval_ok 0" unfolding interval_ok_def by (rule exI [of _ 0]) simp
  have m: "interval_ok (ucast b * of_nat (2500 * n))" if "n \<le> 4" for n
  proof -
    have "2500 * n \<le> 10000" using that by simp
    then have "unat (of_nat (2500 * n) :: u32) = 2500 * n"
      by (simp only: unat_of_nat) (simp add: take_bit_nat_eq_self)
    then have "unat ((ucast b :: u32) * of_nat (2500 * n)) = unat b * (2500 * n)" using u [of "of_nat (2500 * n)"] that by (simp del: of_nat_mult)
    moreover have "n * unat b \<le> 4 * 255" by (rule mult_le_mono [OF that b])
    ultimately show ?thesis unfolding interval_ok_def by (intro exI [of _ "n * unat b"]) simp
  qed
  show ?thesis
    using assms z m [of 3] m [of 4] m [of 2] m [of 1]
    by (auto simp: codec_sdu_interval_get_def b_def [symmetric] Let_def split: if_split_asm)
qed

lemma min_latency_total:
  assumes "interval_ok (fst acc)" "interval_ok (snd acc)"
  shows "\<exists>m. min_latency acc = Some m"
proof -
  obtain j k where jk: "unat (fst acc) = 2500 * j" "unat (snd acc) = 2500 * k" "j \<le> 1020" "k \<le> 1020"
    using assms by (auto simp: interval_ok_def)
  have "lcm j k \<le> j * k" by (metis dvd_imp_le dvd_triv_left dvd_triv_right gr0I lcm_0_iff_nat lcm_least le0 mult_is_0)
  moreover have "j * k \<le> 1020 * 1020" by (rule mult_le_mono [OF jk(3,4)])
  moreover have "lcm (unat (fst acc)) (unat (snd acc)) = 2500 * lcm j k" unfolding jk(1,2) by (simp add: lcm_mult_left)
  ultimately have "lcm (unat (fst acc)) (unat (snd acc)) < 2 ^ 32" by simp
  from lcm_total [OF this] show ?thesis by (auto simp: min_latency_def Let_def)
qed

lemma sdu_intervals_total:
  assumes "st_ok good s" "\<And>x. x \<in> set xs \<Longrightarrow> \<exists>c b g h. x = Cp_codec c b g \<and>
      codec_cfg_parse (p_codec_spec_cfg_len c) (Some b) (Some zero_cfg) = Some (True, Some h)"
    "interval_ok (fst acc)" "interval_ok (snd acc)"
  shows "\<exists>acc'. sdu_intervals conn xs s acc = Some acc' \<and> interval_ok (fst acc') \<and> interval_ok (snd acc')"
  using assms(2-)
proof (induction xs arbitrary: acc)
  case (Cons x xs)
  then obtain c b g h where x: "x = Cp_codec c b g"
    and h: "codec_cfg_parse (p_codec_spec_cfg_len c) (Some b) (Some zero_cfg) = Some (True, Some h)" by (metis list.set_intros(1))
  note f = ase_find_cases [OF assms(1), of "\<lambda>e. e_ase_id e = p_ase_id c" conn]
  obtain q where q: "ase_find_by_ase_id conn (p_ase_id c) s = Some q"
    "\<forall>p. q = Some p \<longrightarrow> (\<exists>e. get_ase s p = Some e)"
    using f unfolding ase_find_by_ase_id_def by (metis prod.collapse)
  have rest: "\<exists>acc'. sdu_intervals conn xs s a = Some acc' \<and> interval_ok (fst acc') \<and> interval_ok (snd acc')"
    if "interval_ok (fst a)" "interval_ok (snd a)" for a
    by (rule Cons.IH [OF _ that], rule Cons.prems(1)) simp
  show ?case
  proof (cases q)
    case None
    then show ?thesis using rest [OF Cons.prems(2,3)] q by (simp add: x)
  next
    case (Some p)
    then obtain e where e: "get_ase s p = Some e" using q(2) by blast
    obtain ok i where i: "codec_sdu_interval_get (Some h) (Some 0) = (ok, i)" by force
    show ?thesis
    proof (cases "ok \<and> i \<noteq> None")
      case True
      then obtain y where y: "i = Some y" by auto
      have "interval_ok y" using sdu_interval_ok i y by blast
      then have "interval_ok (fst (longer_interval e y acc))" "interval_ok (snd (longer_interval e y acc))"
        using Cons.prems(2,3) by (simp_all add: longer_interval_def)
      from rest [OF this] show ?thesis using True y i h e Some q(1) by (simp add: x)
    next
      case False
      then have "(case codec_sdu_interval_get (Some h) (Some 0) of
             (True, Some x) \<Rightarrow> sdu_intervals conn xs s (longer_interval e x acc)
           | _ \<Rightarrow> sdu_intervals conn xs s acc) = sdu_intervals conn xs s acc"
        unfolding i by (cases ok; cases i) simp_all
      then show ?thesis using rest [OF Cons.prems(2,3)] h e Some q(1) by (simp add: x)
    qed
  qed
qed simp

text \<open>What the parameter of an accepted request has.\<close>

fun param_ready :: "cp_param \<Rightarrow> bool" where
  "param_ready (Cp_codec c b g) \<longleftrightarrow>
     codec_cfg_parse (p_codec_spec_cfg_len c) (Some b) (Some zero_cfg) = Some (True, Some g) \<and>
     unat (p_codec_spec_cfg_len c) \<le> length b \<and>
     (fst (p_codec_id c) = LC3_CODEC_ID \<longrightarrow> 1 \<le> unat (p_target_phy c) \<and> unat (p_target_phy c) \<le> 31)"
| "param_ready (Cp_metadata a n b) \<longleftrightarrow> unat n \<le> length b"
| "param_ready _ \<longleftrightarrow> True"

lemma parse_from:
  "codec_cfg_parse n (Some b) (Some zero_cfg) = Some (True, Some g) \<Longrightarrow> codec_cfg_parse n (Some b) (Some c) = Some (True, Some g)"
  by (simp add: codec_cfg_parse_def split: if_split_asm)

lemma ready_op: "param_ready x \<Longrightarrow> op_ready (cp_op_of op x) e"
  by (cases x) (auto dest: parse_from)

lemma allowed_guard: "cp_kind op x \<Longrightarrow> param_ready x \<Longrightarrow> cp_allowed op e \<Longrightarrow> op_guard en s e (cp_op_of op x)"
  by (cases x) (auto simp: cp_allowed_def dest: parse_from)

lemma allowed_cong: "e_ase_state e' = e_ase_state e \<Longrightarrow> e_direction e' = e_direction e \<Longrightarrow> cp_allowed op e' = cp_allowed op e"
  by (simp add: cp_allowed_def)

definition served_link :: "env \<Rightarrow> u16 \<Rightarrow> nat \<Rightarrow> st \<Rightarrow> bool" where
  "served_link en conn l s \<longleftrightarrow> st_ok True s \<and> good_mem en \<and> ble_audio_link_find_by_conn_handle conn s = Some l \<and>
     3 \<le> l_mtu_size (le_link s ! l)"

lemma served_link_step:
  assumes "served_link en conn l s" "ase_step True p L s t"
  shows "served_link en conn l t"
proof -
  have sh: "same_shape s t" using assms(2) by (simp add: ase_step_def)
  have "l < length (le_link s)"
    using assms(1) by (auto simp: served_link_def ble_audio_link_find_by_conn_handle_def first_index_less)
  then show ?thesis
    using assms(1) shape_find [OF sh] ase_step_ok [OF assms(2)] by (simp add: served_link_def)
qed

lemma find_place:
  assumes "served_link en conn l s" "ase_find_by_ase_id conn i s = Some (Some p)"
  shows "fst p = l" "i = of_nat (snd p + 1)" "snd p < ase_total s" "served en conn p s"
proof -
  have st: "st_ok True s" using assms(1) by (simp add: served_link_def)
  obtain e tab where f: "link_table conn s = Some (fst p, tab)" "snd p < ase_total s" "get_ase s p = Some e" "e_ase_id e = i"
    using ase_find_cases [OF st, of "\<lambda>e. e_ase_id e = i" conn] assms(2) unfolding ase_find_by_ase_id_def
    by (metis prod.collapse)
  show "fst p = l" using f(1) assms(1) by (auto simp: link_table_def served_link_def elim!: bind_SomeE)
  then show "served en conn p s" using assms(1) f(3) by (simp add: served_link_def served_def)
  show "snd p < ase_total s" by (rule f(2))
  show "i = of_nat (snd p + 1)" using st_ok_get [OF st f(3)] f(4) by (simp add: place_ok_def)
qed

lemma find_keeps:
  assumes "served_link en conn l s" "served_link en conn l t" "same_shape s t" "ase_find_by_ase_id conn i s = Some (Some p)"
  shows "ase_find_by_ase_id conn i t = Some (Some p)"
proof -
  note f = find_place [OF assms(1,4)]
  have st: "st_ok True s" "st_ok True t" using assms(1,2) by (simp_all add: served_link_def)
  obtain e where e: "get_ase s p = Some e" using f(4) by (auto simp: served_def)
  have "get_ase t p \<noteq> None" using shape_dom [OF assms(3)] e by simp
  then obtain tab where "l_ase (le_link t ! l) = Some tab" using get_ase_iff [of t p] f(1) by auto
  then have "link_table conn t = Some (l, tab)" using assms(2) by (simp add: link_table_def served_link_def)
  from find_by_id [OF st(2) this, of "snd p"] show ?thesis
    using f(1,2,3) shape_total [OF assms(3)] by (metis prod.collapse)
qed

lemma shape_sym: "same_shape s t \<Longrightarrow> same_shape t s"
  by (simp add: same_shape_def)

lemma cp_call_run:
  assumes sv: "served_link en conn l s" and p: "ase_find_by_ase_id conn (cp_param_id x) s = Some (Some p)" "get_ase s p = Some e"
    and x: "cp_kind op x" "param_ready x" "cp_allowed op e"
  shows "\<exists>s'. cp_call en conn op m x p s = Some (True, s') \<and> ase_step True p (ase_edge (cp_op_of op x)) s s'"
proof -
  have good: "good_mem en" using sv by (simp add: served_link_def)
  obtain s1 where s1: "before_call m x p s = Some s1"
    using p(2) by (cases x) (auto simp: before_call_def set_min_latency_def)
  have st1: "ase_step True p stays s s1" by (rule before_call_step [OF s1])
  obtain e1 where e1: "get_ase s1 p = Some e1" "same_place e e1" "e_ase_state e1 = e_ase_state e"
    using st1 p(2) unfolding ase_step_def by (metis (full_types) stays_def)
  have "cp_allowed op e1" using x(3) allowed_cong [of e1 e op] e1(2,3) by (simp add: same_place_def)
  then have g: "op_guard en s1 e1 (cp_op_of op x)" using allowed_guard x(1,2) by blast
  have "served en conn p s1" by (rule served_step [OF find_place(4) [OF sv p(1)] st1])
  from ase_exec_total [OF this e1(1) ready_op [OF x(2), of op]] g obtain s' where
    "ase_exec en conn p (cp_op_of op x) s1 = Some (True, s')" by auto
  then have c: "cp_call en conn op m x p s = Some (True, s')" using s1 by (simp add: cp_call_exec)
  have "ase_step True p (op_rel (cp_op_of op x) True) s s'" by (rule cp_call_step [OF c good])
  then show ?thesis using c by (auto simp: op_rel_def)
qed

lemma cp_each_run:
  "served_link en conn l s \<Longrightarrow> (\<And>x. x \<in> set xs \<Longrightarrow> cp_kind op x \<and> param_ready x \<and> cp_target conn op s (cp_param_id x)) \<Longrightarrow>
   distinct (map cp_param_id xs) \<Longrightarrow>
   \<exists>s'. cp_each (cp_call en conn op m) conn xs s = Some s' \<and> st_ok True s' \<and>
     (\<forall>x \<in> set xs. \<exists>p e e'. ase_find_by_ase_id conn (cp_param_id x) s = Some (Some p) \<and> get_ase s p = Some e \<and>
        get_ase s' p = Some e' \<and> ase_edge (cp_op_of op x) (e_direction e) (e_ase_state e) (e_ase_state e')) \<and>
     (\<forall>q e. get_ase s q = Some e \<longrightarrow> (\<forall>x \<in> set xs. ase_find_by_ase_id conn (cp_param_id x) s \<noteq> Some (Some q)) \<longrightarrow>
        (\<exists>e'. get_ase s' q = Some e' \<and> e_ase_state e' = e_ase_state e))"
proof (induction xs arbitrary: s)
  case Nil
  then show ?case by (simp add: served_link_def)
next
  case (Cons x xs)
  note sv = Cons.prems(1)
  have x: "cp_kind op x" "param_ready x" "cp_target conn op s (cp_param_id x)" using Cons.prems(2) [of x] by simp_all
  obtain p e where p: "ase_find_by_ase_id conn (cp_param_id x) s = Some (Some p)" "get_ase s p = Some e" "cp_allowed op e"
    using x(3) by (auto simp: cp_target_def)
  obtain t where t: "cp_call en conn op m x p s = Some (True, t)" "ase_step True p (ase_edge (cp_op_of op x)) s t"
    using cp_call_run [OF sv p(1,2) x(1,2) p(3)] by blast
  have sh: "same_shape s t" using t(2) by (simp add: ase_step_def)
  have svt: "served_link en conn l t" by (rule served_link_step [OF sv t(2)])
  have other: "\<exists>d'. get_ase t q = Some d' \<and> e_ase_state d' = e_ase_state d \<and> e_direction d' = e_direction d"
    if "get_ase s q = Some d" "q \<noteq> p" for q d
    using t(2) that unfolding ase_step_def same_place_def by (metis (full_types))
  have ids: "cp_param_id y \<noteq> cp_param_id x" if "y \<in> set xs" for y
    using Cons.prems(3) that by (metis distinct.simps(2) image_eqI list.set_map list.simps(9))
  have found: "ase_find_by_ase_id conn i t = Some (Some q) \<longleftrightarrow> ase_find_by_ase_id conn i s = Some (Some q)" for i q
    using find_keeps [OF sv svt sh] find_keeps [OF svt sv shape_sym [OF sh]] by blast
  have np: "ase_find_by_ase_id conn (cp_param_id y) s \<noteq> Some (Some p)" if "y \<in> set xs" for y
    using find_place(2) [OF sv p(1)] find_place(2) [OF sv] ids [OF that] by metis
  have "cp_kind op y \<and> param_ready y \<and> cp_target conn op t (cp_param_id y)" if y: "y \<in> set xs" for y
  proof -
    have "cp_kind op y \<and> param_ready y \<and> cp_target conn op s (cp_param_id y)" using Cons.prems(2) [of y] y by simp
    then obtain q d where q: "ase_find_by_ase_id conn (cp_param_id y) s = Some (Some q)" "get_ase s q = Some d" "cp_allowed op d"
      "cp_kind op y" "param_ready y"
      by (auto simp: cp_target_def)
    have "q \<noteq> p" using np [OF y] q(1) by auto
    from other [OF q(2) this] show ?thesis using q allowed_cong found unfolding cp_target_def by metis
  qed
  then obtain s' where s': "cp_each (cp_call en conn op m) conn xs t = Some s'" "st_ok True s'"
    and all: "\<forall>y \<in> set xs. \<exists>p e e'. ase_find_by_ase_id conn (cp_param_id y) t = Some (Some p) \<and> get_ase t p = Some e \<and>
        get_ase s' p = Some e' \<and> ase_edge (cp_op_of op y) (e_direction e) (e_ase_state e) (e_ase_state e')"
    and rest: "\<forall>q e. get_ase t q = Some e \<longrightarrow> (\<forall>x \<in> set xs. ase_find_by_ase_id conn (cp_param_id x) t \<noteq> Some (Some q)) \<longrightarrow>
        (\<exists>e'. get_ase s' q = Some e' \<and> e_ase_state e' = e_ase_state e)"
    using Cons.IH [OF svt] Cons.prems(3) by auto
  have each: "cp_each (cp_call en conn op m) conn (x # xs) s = Some s'" using p(1) t(1) s'(1) by simp
  obtain e1 where e1: "get_ase t p = Some e1" "ase_edge (cp_op_of op x) (e_direction e) (e_ase_state e) (e_ase_state e1)"
    using t(2) p(2) unfolding ase_step_def by (metis (full_types))
  then obtain e2 where e2: "get_ase s' p = Some e2" "e_ase_state e2 = e_ase_state e1" using rest np found by blast
  have one: "\<exists>p e e'. ase_find_by_ase_id conn (cp_param_id y) s = Some (Some p) \<and> get_ase s p = Some e \<and>
      get_ase s' p = Some e' \<and> ase_edge (cp_op_of op y) (e_direction e) (e_ase_state e) (e_ase_state e')"
    if y: "y \<in> set (x # xs)" for y
  proof (cases "y \<in> set xs")
    case True
    then obtain q d d' where q: "ase_find_by_ase_id conn (cp_param_id y) t = Some (Some q)" "get_ase t q = Some d"
      "get_ase s' q = Some d'" "ase_edge (cp_op_of op y) (e_direction d) (e_ase_state d) (e_ase_state d')"
      using all by blast
    have "q \<noteq> p" using np [OF True] q(1) found by auto
    moreover obtain d0 where d0: "get_ase s q = Some d0" using shape_dom [OF sh, of q] q(2) by auto
    ultimately have "e_ase_state d = e_ase_state d0" "e_direction d = e_direction d0" using other [OF d0] q(2) by auto
    then show ?thesis using q d0 found by metis
  next
    case False
    then have "y = x" using y by simp
    then show ?thesis using p e1(2) e2 by metis
  qed
  have two: "\<exists>e'. get_ase s' q = Some e' \<and> e_ase_state e' = e_ase_state d"
    if q: "get_ase s q = Some d" "\<forall>y \<in> set (x # xs). ase_find_by_ase_id conn (cp_param_id y) s \<noteq> Some (Some q)" for q d
  proof -
    have "q \<noteq> p" using q(2) p(1) by auto
    then obtain d' where "get_ase t q = Some d'" "e_ase_state d' = e_ase_state d" using other [OF q(1)] by blast
    then show ?thesis using rest q(2) found by (metis list.set_intros(2))
  qed
  show ?case using each s'(2) one two by blast
qed

text \<open>What the check of the request leaves to be done: every parameter lies in the data.\<close>

lemma valid_ready:
  assumes "cp_valid conn d len s xs" "unat len \<le> length d" "x \<in> set xs"
    "\<And>c b g. x = Cp_codec c b g \<Longrightarrow> fst (p_codec_id c) = LC3_CODEC_ID \<Longrightarrow> p_target_phy c \<noteq> 0"
  shows "cp_kind (d ! 0) x \<and> param_ready x \<and> cp_target conn (d ! 0) s (cp_param_id x)"
proof -
  obtain k where k: "k < length xs" "x = xs ! k" using assms(3) by (auto simp: in_set_conv_nth)
  let ?i = "cp_pos (d ! 0) d 2 k"
  have "cp_list conn (d ! 0) d s 2 xs" using assms(1) by (simp add: cp_valid_def)
  from cp_list_nth [OF this k(1)] have x: "cp_at (d ! 0) d ?i x" "cp_target conn (d ! 0) s (cp_param_id x)"
    using k(2) by simp_all
  have tot: "cp_pos (d ! 0) d 2 (length xs) = unat len" using assms(1) unfolding cp_valid_def by blast
  have n: "k + 1 + (length xs - (k + 1)) = length xs" using k(1) by simp
  have "cp_pos (d ! 0) d 2 (length xs) = cp_pos (d ! 0) d (cp_pos (d ! 0) d 2 (k + 1)) (length xs - (k + 1))"
    by (subst n [symmetric], rule cp_pos_add)
  then have "cp_pos (d ! 0) d 2 (k + 1) \<le> unat len"
    using tot cp_pos_ge [of "cp_pos (d ! 0) d 2 (k + 1)" "length xs - (k + 1)" "d ! 0" d] by linarith
  moreover have "cp_pos (d ! 0) d 2 (k + 1) = ?i + cp_width (d ! 0) d ?i" by (simp only: cp_pos_add) simp
  ultimately have w: "?i + cp_width (d ! 0) d ?i \<le> length d" using assms(2) by simp
  have "param_ready x"
  proof (cases x)
    case (Cp_codec c b g)
    have c: "c = codec_cfg_of_bytes (take 9 (drop ?i d))" "b = drop (?i + 9) d" "p_target_phy c \<le> 3" "?i + 9 \<le> length d"
      "codec_cfg_parse (p_codec_spec_cfg_len c) (Some b) (Some zero_cfg) = Some (True, Some g)" "d ! 0 = ASE_CP_OP_CONFIG_CODEC"
      using x(1) unfolding Cp_codec cp_at.simps by blast+
    have "p_codec_spec_cfg_len c = d ! (?i + 8)" using c(1,4) by (simp add: codec_cfg_of_bytes_def)
    then have "unat (p_codec_spec_cfg_len c) \<le> length b" using w c(2,6) by (simp add: cp_width_def)
    moreover have "unat (p_target_phy c) \<le> 3" using c(3) by (simp add: word_le_nat_alt)
    moreover have "fst (p_codec_id c) = LC3_CODEC_ID \<Longrightarrow> 1 \<le> unat (p_target_phy c)"
      using assms(4) [OF Cp_codec] unat_gt_0 [of "p_target_phy c"] by (simp add: Suc_le_eq)
    ultimately show ?thesis using c(5) by (auto simp: Cp_codec)
  next
    case (Cp_metadata a n b)
    then show ?thesis using x(1) w by (auto simp: cp_width_def)
  qed simp_all
  then show ?thesis using x cp_at_kind by blast
qed

lemma valid_intervals:
  assumes "cp_valid conn d len s xs" "d ! 0 = ASE_CP_OP_CONFIG_CODEC" "st_ok good s"
  shows "\<exists>m. (do { acc \<leftarrow> sdu_intervals conn xs s (0, 0); min_latency acc }) = Some m"
proof -
  have "\<exists>c b g h. x = Cp_codec c b g \<and>
      codec_cfg_parse (p_codec_spec_cfg_len c) (Some b) (Some zero_cfg) = Some (True, Some h)" if x: "x \<in> set xs" for x
  proof -
    obtain k where "k < length xs" "x = xs ! k" using x by (auto simp: in_set_conv_nth)
    then have "cp_at (d ! 0) d (cp_pos (d ! 0) d 2 k) x" using assms(1) cp_list_nth by (auto simp: cp_valid_def)
    then show ?thesis using assms(2) by (cases x) auto
  qed
  moreover have "interval_ok 0" unfolding interval_ok_def by (rule exI [of _ 0]) simp
  ultimately obtain acc where "sdu_intervals conn xs s (0, 0) = Some acc" "interval_ok (fst acc)" "interval_ok (snd acc)"
    using sdu_intervals_total [OF assms(3), of xs "(0, 0)" conn] by auto
  then show ?thesis using min_latency_total by auto
qed

text \<open>C9: A request the server has accepted from a client it can serve is carried out to its last parameter: it ends
  without undefined behaviour - the search for the common latency included -, every endpoint it names makes the
  transition of the operation, and every other endpoint keeps its state. The endpoints are named once each, the data are
  in the buffer, and an LC3 configuration asks for some PHY.\<close>

theorem cp_request_carried_out:
  assumes "ase_check_cp_data en pacs conn d len s = Some (Some cp, s1)" "length d \<le> max_request" "unat len \<le> length d"
    and "served_link en conn l s" "distinct (map cp_param_id (cp_params cp))"
    and "\<And>c b g. Cp_codec c b g \<in> set (cp_params cp) \<Longrightarrow> fst (p_codec_id c) = LC3_CODEC_ID \<Longrightarrow> p_target_phy c \<noteq> 0"
  shows "\<exists>s'. ase_handle_remote_cp en conn cp s1 = Some s' \<and> st_ok True s' \<and>
    (\<forall>x \<in> set (cp_params cp). \<exists>p e e'. ase_find_by_ase_id conn (cp_param_id x) s = Some (Some p) \<and>
       get_ase s p = Some e \<and> get_ase s' p = Some e' \<and>
       ase_edge (cp_op_of (cp_op cp) x) (e_direction e) (e_ase_state e) (e_ase_state e')) \<and>
    (\<forall>q e. get_ase s q = Some e \<longrightarrow>
       (\<forall>x \<in> set (cp_params cp). ase_find_by_ase_id conn (cp_param_id x) s \<noteq> Some (Some q)) \<longrightarrow>
       state_at q s' = Some (e_ase_state e))"
proof -
  obtain xs where cp: "cp = \<lparr>cp_op = d ! 0, cp_number_of_ase = d ! 1, cp_params = xs\<rparr>" and val: "cp_valid conn d len s xs"
    and db: "same_db s s1"
    by (rule check_cp_cases [OF assms(1,2)]) auto
  have f: "ase_find_by_ase_id conn i s1 = ase_find_by_ase_id conn i s" for i
    using same_db_find [OF db] by (simp add: ase_find_by_ase_id_def)
  have g: "get_ase s1 q = get_ase s q" for q by (rule same_db_get [OF db])
  have st: "ase_step True (0, 0) stays s s1" by (rule ase_step_db [OF db]) simp
  have sv: "served_link en conn l s1" by (rule served_link_step [OF assms(4) st])
  have rdy: "cp_kind (d ! 0) x \<and> param_ready x \<and> cp_target conn (d ! 0) s1 (cp_param_id x)" if "x \<in> set xs" for x
    using valid_ready [OF val assms(3) that] assms(6) that cp_allowed_db [OF db] by (auto simp: cp)
  have each: "\<exists>s'. cp_each (cp_call en conn (d ! 0) m) conn xs s1 = Some s' \<and> st_ok True s' \<and>
     (\<forall>x \<in> set xs. \<exists>p e e'. ase_find_by_ase_id conn (cp_param_id x) s = Some (Some p) \<and> get_ase s p = Some e \<and>
        get_ase s' p = Some e' \<and> ase_edge (cp_op_of (d ! 0) x) (e_direction e) (e_ase_state e) (e_ase_state e')) \<and>
     (\<forall>q e. get_ase s q = Some e \<longrightarrow> (\<forall>x \<in> set xs. ase_find_by_ase_id conn (cp_param_id x) s \<noteq> Some (Some q)) \<longrightarrow>
        (\<exists>e'. get_ase s' q = Some e' \<and> e_ase_state e' = e_ase_state e))" for m
    using cp_each_run [OF sv rdy, of xs m] assms(5) unfolding f g by (simp add: cp)
  have val1: "cp_valid conn d len s1 xs" using val unfolding cp_valid_def cp_list_db [OF db] .
  have st1: "st_ok True s1" using sv by (simp add: served_link_def)
  have "\<exists>m. ase_handle_remote_cp en conn cp s1 = cp_each (cp_call en conn (d ! 0) m) conn xs s1"
  proof (cases "d ! 0 = ASE_CP_OP_CONFIG_CODEC")
    case True
    then obtain m acc where "sdu_intervals conn xs s1 (0, 0) = Some acc" "min_latency acc = Some m"
      using valid_intervals [OF val1 True st1] by (auto elim!: bind_SomeE)
    then show ?thesis using True val by (auto simp: ase_handle_remote_cp_def cp cp_valid_def)
  next
    case False
    then show ?thesis using val by (auto simp: ase_handle_remote_cp_def cp cp_valid_def)
  qed
  then show ?thesis using each by (fastforce simp: cp state_at_def)
qed

theorem cp_request_carried_out_witness:
  "\<exists>cp s1 s'. ase_check_cp_data quiet_env [] 0x40 demo_request 14 demo_st = Some (Some cp, s1) \<and>
     ase_handle_remote_cp quiet_env 0x40 cp s1 = Some s' \<and>
     state_at (0, 0) s' = Some ASE_STATE_CODEC_CONFIGURED \<and> state_at (0, 1) s' = Some ASE_STATE_IDLE"
proof -
  let ?cp = "\<lparr>cp_op = 1, cp_number_of_ase = 1, cp_params = [demo_param]\<rparr> :: ascs_ase_cp"
  obtain t where x: "ase_check_cp_data quiet_env [] 0x40 demo_request 14 demo_st = Some (Some ?cp, t)"
    using demo_accepted by blast
  have len: "length demo_request \<le> max_request" "unat (14 :: u16) \<le> length demo_request" by (simp_all add: demo_request_def)
  have sv: "served_link quiet_env 0x40 0 demo_st" using demo_served by (simp add: served_def served_link_def)
  have id: "cp_param_id demo_param = 1" and k: "cp_op_of 1 demo_param = Op_cfg_codec (codec_cfg_of_bytes (take 9 (drop 2 demo_request))) [2, 1, 8]"
    by (simp_all add: demo_param_def demo_request_def codec_cfg_of_bytes_def)
  have ph: "p_target_phy c \<noteq> 0" if "Cp_codec c b g \<in> set (cp_params ?cp)" "fst (p_codec_id c) = LC3_CODEC_ID"
    for c b g
    using that(1) by (simp add: demo_param_def codec_cfg_of_bytes_def demo_request_def)
  have dist: "distinct (map cp_param_id (cp_params ?cp))" by simp
  have f: "ase_find_by_ase_id 0x40 1 demo_st = Some (Some (0, 0))" by code_simp
  have g: "get_ase demo_st (0, 1) = Some (init_ase 0x40 SERVER_AUDIO_SOURCE 1 zero_ase)" by (simp add: demo_get)
  have "\<exists>s'. ase_handle_remote_cp quiet_env 0x40 ?cp t = Some s' \<and> st_ok True s' \<and>
    (\<forall>x \<in> set (cp_params ?cp). \<exists>p e e'. ase_find_by_ase_id 0x40 (cp_param_id x) demo_st = Some (Some p) \<and>
       get_ase demo_st p = Some e \<and> get_ase s' p = Some e' \<and>
       ase_edge (cp_op_of (cp_op ?cp) x) (e_direction e) (e_ase_state e) (e_ase_state e')) \<and>
    (\<forall>q e. get_ase demo_st q = Some e \<longrightarrow>
       (\<forall>x \<in> set (cp_params ?cp). ase_find_by_ase_id 0x40 (cp_param_id x) demo_st \<noteq> Some (Some q)) \<longrightarrow>
       state_at q s' = Some (e_ase_state e))"
    by (rule cp_request_carried_out [OF x len sv dist]) (rule ph)
  then obtain s' where s': "ase_handle_remote_cp quiet_env 0x40 ?cp t = Some s'"
    and one: "\<exists>e'. get_ase s' (0, 0) = Some e' \<and> e_ase_state e' = ASE_STATE_CODEC_CONFIGURED"
    and two: "state_at (0, 1) s' = Some (e_ase_state (init_ase 0x40 SERVER_AUDIO_SOURCE 1 zero_ase))"
    using f g id k by auto
  have "e_ase_state (init_ase 0x40 SERVER_AUDIO_SOURCE 1 zero_ase) = ASE_STATE_IDLE" by (simp add: init_ase_def zero_ase_def)
  then show ?thesis using x s' one two by (auto simp: state_at_def)
qed

end
