(* ===== verification/Ltv.thy ===== *)
theory Ltv
  imports Le_Codec
begin

text \<open>
  Sequences of length-prefixed items, the form of codec configurations, capabilities and metadata: what the format
  check of \<open>src/app/ble_audio_lib/util/ltv_util.c\<close> accepts, and that the parsers of \<open>codec.c\<close> read nothing behind a
  well-formed sequence. The capability records of \<open>pac_mgr.c\<close> and the announcements of \<open>base_data_generate.c\<close> embed
  such sequences in longer buffers.
\<close>

section \<open>Sequences of items\<close>

fun ltv_bytes :: "u8 list list \<Rightarrow> u8 list" where
  "ltv_bytes [] = []"
| "ltv_bytes (x # xs) = of_nat (length x) # x @ ltv_bytes xs"

definition ltv_ok :: "u8 list list \<Rightarrow> bool" where
  "ltv_ok xs \<longleftrightarrow> list_all (\<lambda>x. length x < 256) xs"

lemma ltv_ok_simps [simp]: "ltv_ok []" "ltv_ok (x # xs) \<longleftrightarrow> length x < 256 \<and> ltv_ok xs"
  by (simp_all add: ltv_ok_def)

lemma unat_u8 [simp]: "n < 256 \<Longrightarrow> unat (of_nat n :: u8) = n"
  by (rule unat_u8_of_nat)

lemma arr_get_at: "drop i p = x # ys \<Longrightarrow> arr_get p i = Some x"
  using arr_get_drop [of i p "x # ys" 0] by simp

lemma drop_next: "drop i p = x # xs @ ys \<Longrightarrow> drop (i + (length xs + 1)) p = ys"
  using drop_more [of i p "x # xs" ys] by simp

section \<open>The format check\<close>

lemma format_loop_decides:
  assumes "n \<le> length p" "n \<le> 65280"
  shows "i \<le> n + 255 \<Longrightarrow> \<exists>ok. format_loop p n i i = Some ok \<and>
    (ok \<longleftrightarrow> i \<le> n \<and> (\<exists>xs. take (n - i) (drop i p) = ltv_bytes xs \<and> ltv_ok xs))"
proof (induction "n - i" arbitrary: i rule: less_induct)
  case less
  show ?case
  proof (cases "i < n")
    case False
    have "ltv_bytes xs = [] \<longleftrightarrow> xs = []" for xs by (cases xs) auto
    then have "(\<exists>xs. take (n - i) (drop i p) = ltv_bytes xs \<and> ltv_ok xs)"
      using False by (intro exI [of _ "[]"]) simp
    then show ?thesis using False by (subst format_loop.simps) auto
  next
    case True
    then have i: "i < length p" using assms(1) by simp
    let ?l = "unat (p ! i)" and ?j = "i + (unat (p ! i) + 1)"
    have l: "?l < 256" using unsigned_less [of "p ! i"] by simp
    have "format_loop p n i i = format_loop p n ?j ?j"
      using True i l assms(2) by (subst format_loop.simps) (simp add: arr_simps mod_less)
    moreover obtain ok where ok: "format_loop p n ?j ?j = Some ok"
      "ok \<longleftrightarrow> ?j \<le> n \<and> (\<exists>xs. take (n - ?j) (drop ?j p) = ltv_bytes xs \<and> ltv_ok xs)"
      using less.hyps [of ?j] True l by auto
    have d: "take (n - i) (drop i p) = p ! i # take ?l (drop (Suc i) p) @ take (n - ?j) (drop ?j p)" if "?j \<le> n"
    proof -
      have "n - i = Suc (?l + (n - ?j))" using that True by simp
      moreover have "drop i p = p ! i # drop (Suc i) p" using i by (simp add: Cons_nth_drop_Suc)
      moreover have "drop ?l (drop (Suc i) p) = drop ?j p" by (simp add: add.commute)
      ultimately show ?thesis by (simp only: take_Suc_Cons take_add)
    qed
    have "(?j \<le> n \<and> (\<exists>xs. take (n - ?j) (drop ?j p) = ltv_bytes xs \<and> ltv_ok xs)) \<longleftrightarrow>
        (\<exists>xs. take (n - i) (drop i p) = ltv_bytes xs \<and> ltv_ok xs)" (is "?L \<longleftrightarrow> ?R")
    proof
      assume ?L
      then obtain xs where xs: "take (n - ?j) (drop ?j p) = ltv_bytes xs" "ltv_ok xs" "?j \<le> n" by blast
      have "length (take ?l (drop (Suc i) p)) = ?l" using xs(3) assms(1) by simp
      then have "take (n - i) (drop i p) = ltv_bytes (take ?l (drop (Suc i) p) # xs) \<and> ltv_ok (take ?l (drop (Suc i) p) # xs)"
        using d [OF xs(3)] xs(1,2) l by simp
      then show ?R by blast
    next
      assume ?R
      then obtain xs where xs: "take (n - i) (drop i p) = ltv_bytes xs" "ltv_ok xs" by blast
      have "take (n - i) (drop i p) = p ! i # take (n - Suc i) (drop (Suc i) p)"
        using True i by (simp add: take_Cons' Cons_nth_drop_Suc [symmetric])
      then obtain x xs' where x: "xs = x # xs'" "p ! i = of_nat (length x)" "take (n - Suc i) (drop (Suc i) p) = x @ ltv_bytes xs'"
        using xs(1) by (cases xs) auto
      have len: "?l = length x" using x(1,2) xs(2) by simp
      have "length (x @ ltv_bytes xs') = n - Suc i" unfolding x(3) [symmetric] using assms(1) True by simp
      then have j: "?j \<le> n" using len True by simp
      have "take (n - ?j) (drop ?j p) = ltv_bytes xs'" using d [OF j] xs(1) x(1) len j assms(1)
        by (simp add: append_eq_append_conv)
      then show ?L using j xs(2) x(1) by auto
    qed
    then show ?thesis using calculation ok True by auto
  qed
qed



section \<open>The parsers stay inside\<close>

text \<open>
  The contract of the body of \<open>ltv_loop\<close>: for an item that lies inside the buffer it reads nothing behind the item.
  Each item has a type byte, so it is not empty.
\<close>

locale ltv_items =
  fixes item :: "u8 list \<Rightarrow> nat \<Rightarrow> u8 \<Rightarrow> nat \<Rightarrow> 'c \<Rightarrow> (nat \<times> 'c) option"
  assumes inside: "1 \<le> len \<Longrightarrow> i + len \<le> length p \<Longrightarrow> item (p @ ys) len ty i c = item p len ty i c"
    and total: "1 \<le> len \<Longrightarrow> i + len \<le> length p \<Longrightarrow> item p len ty i c \<noteq> None"
begin

lemma loop_inside:
  "drop i p = ltv_bytes xs \<Longrightarrow> list_all (\<lambda>x. x \<noteq> [] \<and> length x < 256) xs \<Longrightarrow> i \<le> length p \<Longrightarrow>
   ltv_loop item (p @ ys) (length p) i c = ltv_loop item p (length p) i c \<and> ltv_loop item p (length p) i c \<noteq> None"
proof (induction xs arbitrary: i c)
  case Nil
  then show ?case by (simp add: ltv_loop.simps)
next
  case (Cons x xs)
  obtain ty v where x: "x = ty # v" and len: "length x < 256" using Cons.prems(2) by (cases x) auto
  have d: "drop i p = of_nat (length x) # x @ ltv_bytes xs" using Cons.prems(1) by simp
  have l: "length p - i = Suc (length x + length (ltv_bytes xs))" using arg_cong [OF d, of length] by simp
  have il: "i < length p" using l by simp
  have at: "arr_get p i = Some (of_nat (length x))" "arr_get p (i + 1) = Some ty"
    using arr_get_drop [OF d, of 0] arr_get_drop [OF d, of 1] x by simp_all
  have at': "arr_get (p @ ys) i = Some (of_nat (length x))" "arr_get (p @ ys) (i + 1) = Some ty"
    using at l by (auto dest!: arr_get_SomeD simp: arr_get_def nth_append split: if_splits)
  have it: "item (p @ ys) (length x) ty (i + 1) c = item p (length x) ty (i + 1) c" "item p (length x) ty (i + 1) c \<noteq> None"
    using inside [of "length x" "i + 1" p ys ty c] total [of "length x" "i + 1" p ty c] l x by auto
  then obtain err c1 where r: "item p (length x) ty (i + 1) c = Some (err, c1)" by auto
  have "drop (i + 1 + length x) p = ltv_bytes xs" using drop_next [OF d] by (simp add: ac_simps)
  from Cons.IH [OF this, of c1] Cons.prems(2) l
  have "ltv_loop item (p @ ys) (length p) (i + 1 + length x) c1 = ltv_loop item p (length p) (i + 1 + length x) c1 \<and>
      ltv_loop item p (length p) (i + 1 + length x) c1 \<noteq> None" by simp
  moreover have "ltv_loop item (p @ ys) (length p) i c = (if err \<noteq> 0 then Some (err, c1)
      else ltv_loop item (p @ ys) (length p) (i + 1 + length x) c1)"
    using il at' it(1) r len by (subst ltv_loop.simps) simp
  moreover have "ltv_loop item p (length p) i c = (if err \<noteq> 0 then Some (err, c1)
      else ltv_loop item p (length p) (i + 1 + length x) c1)"
    using il at it(1) r len by (subst ltv_loop.simps) simp
  ultimately show ?case by simp
qed

end

lemma arr_get_append [simp]: "i < length p \<Longrightarrow> arr_get (p @ ys) i = arr_get p i"
  by (simp add: arr_get_def nth_append)

lemma le_append [simp]:
  "i + 1 < length p \<Longrightarrow> le16 (p @ ys) i = le16 p i" "i + 2 < length p \<Longrightarrow> le24 (p @ ys) i = le24 p i"
  "i + 3 < length p \<Longrightarrow> le32 (p @ ys) i = le32 p i"
  by (simp_all add: le16_def le24_def le32_def)

lemma arr_get_total: "i < length p \<Longrightarrow> \<exists>x. arr_get p i = Some x"
  by (simp add: arr_get_def)

interpretation cfg: ltv_items cfg_item
proof (unfold_locales, goal_cases)
  case (1 len i p ys ty c)
  then show ?case by (auto simp: cfg_item_def)
next
  case (2 len i p ty c)
  then show ?case using le16_total [of "i + 1" p] le32_total [of "i + 1" p] arr_get_total [of "i + 1" p]
    by (auto simp: cfg_item_def Let_def)
qed

interpretation cap: ltv_items cap_item
proof (unfold_locales, goal_cases)
  case (1 len i p ys ty c)
  then show ?case by (auto simp: cap_item_def)
next
  case (2 len i p ty c)
  then show ?case using le16_total [of "i + 1" p] le16_total [of "i + 3" p] arr_get_total [of "i + 1" p]
    by (auto simp: cap_item_def Let_def)
qed

definition items_ok :: "u8 list list \<Rightarrow> bool" where
  "items_ok xs \<longleftrightarrow> list_all (\<lambda>x. x \<noteq> [] \<and> length x < 256) xs \<and> length (ltv_bytes xs) < 256"

lemma items_ltv_ok: "items_ok xs \<Longrightarrow> ltv_ok xs"
  by (auto simp: items_ok_def ltv_ok_def list_all_iff)

lemma cap_parse_inside:
  assumes "items_ok xs" "n = of_nat (length (ltv_bytes xs))"
  shows "codec_cap_parse n (Some (ltv_bytes xs @ ys)) (Some c) = codec_cap_parse n (Some (ltv_bytes xs)) (Some c)"
    "codec_cap_parse n (Some (ltv_bytes xs)) (Some c) \<noteq> None"
  using cap.loop_inside [of 0 "ltv_bytes xs" xs ys "zero_cap\<lparr>max_supported_codec_frames_per_sdu := 1\<rparr>"] assms
  by (auto simp: codec_cap_parse_def items_ok_def)

lemma cfg_parse_inside:
  assumes "items_ok xs" "n = of_nat (length (ltv_bytes xs))"
  shows "codec_cfg_parse n (Some (ltv_bytes xs @ ys)) (Some c) = codec_cfg_parse n (Some (ltv_bytes xs)) (Some c)"
    "codec_cfg_parse n (Some (ltv_bytes xs)) (Some c) \<noteq> None"
  using cfg.loop_inside [of 0 "ltv_bytes xs" xs ys "zero_cfg\<lparr>codec_frame_blocks_per_sdu := 1\<rparr>"] assms
  by (auto simp: codec_cfg_parse_def items_ok_def)

end
