(* ===== verification/Pac_Mgr.thy ===== *)
theory Pac_Mgr
  imports Ltv Ase_Cp
begin

text \<open>
  The published audio capabilities (PAC) of the device, \<open>src/app/ble_audio_lib/bap/pac_mgr.c\<close>: the list of registered
  records and the check of the bytes of a record. The look-ups of a codec are in \<open>Ase_Cp\<close>, the service that publishes
  the records in \<open>Pacs\<close>.

  A node of the list \<open>p_pac_list\<close> is an element of \<open>pac_list\<close>; a \<open>T_PAC_RECORD *\<close> that is returned is the index of the
  node. \<open>pac_item\<close> adds to the part of a record the control point needs (\<open>pac_record\<close>) its identifier and its place in
  the attribute table. A \<open>uint8_t\<close> that counts bytes wraps, so its sums are taken modulo 256.
\<close>

section \<open>Data\<close>

record pac_item = pac_record +
  pac_id :: u8
  pac_notify :: bool
  attrib_idx :: u16
  attrib_cccd_idx :: u16

record pac_db =
  pac_list :: "pac_item list"
  pac_list_num :: u8
  sink_pac_num :: u8
  source_pac_num :: u8
  pac_char_attrib_num :: u8

abbreviation PAC_RECORD_MIN_LEN :: u8 where "PAC_RECORD_MIN_LEN \<equiv> 8"
abbreviation PAC_RECORD_INVALID_ID :: u8 where "PAC_RECORD_INVALID_ID \<equiv> 0xff"

definition empty_db :: pac_db where
  "empty_db = \<lparr>pac_list = [], pac_list_num = 0, sink_pac_num = 0, source_pac_num = 0, pac_char_attrib_num = 0\<rparr>"

section \<open>Operations\<close>

definition pac_find_by_id :: "u8 \<Rightarrow> pac_db \<Rightarrow> nat option" where
  "pac_find_by_id i db = first_index (\<lambda>r. pac_id r = i) (pac_list db)"

definition pac_find_by_index :: "u16 \<Rightarrow> bool \<Rightarrow> pac_db \<Rightarrow> nat option" where
  "pac_find_by_index attrib_index cccd db =
     first_index (\<lambda>r. (if cccd then attrib_cccd_idx r else attrib_idx r) = attrib_index) (pac_list db)"

definition pacs_check_codec_cfg :: "u8 \<Rightarrow> arr5 \<Rightarrow> codec_cfg \<Rightarrow> pac_db \<Rightarrow> bool option" where
  "pacs_check_codec_cfg direction codec_id cfg db =
     map_option (\<lambda>r. r \<noteq> None) (pac_find_by_codec_data direction codec_id cfg (map pac_record.truncate (pac_list db)))"

text \<open>\<open>for (data_len = 0; data_len < n;) { len = pac_data[idx]; idx += (len + 1); data_len += (len + 1); }\<close>\<close>

partial_function (option) skip_loop :: "u8 list \<Rightarrow> nat \<Rightarrow> nat \<Rightarrow> nat \<Rightarrow> (nat \<times> nat) option" where
  "skip_loop d n idx data_len =
     (if data_len < n then do {
        len \<leftarrow> arr_get d idx;
        skip_loop d n ((idx + (unat len + 1)) mod 256) ((data_len + (unat len + 1)) mod 256)
      } else Some (idx, data_len))"

text \<open>The loop over the records, \<open>k\<close> to go; the result is \<open>error_idx\<close>.\<close>

fun check_records :: "u8 list \<Rightarrow> nat \<Rightarrow> nat \<Rightarrow> nat \<Rightarrow> nat option" where
  "check_records d len 0 idx = Some (if idx \<noteq> len then 5 else 0)"
| "check_records d len (Suc k) idx = do {
     let idx1 = (idx + 5) mod 256;
     cap_len \<leftarrow> arr_get d idx1;
     (idx2, n) \<leftarrow> skip_loop d (unat cap_len) ((idx1 + 1) mod 256) 0;
     (if n \<noteq> unat cap_len then Some 2
      else do {
        metadata_len \<leftarrow> arr_get d idx2;
        (idx3, n') \<leftarrow> skip_loop d (unat metadata_len) ((idx2 + 1) mod 256) 0;
        (if n' \<noteq> unat metadata_len then Some 3
         else if idx3 > len then Some 4
         else check_records d len k idx3)
      })
   }"

definition pac_check_record :: "u8 list option \<Rightarrow> u8 \<Rightarrow> bool option" where
  "pac_check_record data data_len =
     (case data of None \<Rightarrow> Some False
      | Some d \<Rightarrow> (if data_len < PAC_RECORD_MIN_LEN then Some False
          else do { n \<leftarrow> arr_get d 0; e \<leftarrow> check_records d (unat data_len) (unat n) 1; Some (e = 0) }))"

definition pacs_gen_pac_records :: "u16 \<Rightarrow> pac_db \<Rightarrow> (u8 list option \<times> u16) option" where
  "pacs_gen_pac_records attrib_index db =
     map_option (\<lambda>i. (pac_data (pac_list db ! i), ucast (pac_data_len (pac_list db ! i))))
       (pac_find_by_index attrib_index False db)"

text \<open>\<open>registered\<close> is \<open>p_pacs != NULL\<close>, \<open>mem\<close> whether \<open>ble_audio_mem_zalloc\<close> provides the node.\<close>

definition pacs_pac_add ::
    "bool \<Rightarrow> bool \<Rightarrow> u8 \<Rightarrow> u8 list option \<Rightarrow> u8 \<Rightarrow> bool \<Rightarrow> pac_db \<Rightarrow> (u8 \<times> pac_db) option" where
  "pacs_pac_add registered mem direction data data_len notify db =
     (if registered then Some (PAC_RECORD_INVALID_ID, db)
      else do {
        ok \<leftarrow> pac_check_record data data_len;
        (if \<not> ok \<or> \<not> mem then Some (PAC_RECORD_INVALID_ID, db)
         else let item = \<lparr>pac_direction = direction, pac_data_len = data_len, pac_data = data,
                          pac_id = pac_list_num db, pac_notify = notify, attrib_idx = 0, attrib_cccd_idx = 0\<rparr>
              in Some (pac_list_num db,
                   db\<lparr>pac_list := pac_list db @ [item],
                      source_pac_num := (if direction = SERVER_AUDIO_SOURCE then source_pac_num db + 1 else source_pac_num db),
                      sink_pac_num := (if direction = SERVER_AUDIO_SINK then sink_pac_num db + 1 else sink_pac_num db),
                      pac_char_attrib_num := pac_char_attrib_num db + (if notify then 3 else 2),
                      pac_list_num := pac_list_num db + 1\<rparr>))
      })"

definition pac_update :: "u8 \<Rightarrow> u8 list option \<Rightarrow> u8 \<Rightarrow> pac_db \<Rightarrow> (bool \<times> pac_db) option" where
  "pac_update i data data_len db =
     (case pac_find_by_id i db of
        None \<Rightarrow> Some (False, db)
      | Some k \<Rightarrow>
          (if data = None \<or> \<not> pac_notify (pac_list db ! k) then Some (False, db)
           else do {
             ok \<leftarrow> pac_check_record data data_len;
             Some (if ok then (True, db\<lparr>pac_list := (pac_list db)[k := (pac_list db ! k)\<lparr>pac_data := data,
                                  pac_data_len := data_len\<rparr>]\<rparr>)
                   else (False, db))
           }))"

section \<open>What a record is\<close>

text \<open>A capability: the codec, its specific capabilities and its metadata, both sequences of items.\<close>

type_synonym pac = "arr5 \<times> u8 list list \<times> u8 list list"

fun pac_bytes :: "pac \<Rightarrow> u8 list" where
  "pac_bytes (i, caps, md) = bytes5 i @ of_nat (length (ltv_bytes caps)) # ltv_bytes caps @
     of_nat (length (ltv_bytes md)) # ltv_bytes md"

definition pacs_bytes :: "pac list \<Rightarrow> u8 list" where
  "pacs_bytes ps = of_nat (length ps) # concat (map pac_bytes ps)"

text \<open>The items are short enough for the byte counters.\<close>

definition pacs_ok :: "pac list \<Rightarrow> bool" where
  "pacs_ok ps \<longleftrightarrow> ps \<noteq> [] \<and> length (pacs_bytes ps) < 256 \<and> list_all (\<lambda>(_, caps, md). items_ok caps \<and> items_ok md) ps"


lemma unat_len: "length (ltv_bytes xs) < 256 \<Longrightarrow> unat (of_nat (length (ltv_bytes xs)) :: u8) = length (ltv_bytes xs)"
  by simp

lemma length_bytes5 [simp]: "length (bytes5 i) = 5"
  by (cases i rule: bytes5.cases) simp

lemma bytes5_inj [simp]: "bytes5 i = bytes5 j \<longleftrightarrow> i = j"
  by (cases i rule: bytes5.cases; cases j rule: bytes5.cases) simp

lemma length_pac_bytes:
  "length (pac_bytes (i, caps, md)) = 7 + length (ltv_bytes caps) + length (ltv_bytes md)"
  by simp

text \<open>Where the parts of an encoded record lie.\<close>

lemma pac_parts:
  assumes "drop i d = pac_bytes (c, caps, md) @ ys"
  shows "take 5 (drop i d) = bytes5 c" "i + 5 \<le> length d" "arr_get d (i + 5) = Some (of_nat (length (ltv_bytes caps)))"
    "drop (i + 6) d = ltv_bytes caps @ of_nat (length (ltv_bytes md)) # ltv_bytes md @ ys"
    "arr_get d (i + 6 + length (ltv_bytes caps)) = Some (of_nat (length (ltv_bytes md)))"
    "drop (i + 7 + length (ltv_bytes caps)) d = ltv_bytes md @ ys"
proof -
  let ?t = "of_nat (length (ltv_bytes caps)) # ltv_bytes caps @ of_nat (length (ltv_bytes md)) # ltv_bytes md @ ys"
  have d: "drop i d = bytes5 c @ ?t" using assms by simp
  then show "take 5 (drop i d) = bytes5 c" by simp
  have "length (drop i d) = 5 + length ?t" using d by simp
  then show "i + 5 \<le> length d" by simp
  have t: "drop (i + 5) d = ?t" using drop_more [OF d] by simp
  then show "arr_get d (i + 5) = Some (of_nat (length (ltv_bytes caps)))" by (rule arr_get_at)
  have u: "drop (i + 6) d = ltv_bytes caps @ of_nat (length (ltv_bytes md)) # ltv_bytes md @ ys"
    using drop_more [of "i + 5" d "[of_nat (length (ltv_bytes caps))]"] t by (simp add: eval_nat_numeral)
  then show "drop (i + 6) d = ltv_bytes caps @ of_nat (length (ltv_bytes md)) # ltv_bytes md @ ys" .
  have v: "drop (i + 6 + length (ltv_bytes caps)) d = of_nat (length (ltv_bytes md)) # ltv_bytes md @ ys"
    by (rule drop_more [OF u])
  then show "arr_get d (i + 6 + length (ltv_bytes caps)) = Some (of_nat (length (ltv_bytes md)))" by (rule arr_get_at)
  show "drop (i + 7 + length (ltv_bytes caps)) d = ltv_bytes md @ ys"
    using drop_more [of "i + 6 + length (ltv_bytes caps)" d "[of_nat (length (ltv_bytes md))]"] v
    by (simp add: eval_nat_numeral)
qed

section \<open>The check accepts well-formed records\<close>

lemma skip_items:
  "drop i d = ltv_bytes xs @ ys \<Longrightarrow> i + length (ltv_bytes xs) < 256 \<Longrightarrow> n = k + length (ltv_bytes xs) \<Longrightarrow> n < 256 \<Longrightarrow>
   skip_loop d n i k = Some (i + length (ltv_bytes xs), n)"
proof (induction xs arbitrary: i k)
  case Nil
  then show ?case by (simp add: skip_loop.simps)
next
  case (Cons x xs)
  have d: "drop i d = of_nat (length x) # x @ (ltv_bytes xs @ ys)" using Cons.prems(1) by simp
  have "drop (i + (length x + 1)) d = ltv_bytes xs @ ys" by (rule drop_next [OF d])
  from Cons.IH [OF this, of "k + (length x + 1)"] Cons.prems(2-)
  have "skip_loop d n (i + (length x + 1)) (k + (length x + 1)) = Some (i + length (ltv_bytes (x # xs)), n)" by simp
  then show ?case using arr_get_at [OF d] Cons.prems(2-) by (subst skip_loop.simps) simp
qed

lemma check_records_ok:
  "drop i d = concat (map pac_bytes ps) @ ys \<Longrightarrow> list_all (\<lambda>(_, caps, md). items_ok caps \<and> items_ok md) ps \<Longrightarrow>
   i + length (concat (map pac_bytes ps)) \<le> len \<Longrightarrow> len < 256 \<Longrightarrow>
   check_records d len (length ps) i = Some (if i + length (concat (map pac_bytes ps)) = len then 0 else 5)"
proof (induction ps arbitrary: i)
  case Nil
  then show ?case by simp
next
  case (Cons p ps)
  obtain c caps md where p: "p = (c, caps, md)" by (cases p)
  have d: "drop i d = pac_bytes (c, caps, md) @ (concat (map pac_bytes ps) @ ys)" using Cons.prems(1) by (simp add: p)
  note parts = pac_parts [OF d]
  let ?a = "length (ltv_bytes caps)" and ?b = "length (ltv_bytes md)"
  have b: "i + 7 + ?a + ?b \<le> len" "?a < 256" "?b < 256" using Cons.prems(2,3,4) by (simp_all add: p items_ok_def)
  have s1: "skip_loop d ?a (i + 6) 0 = Some (i + 6 + ?a, ?a)"
    by (rule skip_items [OF parts(4)]) (use b Cons.prems(4) in simp_all)
  have s2: "skip_loop d ?b (i + 7 + ?a) 0 = Some (i + 7 + ?a + ?b, ?b)"
    by (rule skip_items [OF parts(6)]) (use b Cons.prems(4) in simp_all)
  have "drop (i + 7 + ?a + ?b) d = concat (map pac_bytes ps) @ ys"
    using drop_more [OF d] by (simp add: add.assoc add.commute add.left_commute)
  from Cons.IH [OF this] Cons.prems(2-) b
  have ih: "check_records d len (length ps) (i + 7 + ?a + ?b) =
      Some (if i + 7 + ?a + ?b + length (concat (map pac_bytes ps)) = len then 0 else 5)" by (simp add: p)
  have m: "(i + 5) mod 256 = i + 5" "(i + 5 + 1) mod 256 = i + 6" "(i + 6 + ?a + 1) mod 256 = i + 7 + ?a"
    using b Cons.prems(4) by simp_all
  have "check_records d len (Suc (length ps)) i = check_records d len (length ps) (i + 7 + ?a + ?b)"
    using b unfolding check_records.simps m Let_def parts(3) bind.bind_lunit
    by (simp add: unat_len s1 [simplified] parts(5) [simplified] s2 [simplified] m [simplified])
  then show ?case using ih by (simp add: p ac_simps)
qed

section \<open>The look-up finds the capability\<close>

definition pac_serves :: "arr5 \<Rightarrow> codec_cfg \<Rightarrow> pac \<Rightarrow> bool" where
  "pac_serves i cfg p \<longleftrightarrow> (case p of (c, caps, md) \<Rightarrow> c = i \<and>
     (\<exists>cap. codec_cap_parse (of_nat (length (ltv_bytes caps))) (Some (ltv_bytes caps)) (Some zero_cap) = Some (True, Some cap)
        \<and> cap_allows cap cfg))"

lemma cap_check_serves:
  assumes "items_ok caps" "cfg_sound cfg"
  shows "codec_cap_check (of_nat (length (ltv_bytes caps))) (Some (ltv_bytes caps @ ys)) (Some cfg) =
    Some (pac_serves i cfg (i, caps, md))"
proof -
  note in' = cap_parse_inside [OF assms(1) refl]
  obtain ok cap where r: "codec_cap_parse (of_nat (length (ltv_bytes caps))) (Some (ltv_bytes caps)) (Some zero_cap) = Some (ok, cap)"
    using in'(2) [of zero_cap] by auto
  have "cap \<noteq> None" using r by (auto simp: codec_cap_parse_def split: if_splits elim!: bind_SomeE)
  then show ?thesis
    using r by (auto simp: codec_cap_check_def pac_serves_def in'(1) check_cap_eq [OF assms(2)])
qed

lemma pac_loop_finds:
  "drop i d = concat (map pac_bytes ps) @ ys \<Longrightarrow> list_all (\<lambda>(_, caps, md). items_ok caps \<and> items_ok md) ps \<Longrightarrow>
   i + length (concat (map pac_bytes ps)) < 256 \<Longrightarrow> cfg_sound cfg \<Longrightarrow>
   pac_loop d codec cfg (length ps) i = Some (\<exists>p \<in> set ps. pac_serves codec cfg p)"
proof (induction ps arbitrary: i)
  case Nil
  then show ?case by simp
next
  case (Cons p ps)
  obtain c caps md where p: "p = (c, caps, md)" by (cases p)
  have d: "drop i d = pac_bytes (c, caps, md) @ (concat (map pac_bytes ps) @ ys)" using Cons.prems(1) by (simp add: p)
  note parts = pac_parts [OF d]
  let ?a = "length (ltv_bytes caps)" and ?b = "length (ltv_bytes md)"
  have b: "i + 7 + ?a + ?b < 256" "?a < 256" "?b < 256" "items_ok caps" using Cons.prems(2,3) by (simp_all add: p items_ok_def)
  have m: "(i + 5) mod 256 = i + 5" "(i + 5 + 1) mod 256 = i + 6" "(i + 6 + ?a) mod 256 = i + 6 + ?a"
    "((i + 6 + ?a + 1) mod 256 + ?b) mod 256 = i + 7 + ?a + ?b"
    using b by simp_all
  have "drop (i + 7 + ?a + ?b) d = concat (map pac_bytes ps) @ ys"
    using drop_more [OF d] by (simp add: add.assoc add.commute add.left_commute)
  from Cons.IH [OF this] Cons.prems(2-) b(1)
  have ih: "pac_loop d codec cfg (length ps) (i + 7 + ?a + ?b) = Some (\<exists>p \<in> set ps. pac_serves codec cfg p)" by (simp add: p)
  have hit: "(if bytes5 c = bytes5 codec then codec_cap_check (of_nat ?a) (Some (drop (i + 6) d)) (Some cfg) else Some False) =
      Some (pac_serves codec cfg p)"
    unfolding parts(4) using cap_check_serves [OF b(4) Cons.prems(4), of _ c md] by (auto simp: p pac_serves_def)
  have sl: "slice_of d i 5 = Some (bytes5 c)" using parts(1,2) by (simp add: slice_of_def)
  have "pac_loop d codec cfg (Suc (length ps)) i =
      (if pac_serves codec cfg p then Some True else pac_loop d codec cfg (length ps) (i + 7 + ?a + ?b))"
    unfolding pac_loop.simps sl bind.bind_lunit Let_def m parts(3) hit unat_len [OF b(2)] parts(5) unat_len [OF b(3)] by simp
  then show ?case using ih by simp
qed

text \<open>C11: A record made of well-formed capabilities is accepted, and looking a codec configuration up in it finds it
  exactly when one of the capabilities has the codec and allows the configuration - whatever lies behind the record, and
  without reading it.\<close>

theorem pac_record_roundtrip:
  assumes "pacs_ok ps" "cfg_sound cfg"
  shows "pac_check_record (Some (pacs_bytes ps @ ys)) (of_nat (length (pacs_bytes ps))) = Some True \<and>
    pac_find_record (Some (pacs_bytes ps @ ys)) (of_nat (length (pacs_bytes ps))) codec cfg =
      Some (\<exists>p \<in> set ps. pac_serves codec cfg p)"
proof -
  let ?d = "pacs_bytes ps @ ys"
  have len: "length (pacs_bytes ps) = 1 + length (concat (map pac_bytes ps))" by (simp add: pacs_bytes_def)
  have small: "length (pacs_bytes ps) < 256" using assms(1) by (simp add: pacs_ok_def)
  have items: "list_all (\<lambda>(_, caps, md). items_ok caps \<and> items_ok md) ps" using assms(1) by (simp add: pacs_ok_def)
  obtain p ps' where ps: "ps = p # ps'" using assms(1) by (cases ps) (auto simp: pacs_ok_def)
  have ge: "length (pac_bytes p) \<ge> 7" for p by (cases p) simp
  have n: "length ps \<le> length (concat (map pac_bytes ps))"
  proof (induction ps)
    case (Cons q qs)
    then show ?case using ge [of q] by simp
  qed simp
  then have num: "length ps < 256" using small len by simp
  have eight: "8 \<le> length (pacs_bytes ps)" using ge [of p] by (simp add: pacs_bytes_def ps)
  define n :: u8 where "n = of_nat (length (pacs_bytes ps))"
  have u: "unat n = length (pacs_bytes ps)" using small by (simp add: n_def)
  have min: "\<not> n < 8" using eight by (simp add: word_less_nat_alt u)
  have d: "drop 1 ?d = concat (map pac_bytes ps) @ ys" "arr_get ?d 0 = Some (of_nat (length ps))"
    by (simp_all add: pacs_bytes_def arr_get_def)
  have "check_records ?d (length (pacs_bytes ps)) (length ps) 1 = Some 0"
    using check_records_ok [OF d(1) items, of "length (pacs_bytes ps)"] len small by simp
  then have "pac_check_record (Some ?d) n = Some True"
    using d(2) num min by (simp add: pac_check_record_def u)
  moreover have "pac_loop ?d codec cfg (length ps) 1 = Some (\<exists>p \<in> set ps. pac_serves codec cfg p)"
    by (rule pac_loop_finds [OF d(1) items _ assms(2)]) (use len small in simp)
  then have "pac_find_record (Some ?d) n codec cfg = Some (\<exists>p \<in> set ps. pac_serves codec cfg p)"
    using d(2) num min by (simp add: pac_find_record_def)
  ultimately show ?thesis by (simp add: n_def)
qed

definition demo_pac :: "pac list" where
  "demo_pac = [((6, 0, 0, 0, 0), [[1, 0x10, 0], [2, 2]], [])]"

theorem pac_record_roundtrip_witness:
  "pac_check_record (Some [1, 6, 0, 0, 0, 0, 7, 3, 1, 0x10, 0, 2, 2, 2, 0]) 15 = Some True \<and>
   pac_find_record (Some [1, 6, 0, 0, 0, 0, 7, 3, 1, 0x10, 0, 2, 2, 2, 0]) 15 (6, 0, 0, 0, 0)
     (zero_cfg\<lparr>type_exist := CFG_FREQ_EXIST, sample_frequency := 5, codec_frame_blocks_per_sdu := 1\<rparr>) = Some True"
proof -
  let ?cfg = "zero_cfg\<lparr>type_exist := CFG_FREQ_EXIST, sample_frequency := 5, codec_frame_blocks_per_sdu := 1\<rparr>"
  have b: "pacs_bytes demo_pac = [1, 6, 0, 0, 0, 0, 7, 3, 1, 0x10, 0, 2, 2, 2, 0]"
    by (simp add: demo_pac_def pacs_bytes_def)
  have ok: "pacs_ok demo_pac" by (simp add: pacs_ok_def b) (simp add: demo_pac_def items_ok_def)
  have sound: "cfg_sound ?cfg" by (simp add: cfg_sound_def zero_cfg_def has_flags)
  have "codec_cap_check 7 (Some [3, 1, 0x10, 0, 2, 2, 2]) (Some ?cfg) = Some True" by code_simp
  then have "\<exists>p \<in> set demo_pac. pac_serves (6, 0, 0, 0, 0) ?cfg p"
    using cap_check_serves [of "[[1, 0x10, 0], [2, 2]]" ?cfg "[]" "(6, 0, 0, 0, 0)" "[]"] sound
    by (simp add: demo_pac_def items_ok_def)
  then show ?thesis using pac_record_roundtrip [OF ok sound, of "[]" "(6, 0, 0, 0, 0)"] unfolding b by simp
qed

section \<open>Records the check gets wrong\<close>

lemma skip_never:
  "skip_loop d n i k = Some r \<Longrightarrow> \<not> (k < n \<and> arr_get d i = Some (255 :: u8) \<and> i < 256 \<and> k < 256)"
proof (rule skip_loop.raw_induct [where P = "\<lambda>d n i k r. \<not> (k < n \<and> arr_get d i = Some (255 :: u8) \<and> i < 256 \<and> k < 256)"])
  fix skip d n i k r
  assume ih: "\<And>d n i k r. skip d n i k = Some r \<Longrightarrow> \<not> (k < n \<and> arr_get d i = Some (255 :: u8) \<and> i < 256 \<and> k < 256)"
    and r: "(if k < n then do { len \<leftarrow> arr_get d i; skip d n ((i + (unat len + 1)) mod 256) ((k + (unat len + 1)) mod 256) }
      else Some (i, k)) = Some r"
  show "\<not> (k < n \<and> arr_get d i = Some (255 :: u8) \<and> i < 256 \<and> k < 256)"
  proof
    assume a: "k < n \<and> arr_get d i = Some (255 :: u8) \<and> i < 256 \<and> k < 256"
    then have "skip d n i k = Some r" using r by (simp add: mod_less)
    then show False using ih a by blast
  qed
qed

definition wrapping_record :: "u8 list" where
  "wrapping_record = [1, 6, 0, 0, 0, 0, 10, 8, 1, 0, 0, 0, 0, 0, 0, 1, 254, 0]"

text \<open>C40: The byte counters of the check wrap. On a record whose first capability starts with the length 255 it never
  ends, whatever follows; and it accepts a record whose capabilities are not a sequence of items.\<close>

theorem pac_check_wraps:
  assumes "8 \<le> n" "8 \<le> length d" "d ! 0 \<noteq> 0" "d ! 6 \<noteq> 0" "d ! 7 = 255"
  shows "pac_check_record (Some d) n = None \<and>
    pac_check_record (Some wrapping_record) 18 = Some True \<and>
    \<not> (\<exists>xs. take 10 (drop 7 wrapping_record) = ltv_bytes xs \<and> ltv_ok xs)"
proof (intro conjI)
  have at: "arr_get d 0 = Some (d ! 0)" "arr_get d 6 = Some (d ! 6)" "arr_get d 7 = Some 255"
    using assms by (auto simp: arr_get_def)
  have "0 < unat (d ! 6)" using assms(4) by (simp add: unat_gt_0)
  then have "skip_loop d (unat (d ! 6)) 7 0 = None"
    using skip_never [of d "unat (d ! 6)" 7 0] at(3) by (cases "skip_loop d (unat (d ! 6)) 7 0") auto
  then have "check_records d len (Suc k) 1 = None" for len k using at(2) by simp
  moreover obtain k where "unat (d ! 0) = Suc k" using assms(3) by (metis not0_implies_Suc unat_eq_0)
  ultimately show "pac_check_record (Some d) n = None" using at(1) assms(1) by (simp add: pac_check_record_def not_less [symmetric])
next
  show "pac_check_record (Some wrapping_record) 18 = Some True"
    by (simp add: pac_check_record_def wrapping_record_def skip_loop.simps arr_get_def)
next
  have "\<not> (\<exists>xs. [8, 1, 0, 0, 0, 0, 0, 0, 1, 254 :: u8] = ltv_bytes xs \<and> ltv_ok xs)"
  proof
    assume "\<exists>xs. [8, 1, 0, 0, 0, 0, 0, 0, 1, 254 :: u8] = ltv_bytes xs \<and> ltv_ok xs"
    then obtain xs where xs: "[8, 1, 0, 0, 0, 0, 0, 0, 1, 254 :: u8] = ltv_bytes xs" "ltv_ok xs" by blast
    then obtain x ys where x: "xs = x # ys" "length x < 256" "[1, 0, 0, 0, 0, 0, 0, 1, 254] = x @ ltv_bytes ys"
      "of_nat (length x) = (8 :: u8)" by (cases xs) auto
    have "length x = 8" using arg_cong [OF x(4), of unat] x(2) by simp
    then have "ltv_bytes ys = [254]" using arg_cong [OF x(3), of "drop 8"] by simp
    then obtain y zs where y: "ys = y # zs" "y = []" "of_nat (length y) = (254 :: u8)" by (cases ys) auto
    then show False by simp
  qed
  then show "\<not> (\<exists>xs. take 10 (drop 7 wrapping_record) = ltv_bytes xs \<and> ltv_ok xs)" by (simp add: wrapping_record_def)
qed

theorem pac_check_wraps_witness:
  "pac_check_record (Some [1, 6, 0, 0, 0, 0, 2, 255, 0]) 9 = None"
  using pac_check_wraps [of 9 "[1, 6, 0, 0, 0, 0, 2, 255, 0]"] by simp

end
